(* ===== verification/Prelude.thy ===== *)
theory Prelude
  imports Main "HOL-Library.Word" "HOL-Library.AList" "HOL-Library.List_Lexorder"
begin

section \<open>Shared types, automation and lemmas\<close>

text \<open>
  What every component of the client shares: Python byte strings as lists of 8-bit words,
  exceptions as values, the sum type of fallible code with its bind, Python's list
  indexing, dictionaries as association lists in insertion order, and generic facts about
  lists.  The collections \<open>res_simps\<close> (fallible code), \<open>dict_simps\<close> (dictionaries) and
  \<open>seq_simps\<close> (slices of byte strings) are filled here and extended by the components.
\<close>

named_theorems res_simps \<open>results of fallible code\<close>
named_theorems dict_simps \<open>dictionaries\<close>
named_theorems seq_simps \<open>slices of lists\<close>

subsection \<open>Bytes and exceptions\<close>

type_synonym byte = "8 word"
type_synonym bytes = "byte list"

text \<open>A Python \<open>str\<close> is a list of code points.\<close>

type_synonym ustr = "nat list"

text \<open>
  The exceptions the modelled code raises or lets through.  The exceptions the client
  declares itself carry the fixed part of their message, so that different branches stay
  different; the built-in ones carry nothing.
\<close>

datatype exc =
    TypeError | ValueError | IndexError | KeyError | RuntimeError | AttributeError
  | ZeroDivisionError | OverflowError | UnicodeEncodeError | UnicodeDecodeError | StructError
  | OSError | TimeoutError | IncompleteReadError | ConnectionResetError
  | BencodeDecodeError string | BencodeEncodeError string
  | TorrentParseError string | TrackerError string
  | PeerError string | HandshakeError string

type_synonym 'a res = "exc + 'a"

text \<open>A byte-string literal \<open>b"..."\<close>.\<close>

definition ascii :: "string \<Rightarrow> bytes" where
  "ascii s = map of_char s"

text \<open>A text literal; the client's own literals are ASCII.\<close>

definition ucs :: "string \<Rightarrow> ustr" where
  "ucs s = map of_char s"

lemma ascii_simps [simp]: "ascii [] = []" "ascii (c # cs) = of_char c # ascii cs"
  by (simp_all add: ascii_def)

lemma ucs_simps [simp]: "ucs [] = []" "ucs (c # cs) = of_char c # ucs cs"
  by (simp_all add: ucs_def)

lemma length_ascii [simp]: "length (ascii s) = length s"
  by (simp add: ascii_def)


subsection \<open>Fallible code\<close>

definition bindR :: "'e + 'a \<Rightarrow> ('a \<Rightarrow> 'e + 'b) \<Rightarrow> 'e + 'b" where
  "bindR m f = (case m of Inl e \<Rightarrow> Inl e | Inr x \<Rightarrow> f x)"

lemma bindR_simps [simp]: "bindR (Inl e) f = Inl e" "bindR (Inr x) f = f x"
  by (simp_all add: bindR_def)

lemma bindR_cong [fundef_cong]:
  "m = m' \<Longrightarrow> (\<And>x. m' = Inr x \<Longrightarrow> f x = g x) \<Longrightarrow> bindR m f = bindR m' g"
  by (auto simp: bindR_def split: sum.splits)

lemma bindR_Inr_iff [res_simps]: "bindR m f = Inr y \<longleftrightarrow> (\<exists>x. m = Inr x \<and> f x = Inr y)"
  by (cases m) auto

lemma bindR_Inl_iff [res_simps]:
  "bindR m f = Inl e \<longleftrightarrow> m = Inl e \<or> (\<exists>x. m = Inr x \<and> f x = Inl e)"
  by (cases m) auto

lemma case_sum_Inr_iff [res_simps]:
  "(case m of Inl e \<Rightarrow> f e | Inr x \<Rightarrow> g x) = Inr y \<longleftrightarrow>
     (\<exists>e. m = Inl e \<and> f e = Inr y) \<or> (\<exists>x. m = Inr x \<and> g x = Inr y)"
  by (cases m) auto

lemma case_list_Inr_iff [res_simps]:
  "(case xs of [] \<Rightarrow> a | x # ys \<Rightarrow> f x ys) = Inr y \<longleftrightarrow>
     (xs = [] \<and> a = Inr y) \<or> (\<exists>x ys. xs = x # ys \<and> f x ys = Inr y)"
  by (cases xs) auto

lemma bindR_assoc: "bindR (bindR m f) g = bindR m (\<lambda>x. bindR (f x) g)"
  by (cases m) auto

lemma if_Inl_eq_Inr [res_simps]: "(if b then Inl e else r) = Inr y \<longleftrightarrow> \<not> b \<and> r = Inr y"
  by simp

text \<open>Running a fallible step over a list, from left to right; the first error wins.\<close>

fun mapR :: "('a \<Rightarrow> 'e + 'b) \<Rightarrow> 'a list \<Rightarrow> 'e + 'b list" where
  "mapR f [] = Inr []"
| "mapR f (x # xs) = bindR (f x) (\<lambda>y. bindR (mapR f xs) (\<lambda>ys. Inr (y # ys)))"

lemma mapR_cong [fundef_cong]:
  "xs = ys \<Longrightarrow> (\<And>x. x \<in> set ys \<Longrightarrow> f x = g x) \<Longrightarrow> mapR f xs = mapR g ys"
  by (induction ys arbitrary: xs) auto

lemma mapR_Inr: "(\<And>x. x \<in> set xs \<Longrightarrow> f x = Inr (g x)) \<Longrightarrow> mapR f xs = Inr (map g xs)"
  by (induction xs) auto

lemma mapR_exists: "(\<forall>x \<in> set xs. \<exists>y. f x = Inr y) \<Longrightarrow> \<exists>ys. mapR f xs = Inr ys"
  by (induction xs) (auto simp: res_simps)

lemma mapR_Inr_iff [res_simps]: "mapR f xs = Inr ys \<longleftrightarrow> list_all2 (\<lambda>x y. f x = Inr y) xs ys"
  by (induction xs arbitrary: ys) (auto simp: res_simps list_all2_Cons1)

text \<open>Threading a state through a fallible step over a list.\<close>

fun foldR :: "('s \<Rightarrow> 'a \<Rightarrow> 'e + 's) \<Rightarrow> 's \<Rightarrow> 'a list \<Rightarrow> 'e + 's" where
  "foldR f s [] = Inr s"
| "foldR f s (x # xs) = bindR (f s x) (\<lambda>s'. foldR f s' xs)"

lemma foldR_append: "foldR f s (xs @ ys) = bindR (foldR f s xs) (\<lambda>s'. foldR f s' ys)"
  by (induction xs arbitrary: s) (auto simp: bindR_assoc)

lemma foldR_Inr_fold: "(\<And>s x. x \<in> set xs \<Longrightarrow> f s x = Inr (g x s)) \<Longrightarrow> foldR f s xs = Inr (fold g xs s)"
  by (induction xs arbitrary: s) auto

lemma foldR_invariant:
  assumes "foldR f s xs = Inr s'" "P s"
    and "\<And>s x t. P s \<Longrightarrow> x \<in> set xs \<Longrightarrow> f s x = Inr t \<Longrightarrow> P t"
  shows "P s'"
  using assms
proof (induction xs arbitrary: s)
  case Nil
  then show ?case by simp
next
  case (Cons x xs)
  from Cons.prems(1) obtain t where t: "f s x = Inr t" and r: "foldR f t xs = Inr s'"
    by (auto simp: res_simps)
  from Cons.prems(2,3) t have "P t" by (meson list.set_intros(1))
  with r Cons show ?case by (meson list.set_intros(2))
qed

subsection \<open>Python sequences\<close>

abbreviation blen :: "'a list \<Rightarrow> int" where
  "blen xs \<equiv> int (length xs)"

text \<open>\<open>xs[i]\<close>: negative indices count from the end, out of range is IndexError.\<close>

definition py_index :: "nat \<Rightarrow> int \<Rightarrow> nat res" where
  "py_index n i =
     (let j = (if i < 0 then i + int n else i)
      in if 0 \<le> j \<and> j < int n then Inr (nat j) else Inl IndexError)"

definition py_get :: "'a list \<Rightarrow> int \<Rightarrow> 'a res" where
  "py_get xs i = bindR (py_index (length xs) i) (\<lambda>j. Inr (xs ! j))"

lemma py_index_nonneg [res_simps]:
  "0 \<le> i \<Longrightarrow> py_index n i = (if i < int n then Inr (nat i) else Inl IndexError)"
  by (simp add: py_index_def)

lemma py_index_Inr: "py_index n i = Inr j \<Longrightarrow> j < n"
  by (auto simp: py_index_def Let_def split: if_splits)

text \<open>\<open>d[i:j]\<close> for \<open>0 \<le> i \<le> j\<close>, the only slices the client takes.\<close>

definition slice :: "nat \<Rightarrow> nat \<Rightarrow> 'a list \<Rightarrow> 'a list" where
  "slice i j xs = take (j - i) (drop i xs)"

lemma length_slice [simp, seq_simps]: "length (slice i j xs) = min (j - i) (length xs - i)"
  by (simp add: slice_def min.commute)

lemma slice_append_mid [seq_simps]:
  "i = length pre \<Longrightarrow> j = i + length mid \<Longrightarrow> slice i j (pre @ mid @ post) = mid"
  by (simp add: slice_def)

lemma slice_whole [simp]: "slice 0 (length xs) xs = xs"
  by (simp add: slice_def)

lemma slice_concat [seq_simps]:
  "i \<le> j \<Longrightarrow> j \<le> k \<Longrightarrow> slice i j xs @ slice j k xs = slice i k xs"
proof -
  assume "i \<le> j" "j \<le> k"
  then have "k - i = (j - i) + (k - j)" "drop j xs = drop (j - i) (drop i xs)" by simp_all
  then show ?thesis unfolding slice_def by (simp only: take_add)
qed

lemma nth_slice: "k < j - i \<Longrightarrow> i + k < length xs \<Longrightarrow> slice i j xs ! k = xs ! (i + k)"
  by (simp add: slice_def)

text \<open>\<open>d.find(sub, start)\<close> for a non-empty \<open>sub\<close>; None is -1.\<close>

function find_from :: "'a list \<Rightarrow> 'a list \<Rightarrow> nat \<Rightarrow> nat option" where
  "find_from sub d i =
     (if length d < i + length sub then None
      else if take (length sub) (drop i d) = sub then Some i
      else if length d \<le> i then None
      else find_from sub d (Suc i))"
  by pat_completeness auto
termination
  by (relation "measure (\<lambda>(sub, d, i). length d - i)") auto

declare find_from.simps [simp del]

lemma find_from_Some:
  "find_from sub d i = Some j \<Longrightarrow>
     i \<le> j \<and> j + length sub \<le> length d \<and> take (length sub) (drop j d) = sub \<and>
     (\<forall>k. i \<le> k \<and> k < j \<longrightarrow> take (length sub) (drop k d) \<noteq> sub)"
proof (induction sub d i rule: find_from.induct)
  case (1 sub d i)
  show ?case
  proof (cases "length d < i + length sub \<or> take (length sub) (drop i d) = sub \<or> length d \<le> i")
    case True
    with "1.prems" show ?thesis
      by (subst (asm) find_from.simps) (auto split: if_splits)
  next
    case False
    with "1.prems" have "find_from sub d (Suc i) = Some j"
      by (subst (asm) find_from.simps) simp
    with "1.IH" False have *: "Suc i \<le> j \<and> j + length sub \<le> length d \<and> take (length sub) (drop j d) = sub \<and>
       (\<forall>k. Suc i \<le> k \<and> k < j \<longrightarrow> take (length sub) (drop k d) \<noteq> sub)"
      by simp
    have "take (length sub) (drop k d) \<noteq> sub" if "i \<le> k" "k < j" for k
      using that * False by (cases "k = i") auto
    with * show ?thesis by auto
  qed
qed

lemma find_from_first:
  assumes "i \<le> j" "j + length sub \<le> length d" "take (length sub) (drop j d) = sub"
    and "\<And>k. i \<le> k \<Longrightarrow> k < j \<Longrightarrow> take (length sub) (drop k d) \<noteq> sub"
  shows "find_from sub d i = Some j"
  using assms
proof (induction "j - i" arbitrary: i)
  case 0
  then show ?case by (subst find_from.simps) auto
next
  case (Suc n)
  then have "find_from sub d (Suc i) = Some j" by simp
  with Suc.prems Suc.hyps(2) show ?case
    by (subst find_from.simps) auto
qed

lemma find_from_single:
  assumes "b \<notin> set xs"
  shows "find_from [b] (pre @ xs @ b # post) (length pre) = Some (length pre + length xs)"
proof (rule find_from_first)
  fix k assume k: "length pre \<le> k" "k < length pre + length xs"
  then have "take 1 (drop k (pre @ xs @ b # post)) = [xs ! (k - length pre)]"
    by (simp add: take_Suc hd_drop_conv_nth nth_append)
  with assms k show "take (length [b]) (drop k (pre @ xs @ b # post)) \<noteq> [b]"
    by auto
qed auto

text \<open>A byte string that sits at a position of another.\<close>

definition occurs_at :: "'a list \<Rightarrow> nat \<Rightarrow> 'a list \<Rightarrow> bool" where
  "occurs_at bs i d \<longleftrightarrow> i + length bs \<le> length d \<and> take (length bs) (drop i d) = bs"

lemma occurs_at_iff: "occurs_at bs i d \<longleftrightarrow> (\<exists>pre post. d = pre @ bs @ post \<and> length pre = i)"
proof
  assume "occurs_at bs i d"
  then have o: "take (length bs) (drop i d) = bs" "length (take i d) = i"
    by (simp_all add: occurs_at_def)
  have "drop i d = bs @ drop (length bs) (drop i d)"
    using append_take_drop_id [of "length bs" "drop i d"] o(1) by simp
  then have "d = take i d @ bs @ drop (length bs) (drop i d)"
    using append_take_drop_id [of i d] by simp
  with o(2) show "\<exists>pre post. d = pre @ bs @ post \<and> length pre = i" by blast
qed (auto simp: occurs_at_def)

lemma occurs_atI: "occurs_at bs (length pre) (pre @ bs @ post)"
  by (auto simp: occurs_at_iff)

lemma occurs_at_Nil [seq_simps]: "occurs_at [] i d \<longleftrightarrow> i \<le> length d"
  by (simp add: occurs_at_def)

lemma occurs_at_append [seq_simps]:
  "occurs_at (xs @ ys) i d \<longleftrightarrow> occurs_at xs i d \<and> occurs_at ys (i + length xs) d"
proof
  assume "occurs_at xs i d \<and> occurs_at ys (i + length xs) d"
  then show "occurs_at (xs @ ys) i d"
    by (auto simp: occurs_at_def take_add add.commute)
next
  assume "occurs_at (xs @ ys) i d"
  then obtain pre post where "d = pre @ xs @ ys @ post" "length pre = i"
    by (auto simp: occurs_at_iff)
  then show "occurs_at xs i d \<and> occurs_at ys (i + length xs) d"
    by (auto simp: occurs_at_def)
qed

lemma occurs_at_Cons [seq_simps]:
  "occurs_at (b # bs) i d \<longleftrightarrow> i < length d \<and> d ! i = b \<and> occurs_at bs (Suc i) d"
proof -
  have "occurs_at [b] i d \<longleftrightarrow> i < length d \<and> d ! i = b"
    by (auto simp: occurs_at_def take_Suc hd_drop_conv_nth)
  then show ?thesis using occurs_at_append [of "[b]" bs i d] by simp
qed

lemma occurs_at_prefix: "i + length xs \<le> length d \<Longrightarrow> occurs_at xs i (d @ r) \<longleftrightarrow> occurs_at xs i d"
  by (simp add: occurs_at_def)

lemma occurs_at_slice: "occurs_at bs i d \<Longrightarrow> slice i (i + length bs) d = bs"
  by (simp add: occurs_at_def slice_def)

lemma occurs_at_length: "occurs_at bs i d \<Longrightarrow> i + length bs \<le> length d"
  by (simp add: occurs_at_def)

lemma find_from_occurs:
  assumes "occurs_at (xs @ [b]) i d" "b \<notin> set xs"
  shows "find_from [b] d i = Some (i + length xs)"
proof -
  from assms(1) obtain pre post where "d = pre @ xs @ b # post" "length pre = i"
    by (auto simp: occurs_at_iff)
  with find_from_single [OF assms(2)] show ?thesis by blast
qed

subsection \<open>Dictionaries\<close>

text \<open>
  A Python dictionary keeps its keys in insertion order and an assignment to a key it has
  leaves the key in its place: the association lists of \<open>HOL-Library.AList\<close>.
\<close>

type_synonym ('k, 'v) dict = "('k \<times> 'v) list"

abbreviation dict_get :: "('k, 'v) dict \<Rightarrow> 'k \<Rightarrow> 'v option" where
  "dict_get d k \<equiv> map_of d k"

definition dict_set :: "'k \<Rightarrow> 'v \<Rightarrow> ('k, 'v) dict \<Rightarrow> ('k, 'v) dict" where
  "dict_set k v d = AList.update k v d"

definition dict_pop :: "'k \<Rightarrow> ('k, 'v) dict \<Rightarrow> ('k, 'v) dict" where
  "dict_pop k d = AList.delete k d"

definition dict_ok :: "('k, 'v) dict \<Rightarrow> bool" where
  "dict_ok d \<longleftrightarrow> distinct (map fst d)"

lemma dict_set_simps [simp]:
  "dict_set k v [] = [(k, v)]"
  "dict_set k v (p # d) = (if fst p = k then (k, v) # d else p # dict_set k v d)"
  by (simp_all add: dict_set_def)

lemma dict_pop_simps [simp]:
  "dict_pop k [] = []"
  "dict_pop k (p # d) = (if fst p = k then dict_pop k d else p # dict_pop k d)"
  by (cases p; auto simp: dict_pop_def AList.delete_eq)+

lemma dict_get_set [dict_simps]: "dict_get (dict_set k v d) = (dict_get d)(k \<mapsto> v)"
  by (rule ext) (simp add: dict_set_def update_conv')

lemma dict_get_pop [dict_simps]: "dict_get (dict_pop k d) = (dict_get d)(k := None)"
  by (rule ext) (simp add: dict_pop_def delete_conv')

lemma keys_dict_set [dict_simps]: "fst ` set (dict_set k v d) = insert k (fst ` set d)"
  by (induction d) auto

lemma keys_dict_pop [dict_simps]: "fst ` set (dict_pop k d) = fst ` set d - {k}"
  by (induction d) auto

lemma dict_ok_Nil [simp]: "dict_ok []"
  by (simp add: dict_ok_def)

lemma dict_ok_Cons [simp]: "dict_ok ((k, v) # d) \<longleftrightarrow> k \<notin> fst ` set d \<and> dict_ok d"
  by (auto simp: dict_ok_def)

lemma dict_ok_set [simp, intro]: "dict_ok d \<Longrightarrow> dict_ok (dict_set k v d)"
  by (induction d) (force simp: dict_simps)+

lemma dict_ok_pop [simp, intro]: "dict_ok d \<Longrightarrow> dict_ok (dict_pop k d)"
  by (induction d) (auto simp: dict_simps)

lemma dict_get_mem: "dict_ok d \<Longrightarrow> (k, v) \<in> set d \<longleftrightarrow> dict_get d k = Some v"
  by (auto simp: dict_ok_def)

lemma dict_set_fresh: "k \<notin> fst ` set d \<Longrightarrow> dict_set k v d = d @ [(k, v)]"
  by (induction d) auto

lemma set_dict_set:
  "dict_ok d \<Longrightarrow> set (dict_set k v d) = insert (k, v) {p \<in> set d. fst p \<noteq> k}"
  by (induction d) (force simp: image_iff)+

lemma set_dict_pop: "set (dict_pop k d) = {p \<in> set d. fst p \<noteq> k}"
  by (induction d) auto

lemma length_dict_set:
  "length (dict_set k v d) = (if k \<in> fst ` set d then length d else Suc (length d))"
  by (induction d) auto

lemma length_dict_pop: "length (dict_pop k d) \<le> length d"
  by (induction d) auto

subsection \<open>Self-delimiting encodings\<close>

text \<open>
  The contract of every wire format of the client: a decoder that is handed an encoding
  followed by anything returns the value and exactly the rest.  The bencoding and the peer
  wire framing are both instances; what follows from the contract is proved here once.
\<close>

locale codec =
  fixes enc :: "'a \<Rightarrow> 'b list"
    and dec :: "'b list \<Rightarrow> 'e + ('c \<times> 'b list)"
    and ok :: "'a \<Rightarrow> bool"
    and view :: "'a \<Rightarrow> 'c"
  assumes dec_enc: "ok x \<Longrightarrow> dec (enc x @ rest) = Inr (view x, rest)"
begin

lemma dec_enc_exact: "ok x \<Longrightarrow> dec (enc x) = Inr (view x, [])"
  using dec_enc [of x "[]"] by simp

lemma enc_prefix_free:
  assumes "ok x" "ok y" "enc x @ r = enc y @ s"
  shows "view x = view y \<and> r = s"
proof -
  have "dec (enc x @ r) = Inr (view x, r)" using assms(1) by (rule dec_enc)
  moreover have "dec (enc y @ s) = Inr (view y, s)" using assms(2) by (rule dec_enc)
  ultimately show ?thesis using assms(3) by simp
qed

lemma enc_inj: "ok x \<Longrightarrow> ok y \<Longrightarrow> enc x = enc y \<Longrightarrow> view x = view y"
  using enc_prefix_free [of x y "[]" "[]"] by simp

end

text \<open>Decoding \<open>n\<close> values in a row.\<close>

fun decode_many :: "('b list \<Rightarrow> 'e + ('c \<times> 'b list)) \<Rightarrow> nat \<Rightarrow> 'b list \<Rightarrow> 'e + ('c list \<times> 'b list)" where
  "decode_many dec 0 d = Inr ([], d)"
| "decode_many dec (Suc n) d =
     bindR (dec d) (\<lambda>(x, d'). bindR (decode_many dec n d') (\<lambda>(xs, d''). Inr (x # xs, d'')))"

context codec
begin

lemma decode_many_concat:
  "(\<And>x. x \<in> set xs \<Longrightarrow> ok x) \<Longrightarrow>
   decode_many dec (length xs) (concat (map enc xs) @ rest) = Inr (map view xs, rest)"
  by (induction xs) (simp_all add: dec_enc)

lemma concat_enc_inj:
  assumes "\<And>x. x \<in> set xs \<Longrightarrow> ok x" "\<And>y. y \<in> set ys \<Longrightarrow> ok y"
    and "length xs = length ys" "concat (map enc xs) = concat (map enc ys)"
  shows "map view xs = map view ys"
  using decode_many_concat [of xs "[]"] decode_many_concat [of ys "[]"] assms by simp

end

subsection \<open>Objects driven by operations\<close>

text \<open>
  A component is an object whose operations may raise; none of the modelled operations
  changes its object before it raises, and the callers go on with the object they have.
  \<open>run_ops\<close> is such a sequence of calls; what each call keeps, the whole sequence keeps.
\<close>

definition attempt :: "('op \<Rightarrow> 's \<Rightarrow> 'e + 's) \<Rightarrow> 'op \<Rightarrow> 's \<Rightarrow> 's" where
  "attempt exec op s = (case exec op s of Inl _ \<Rightarrow> s | Inr s' \<Rightarrow> s')"

definition run_ops :: "('op \<Rightarrow> 's \<Rightarrow> 'e + 's) \<Rightarrow> 'op list \<Rightarrow> 's \<Rightarrow> 's" where
  "run_ops exec ops s = fold (attempt exec) ops s"

locale operations =
  fixes exec :: "'op \<Rightarrow> 's \<Rightarrow> 'e + 's"
    and ok :: "'op \<Rightarrow> bool"
    and inv :: "'s \<Rightarrow> bool"
  assumes exec_inv: "exec op s = Inr s' \<Longrightarrow> ok op \<Longrightarrow> inv s \<Longrightarrow> inv s'"
begin

lemma attempt_inv: "ok op \<Longrightarrow> inv s \<Longrightarrow> inv (attempt exec op s)"
  by (auto simp: attempt_def split: sum.splits intro: exec_inv)

lemma run_inv: "\<forall>op \<in> set ops. ok op \<Longrightarrow> inv s \<Longrightarrow> inv (run_ops exec ops s)"
  unfolding run_ops_def by (induction ops arbitrary: s) (auto simp: attempt_inv)

end

text \<open>Operations that moreover leave a part of the object as it is.\<close>

locale framed_operations = operations +
  fixes frame :: "'s \<Rightarrow> 'f"
  assumes exec_frame: "exec op s = Inr s' \<Longrightarrow> ok op \<Longrightarrow> inv s \<Longrightarrow> frame s' = frame s"
begin

lemma attempt_frame: "ok op \<Longrightarrow> inv s \<Longrightarrow> frame (attempt exec op s) = frame s"
  by (auto simp: attempt_def split: sum.splits intro: exec_frame)

lemma run_frame: "\<forall>op \<in> set ops. ok op \<Longrightarrow> inv s \<Longrightarrow> frame (run_ops exec ops s) = frame s"
  unfolding run_ops_def by (induction ops arbitrary: s) (auto simp: attempt_inv attempt_frame)

end

subsection \<open>Runs that end\<close>

text \<open>
  Steps that keep an invariant and lower a rank, and that are possible until the goal is reached:
  every run is short, and a run that cannot go on has reached the goal.
\<close>

locale ranked_steps =
  fixes step :: "'s \<Rightarrow> 's \<Rightarrow> bool" and inv :: "'s \<Rightarrow> bool" and rank :: "'s \<Rightarrow> nat" and goal :: "'s \<Rightarrow> bool"
  assumes step_inv: "step s s' \<Longrightarrow> inv s \<Longrightarrow> inv s'"
    and step_rank: "step s s' \<Longrightarrow> inv s \<Longrightarrow> rank s' < rank s"
    and progress: "inv s \<Longrightarrow> \<not> goal s \<Longrightarrow> \<exists>s'. step s s'"
begin

lemma run_inv: "(step ^^ k) s s' \<Longrightarrow> inv s \<Longrightarrow> inv s'"
  by (induction k arbitrary: s') (auto intro: step_inv)

lemma run_rank: "(step ^^ k) s s' \<Longrightarrow> inv s \<Longrightarrow> rank s' + k \<le> rank s"
proof (induction k arbitrary: s')
  case (Suc k)
  then obtain t where "(step ^^ k) s t" "step t s'" by auto
  with Suc step_rank [of t s'] run_inv [of k s t] show ?case by fastforce
qed simp

lemma run_ends: "(step ^^ k) s s' \<Longrightarrow> inv s \<Longrightarrow> \<not> (\<exists>t. step s' t) \<Longrightarrow> goal s'"
  using run_inv progress by blast

lemma reaches: "inv s \<Longrightarrow> \<exists>k s'. (step ^^ k) s s' \<and> goal s'"
proof (induction "rank s" arbitrary: s rule: less_induct)
  case less
  show ?case
  proof (cases "goal s")
    case True
    then show ?thesis by (intro exI [of _ 0]) auto
  next
    case False
    with progress less.prems obtain t where t: "step s t" by blast
    from less.hyps [OF step_rank [OF t less.prems] step_inv [OF t less.prems]] obtain k s' where
      "(step ^^ k) t s'" "goal s'" by blast
    with t show ?thesis using relpowp_Suc_I2 by metis
  qed
qed

end

end
