(* ===== verification/PyText.thy ===== *)
theory PyText
  imports Prelude
begin

section \<open>Python numbers and text\<close>

text \<open>
  The parts of the standard library that turn byte strings into numbers and text and back:
  \<open>int(b)\<close> on a byte string, the decimal form of an integer in an f-string, \<open>str.encode\<close>
  and \<open>bytes.decode("utf-8", errors="replace")\<close>.  Each is written out as CPython documents
  it, with its refusals: \<open>int\<close> accepts surrounding white space, a sign and single
  underscores between digits, and both directions refuse more than 4300 digits.
\<close>

subsection \<open>Decimal numbers\<close>

definition is_digit :: "byte \<Rightarrow> bool" where
  "is_digit b \<longleftrightarrow> 48 \<le> b \<and> b \<le> 57"

definition is_space :: "byte \<Rightarrow> bool" where
  "is_space b \<longleftrightarrow> b = 32 \<or> (9 \<le> b \<and> b \<le> 13)"

definition max_str_digits :: nat where
  "max_str_digits = 4300"

definition digits_value :: "bytes \<Rightarrow> int" where
  "digits_value ds = foldl (\<lambda>n b. 10 * n + (uint b - 48)) 0 ds"

fun double_underscore :: "bytes \<Rightarrow> bool" where
  "double_underscore (a # b # bs) = (a = 95 \<and> b = 95 \<or> double_underscore (b # bs))"
| "double_underscore bs = False"

text \<open>\<open>int(raw)\<close>: white space, a sign, digits with single underscores, white space.\<close>

definition py_int :: "bytes \<Rightarrow> int res" where
  "py_int raw =
     (let s = dropWhile is_space raw;
          neg = (s \<noteq> [] \<and> hd s = 45);
          s' = (if s \<noteq> [] \<and> (hd s = 43 \<or> hd s = 45) then tl s else s);
          run = takeWhile (\<lambda>b. is_digit b \<or> b = 95) s';
          rest = dropWhile (\<lambda>b. is_digit b \<or> b = 95) s';
          ds = filter is_digit run
      in if run = [] \<or> hd run = 95 \<or> last run = 95 \<or> double_underscore run
            \<or> max_str_digits < length ds \<or> \<not> list_all is_space rest
         then Inl ValueError
         else Inr (if neg then - digits_value ds else digits_value ds))"

fun dec_nat :: "nat \<Rightarrow> bytes" where
  "dec_nat n = (if n < 10 then [of_nat (48 + n)] else dec_nat (n div 10) @ [of_nat (48 + n mod 10)])"

declare dec_nat.simps [simp del]

text \<open>The decimal form of an integer, as \<open>str(i)\<close> and \<open>f"{i}"\<close> give it.\<close>

definition py_dec :: "int \<Rightarrow> bytes res" where
  "py_dec i =
     (let ds = dec_nat (nat \<bar>i\<bar>)
      in if max_str_digits < length ds then Inl ValueError
         else Inr (if i < 0 then 45 # ds else ds))"

lemma digit_byte: "k < 10 \<Longrightarrow> is_digit (of_nat (48 + k))"
  by (simp add: is_digit_def word_le_nat_alt unat_of_nat del: of_nat_add)

lemma uint_digit_byte: "k < 10 \<Longrightarrow> uint (of_nat (48 + k) :: byte) = 48 + int k"
  by (simp add: uint_nat unat_of_nat del: of_nat_add)

lemma digits_value_append_one [simp]: "digits_value (ds @ [b]) = 10 * digits_value ds + (uint b - 48)"
  by (simp add: digits_value_def)

lemma digits_value_Nil [simp]: "digits_value [] = 0"
  by (simp add: digits_value_def)

lemma dec_nat_nonempty [simp]: "dec_nat n \<noteq> []"
  by (subst dec_nat.simps) simp

lemma dec_nat_digits: "\<forall>b \<in> set (dec_nat n). is_digit b"
proof (induction n rule: dec_nat.induct)
  case (1 n)
  then show ?case
    by (subst dec_nat.simps) (auto simp: digit_byte simp del: of_nat_add)
qed

lemma digits_value_dec_nat [simp]: "digits_value (dec_nat n) = int n"
proof (induction n rule: dec_nat.induct)
  case (1 n)
  have "digits_value [of_nat (48 + n)] = int n" if "n < 10"
    using digits_value_append_one [of "[]"] uint_digit_byte [OF that] by simp
  moreover have "10 * int (n div 10) + int (n mod 10) = int n" by presburger
  ultimately show ?case
    using "1" by (subst dec_nat.simps) (simp add: uint_digit_byte del: of_nat_add)
qed

lemma hd_dec_nat: "0 < n \<Longrightarrow> hd (dec_nat n) \<noteq> 48"
proof (induction n rule: dec_nat.induct)
  case (1 n)
  have "(of_nat (48 + n) :: byte) \<noteq> 48" if "n < 10"
  proof
    assume "(of_nat (48 + n) :: byte) = 48"
    then have "uint (of_nat (48 + n) :: byte) = 48" by simp
    with "1.prems" uint_digit_byte [OF that] show False by simp
  qed
  with "1" show ?case by (subst dec_nat.simps) (simp add: hd_append del: of_nat_add)
qed

lemma dec_nat_zero [simp]: "dec_nat 0 = [48]"
  by (simp add: dec_nat.simps)

lemma dec_nat_leading: "1 < length (dec_nat n) \<Longrightarrow> hd (dec_nat n) \<noteq> 48"
  by (cases "n = 0") (auto simp: hd_dec_nat)

text \<open>How many digits: \<open>n < 10 ^ k\<close> fits into \<open>k\<close> of them, and conversely.\<close>

lemma length_dec_nat: "n < 10 ^ k \<Longrightarrow> 0 < k \<Longrightarrow> length (dec_nat n) \<le> k"
proof (induction n arbitrary: k rule: dec_nat.induct)
  case (1 n)
  show ?case
  proof (cases "n < 10")
    case True
    with "1.prems" show ?thesis by (subst dec_nat.simps) simp
  next
    case False
    with "1.prems" obtain k' where k': "k = Suc k'" "0 < k'"
      by (cases k) (auto, metis One_nat_def less_nat_zero_code not_gr_zero power_0 nat_mult_1_right)
    with "1.prems" have "n div 10 < 10 ^ k'" by (simp add: less_mult_imp_div_less mult.commute)
    with "1.IH" [OF False this k'(2)] False k' show ?thesis
      by (subst dec_nat.simps) simp
  qed
qed

lemma digits_bound:
  "(\<And>b. b \<in> set ds \<Longrightarrow> is_digit b) \<Longrightarrow> 0 \<le> digits_value ds \<and> digits_value ds < 10 ^ length ds"
proof (induction ds rule: rev_induct)
  case Nil
  then show ?case by simp
next
  case (snoc b ds)
  then have "48 \<le> uint b" "uint b \<le> 57"
    by (auto simp: is_digit_def word_le_def)
  with snoc show ?case by auto
qed

lemma double_underscore_digits: "\<forall>b \<in> set ds. is_digit b \<Longrightarrow> \<not> double_underscore ds"
  by (induction ds rule: double_underscore.induct) (auto simp: is_digit_def)

lemma digit_not_special:
  "is_digit b \<Longrightarrow> \<not> is_space b \<and> b \<noteq> 43 \<and> b \<noteq> 45 \<and> b \<noteq> 95 \<and> b \<noteq> 101 \<and> b \<noteq> 58"
  by (auto simp: is_digit_def is_space_def word_le_nat_alt unat_arith_simps)

text \<open>Plain digits, with or without a minus sign, are read as written.\<close>

lemma py_int_digits:
  assumes "ds \<noteq> []" "\<forall>b \<in> set ds. is_digit b" "length ds \<le> max_str_digits"
  shows "py_int ds = Inr (digits_value ds)" "py_int (45 # ds) = Inr (- digits_value ds)"
proof -
  obtain a as where ds: "ds = a # as" using assms(1) by (cases ds) auto
  have a: "is_digit a" using assms(2) ds by simp
  have drop: "dropWhile is_space ds = ds" using digit_not_special [OF a] ds by simp
  have run: "takeWhile (\<lambda>b. is_digit b \<or> b = 95) ds = ds" "dropWhile (\<lambda>b. is_digit b \<or> b = 95) ds = []"
    using assms(2) by simp_all
  have filt: "filter is_digit ds = ds" using assms(2) by simp
  have lst: "last ds \<noteq> 95" "hd ds \<noteq> 95" "hd ds \<noteq> 43" "hd ds \<noteq> 45"
    using assms(1,2) digit_not_special [of "last ds"] digit_not_special [of "hd ds"] by simp_all
  have du: "\<not> double_underscore ds" using assms(2) by (rule double_underscore_digits)
  show "py_int ds = Inr (digits_value ds)"
    using assms lst du by (simp add: py_int_def drop run filt Let_def)
  have "\<not> is_space 45" by (simp add: is_space_def)
  then show "py_int (45 # ds) = Inr (- digits_value ds)"
    using assms lst du by (simp add: py_int_def run filt Let_def)
qed

lemma py_int_dec: "py_dec i = Inr ds \<Longrightarrow> py_int ds = Inr i"
  using py_int_digits [of "dec_nat (nat \<bar>i\<bar>)"] dec_nat_digits [of "nat \<bar>i\<bar>"]
  by (auto simp: py_dec_def Let_def split: if_splits)

lemma py_dec_total: "\<bar>i\<bar> < 10 ^ max_str_digits \<Longrightarrow> \<exists>ds. py_dec i = Inr ds"
proof -
  assume "\<bar>i\<bar> < 10 ^ max_str_digits"
  then have "nat \<bar>i\<bar> < 10 ^ max_str_digits" by (simp add: nat_less_iff)
  then have "length (dec_nat (nat \<bar>i\<bar>)) \<le> max_str_digits"
    by (rule length_dec_nat) (simp add: max_str_digits_def)
  then show ?thesis by (simp add: py_dec_def Let_def)
qed

text \<open>Whatever \<open>int(raw)\<close> accepts is a run of at most 4300 digits, so it can be written back.\<close>

lemma py_int_value:
  assumes "py_int raw = Inr i"
  shows "\<exists>ds. (\<forall>b \<in> set ds. is_digit b) \<and> length ds \<le> max_str_digits \<and>
    (i = digits_value ds \<or> hd (dropWhile is_space raw) = 45 \<and> i = - digits_value ds)"
proof -
  let ?s = "dropWhile is_space raw"
  let ?s' = "if ?s \<noteq> [] \<and> (hd ?s = 43 \<or> hd ?s = 45) then tl ?s else ?s"
  let ?ds = "filter is_digit (takeWhile (\<lambda>b. is_digit b \<or> b = 95) ?s')"
  have "length ?ds \<le> max_str_digits"
    and "i = digits_value ?ds \<or> hd ?s = 45 \<and> i = - digits_value ?ds"
    using assms unfolding py_int_def Let_def by (simp_all only: if_Inl_eq_Inr) (auto split: if_splits)
  then show ?thesis by (intro exI [of _ ?ds]) simp
qed

lemma py_int_bound: "py_int raw = Inr i \<Longrightarrow> \<bar>i\<bar> < 10 ^ max_str_digits"
proof -
  assume "py_int raw = Inr i"
  from py_int_value [OF this] obtain ds where ds: "\<bar>i\<bar> = \<bar>digits_value ds\<bar>"
      "length ds \<le> max_str_digits" "\<And>b. b \<in> set ds \<Longrightarrow> is_digit b"
    by auto
  from digits_bound [OF ds(3)] have "\<bar>i\<bar> < 10 ^ length ds" using ds(1) by simp
  also have "(10::int) ^ length ds \<le> 10 ^ max_str_digits"
    by (rule power_increasing [OF ds(2)]) simp
  finally show ?thesis .
qed

lemma py_int_first_digit:
  assumes "py_int raw = Inr i" "raw \<noteq> []" "is_digit (hd raw)"
  shows "0 \<le> i"
proof -
  have "dropWhile is_space raw = raw" "hd raw \<noteq> 45"
    using assms(2,3) digit_not_special [of "hd raw"] by (cases raw; auto)+
  with py_int_value [OF assms(1)] digits_bound show ?thesis by auto
qed

end
