(* ===== verification/PyUnicode.thy ===== *)
theory PyUnicode
  imports PyText
begin

section \<open>UTF-8\<close>

text \<open>
  \<open>str.encode("utf-8")\<close> and \<open>bytes.decode("utf-8", errors="replace")\<close>.  The encoder refuses
  surrogates (UnicodeEncodeError).  The decoder never fails: each maximal ill-formed prefix
  of a sequence becomes one U+FFFD, as CPython and the Unicode standard have it.
\<close>

definition surrogate :: "nat \<Rightarrow> bool" where
  "surrogate c \<longleftrightarrow> 55296 \<le> c \<and> c \<le> 57343"

definition scalar :: "nat \<Rightarrow> bool" where
  "scalar c \<longleftrightarrow> c < 1114112 \<and> \<not> surrogate c"

definition utf8_encode_char :: "nat \<Rightarrow> bytes res" where
  "utf8_encode_char c =
     (if \<not> scalar c then Inl UnicodeEncodeError
      else if c < 128 then Inr [of_nat c]
      else if c < 2048 then Inr [of_nat (192 + c div 64), of_nat (128 + c mod 64)]
      else if c < 65536 then
        Inr [of_nat (224 + c div 4096), of_nat (128 + c div 64 mod 64), of_nat (128 + c mod 64)]
      else Inr [of_nat (240 + c div 262144), of_nat (128 + c div 4096 mod 64),
                of_nat (128 + c div 64 mod 64), of_nat (128 + c mod 64)])"

definition utf8_encode :: "ustr \<Rightarrow> bytes res" where
  "utf8_encode s = bindR (mapR utf8_encode_char s) (\<lambda>bss. Inr (concat bss))"

text \<open>Continuation bytes, and the narrower ranges of the second byte after E0, ED, F0, F4.\<close>

definition cont :: "byte \<Rightarrow> bool" where
  "cont b \<longleftrightarrow> 128 \<le> unat b \<and> unat b < 192"

definition second3 :: "byte \<Rightarrow> byte \<Rightarrow> bool" where
  "second3 b0 b1 \<longleftrightarrow> cont b1 \<and> (unat b0 = 224 \<longrightarrow> 160 \<le> unat b1) \<and> (unat b0 = 237 \<longrightarrow> unat b1 < 160)"

definition second4 :: "byte \<Rightarrow> byte \<Rightarrow> bool" where
  "second4 b0 b1 \<longleftrightarrow> cont b1 \<and> (unat b0 = 240 \<longrightarrow> 144 \<le> unat b1) \<and> (unat b0 = 244 \<longrightarrow> unat b1 < 144)"

definition cpt :: "byte \<Rightarrow> nat" where
  "cpt b = unat b - 128"

text \<open>One character, or one replacement, and how many bytes it took.\<close>

definition utf8_next :: "byte \<Rightarrow> bytes \<Rightarrow> nat \<times> nat" where
  "utf8_next b0 bs =
     (let n = unat b0 in
      if n < 128 then (n, 1)
      else if 194 \<le> n \<and> n < 224 then
        (case bs of b1 # _ \<Rightarrow> if cont b1 then ((n - 192) * 64 + cpt b1, 2) else (65533, 1)
         | [] \<Rightarrow> (65533, 1))
      else if 224 \<le> n \<and> n < 240 then
        (case bs of b1 # bs1 \<Rightarrow>
           if second3 b0 b1 then
             (case bs1 of b2 # _ \<Rightarrow>
                if cont b2 then ((n - 224) * 4096 + cpt b1 * 64 + cpt b2, 3) else (65533, 2)
              | [] \<Rightarrow> (65533, 2))
           else (65533, 1)
         | [] \<Rightarrow> (65533, 1))
      else if 240 \<le> n \<and> n < 245 then
        (case bs of b1 # bs1 \<Rightarrow>
           if second4 b0 b1 then
             (case bs1 of b2 # bs2 \<Rightarrow>
                if cont b2 then
                  (case bs2 of b3 # _ \<Rightarrow>
                     if cont b3
                     then ((n - 240) * 262144 + cpt b1 * 4096 + cpt b2 * 64 + cpt b3, 4)
                     else (65533, 3)
                   | [] \<Rightarrow> (65533, 3))
                else (65533, 2)
              | [] \<Rightarrow> (65533, 2))
           else (65533, 1)
         | [] \<Rightarrow> (65533, 1))
      else (65533, 1))"

function utf8_decode :: "bytes \<Rightarrow> ustr" where
  "utf8_decode [] = []"
| "utf8_decode (b # bs) = (let (c, n) = utf8_next b bs in c # utf8_decode (drop (n - 1) bs))"
  by pat_completeness auto
termination
  by (relation "measure length") auto

declare utf8_decode.simps(2) [simp del]

lemma unat_byte: "n < 256 \<Longrightarrow> unat (of_nat n :: byte) = n"
  by (simp add: unat_of_nat)

lemma split64: "64 * (c div 64) + c mod 64 = (c::nat)"
  by simp

lemma div64: "c div 64 div 64 = c div 4096" "c div 4096 div 64 = c div (262144::nat)"
  by (simp_all flip: div_mult2_eq)

lemma utf8_next2:
  assumes "2 \<le> a" "a < 32" "z < 64"
  shows "utf8_next (of_nat (192 + a)) (of_nat (128 + z) # rest) = (a * 64 + z, 2)"
proof -
  have "unat (of_nat (192 + a) :: byte) = 192 + a" "unat (of_nat (128 + z) :: byte) = 128 + z"
    using assms by (simp_all add: unat_byte del: of_nat_add)
  with assms show ?thesis by (simp add: utf8_next_def Let_def cont_def cpt_def del: of_nat_add)
qed

lemma utf8_next3:
  assumes r: "a < 16" "y < 64" "z < 64" and s: "a = 0 \<longrightarrow> 32 \<le> y" "a = 13 \<longrightarrow> y < 32"
  shows "utf8_next (of_nat (224 + a)) (of_nat (128 + y) # of_nat (128 + z) # rest)
    = (a * 4096 + y * 64 + z, 3)"
proof -
  have u: "unat (of_nat (224 + a) :: byte) = 224 + a" "unat (of_nat (128 + y) :: byte) = 128 + y"
    "unat (of_nat (128 + z) :: byte) = 128 + z"
    using r by (simp_all add: unat_byte del: of_nat_add)
  show ?thesis
    using r s by (simp add: utf8_next_def Let_def u cont_def second3_def cpt_def del: of_nat_add)
qed

lemma utf8_next4:
  assumes r: "a < 5" "x < 64" "y < 64" "z < 64" and s: "a = 0 \<longrightarrow> 16 \<le> x" "a = 4 \<longrightarrow> x < 16"
  shows "utf8_next (of_nat (240 + a)) (of_nat (128 + x) # of_nat (128 + y) # of_nat (128 + z) # rest)
    = (a * 262144 + x * 4096 + y * 64 + z, 4)"
proof -
  have u: "unat (of_nat (240 + a) :: byte) = 240 + a" "unat (of_nat (128 + x) :: byte) = 128 + x"
    "unat (of_nat (128 + y) :: byte) = 128 + y" "unat (of_nat (128 + z) :: byte) = 128 + z"
    using r by (simp_all add: unat_byte del: of_nat_add)
  show ?thesis
    using r s by (simp add: utf8_next_def Let_def u cont_def second4_def cpt_def del: of_nat_add)
qed

lemma utf8_next_encoded:
  assumes "utf8_encode_char c = Inr (b # bs)"
  shows "utf8_next b (bs @ rest) = (c, Suc (length bs))"
proof -
  from assms have c: "c < 1114112" "c < 55296 \<or> 57343 < c" and sc: "scalar c"
    by (auto simp: utf8_encode_char_def scalar_def surrogate_def split: if_splits)
  consider "c < 128" | "128 \<le> c" "c < 2048" | "2048 \<le> c" "c < 65536" | "65536 \<le> c"
    by linarith
  then show ?thesis
  proof cases
    case 1
    with assms sc show ?thesis
      by (auto simp: utf8_encode_char_def utf8_next_def Let_def unat_byte)
  next
    case 2
    let ?a = "c div 64" and ?z = "c mod 64"
    have r: "?a < 32" "2 \<le> ?a" "?z < 64" using 2 by auto
    have e: "?a * 64 + ?z = c" using split64 [of c] by linarith
    have b: "b = of_nat (192 + ?a)" "bs = [of_nat (128 + ?z)]"
      using 2 assms sc by (simp_all add: utf8_encode_char_def del: of_nat_add)
    show ?thesis unfolding b using utf8_next2 [OF r(2,1,3), of rest] e by simp
  next
    case 3
    let ?a = "c div 4096" and ?y = "c div 64 mod 64" and ?z = "c mod 64"
    have r: "?a < 16" "?y < 64" "?z < 64" using 3 by auto
    have e: "?a * 4096 + ?y * 64 + ?z = c"
      using split64 [of c] split64 [of "c div 64"] unfolding div64 by linarith
    have s: "?a = 0 \<longrightarrow> 32 \<le> ?y" "?a = 13 \<longrightarrow> ?y < 32" using 3 c e r by linarith+
    have b: "b = of_nat (224 + ?a)" "bs = [of_nat (128 + ?y), of_nat (128 + ?z)]"
      using 3 assms sc by (simp_all add: utf8_encode_char_def del: of_nat_add)
    show ?thesis unfolding b using utf8_next3 [OF r s, of rest] e by simp
  next
    case 4
    let ?a = "c div 262144" and ?x = "c div 4096 mod 64" and ?y = "c div 64 mod 64" and ?z = "c mod 64"
    have r: "?a < 5" "?x < 64" "?y < 64" "?z < 64" using c by auto
    have e: "?a * 262144 + ?x * 4096 + ?y * 64 + ?z = c"
      using split64 [of c] split64 [of "c div 64"] split64 [of "c div 4096"] unfolding div64 by linarith
    have s: "?a = 0 \<longrightarrow> 16 \<le> ?x" "?a = 4 \<longrightarrow> ?x < 16" using 4 c e r by linarith+
    have b: "b = of_nat (240 + ?a)" "bs = [of_nat (128 + ?x), of_nat (128 + ?y), of_nat (128 + ?z)]"
      using 4 assms sc by (simp_all add: utf8_encode_char_def del: of_nat_add)
    show ?thesis unfolding b using utf8_next4 [OF r s, of rest] e by simp
  qed
qed

lemma utf8_encode_char_nonempty: "utf8_encode_char c = Inr bs \<Longrightarrow> bs \<noteq> []"
  by (auto simp: utf8_encode_char_def split: if_splits)

lemma utf8_encode_Cons:
  "utf8_encode (c # s) = bindR (utf8_encode_char c) (\<lambda>b. bindR (utf8_encode s) (\<lambda>bs. Inr (b @ bs)))"
  by (simp add: utf8_encode_def bindR_assoc)

lemma utf8_decode_encode: "utf8_encode s = Inr bs \<Longrightarrow> utf8_decode (bs @ rest) = s @ utf8_decode rest"
proof (induction s arbitrary: bs)
  case Nil
  then show ?case by (simp add: utf8_encode_def)
next
  case (Cons c s)
  then obtain u us where u: "utf8_encode_char c = Inr u" and us: "utf8_encode s = Inr us" and bs: "bs = u @ us"
    by (auto simp: utf8_encode_Cons res_simps)
  obtain b v where v: "u = b # v" using utf8_encode_char_nonempty [OF u] by (cases u) auto
  from utf8_next_encoded [of c b v "us @ rest"] u v
  have "utf8_decode (bs @ rest) = c # utf8_decode (us @ rest)"
    by (simp add: bs utf8_decode.simps(2))
  with Cons.IH [OF us] show ?case by simp
qed

lemma utf8_encode_scalar: "(\<forall>c \<in> set s. scalar c) \<longleftrightarrow> (\<exists>bs. utf8_encode s = Inr bs)"
  by (induction s) (auto simp: utf8_encode_def utf8_encode_char_def res_simps list_all2_Cons1 split: if_splits)

lemma utf8_encode_ascii: "\<forall>c \<in> set s. c < 128 \<Longrightarrow> utf8_encode s = Inr (map of_nat s)"
  by (induction s)
    (auto simp: utf8_encode_def utf8_encode_char_def scalar_def surrogate_def res_simps)

lemma utf8_encode_ucs:
  "\<forall>c \<in> set s. of_char c < (128::nat) \<Longrightarrow> utf8_encode (ucs s) = Inr (ascii s)"
  by (simp add: utf8_encode_ascii ucs_def ascii_def of_nat_of_char)

lemma utf8_ascii: "\<forall>b \<in> set bs. unat b < 128 \<Longrightarrow> utf8_decode bs = map unat bs"
  by (induction bs) (auto simp: utf8_decode.simps(2) utf8_next_def Let_def)

end
