(* ===== verification/PyValue.thy ===== *)
theory PyValue
  imports PyUnicode
begin

section \<open>Python values\<close>

text \<open>
  The objects the bencoding talks about.  \<open>PyBytes\<close> stands for bytes and bytearray and
  \<open>PyList\<close> for list and tuple, which the client never tells apart; \<open>PyOther\<close> and \<open>KOther\<close>
  are values and dictionary keys of any other type.  A dictionary is the list of its items
  in insertion order.
\<close>

datatype pykey = KBytes bytes | KStr ustr | KOther

datatype pyval =
    PyInt int
  | PyBool bool
  | PyNone
  | PyBytes bytes
  | PyStr ustr
  | PyList "pyval list"
  | PyDict "(pykey \<times> pyval) list"
  | PyOther

text \<open>The values the decoder makes, with dictionaries that have no key twice.\<close>

fun decoded :: "pyval \<Rightarrow> bool" where
  "decoded (PyInt i) = True"
| "decoded (PyBytes b) = True"
| "decoded (PyList xs) = (\<forall>x \<in> set xs. decoded x)"
| "decoded (PyDict kvs) = (distinct (map fst kvs) \<and> (\<forall>(k, v) \<in> set kvs. (\<exists>b. k = KBytes b) \<and> decoded v))"
| "decoded _ = False"

subsection \<open>Case distinctions on values\<close>

lemma case_pyval_Inr_iff [res_simps]:
  "(case v of PyInt i \<Rightarrow> f1 i | PyBool b \<Rightarrow> f2 b | PyNone \<Rightarrow> f3 | PyBytes b \<Rightarrow> f4 b | PyStr s \<Rightarrow> f5 s
     | PyList xs \<Rightarrow> f6 xs | PyDict d \<Rightarrow> f7 d | PyOther \<Rightarrow> f8) = Inr y \<longleftrightarrow>
   (\<exists>i. v = PyInt i \<and> f1 i = Inr y) \<or> (\<exists>b. v = PyBool b \<and> f2 b = Inr y) \<or> v = PyNone \<and> f3 = Inr y \<or>
   (\<exists>b. v = PyBytes b \<and> f4 b = Inr y) \<or> (\<exists>s. v = PyStr s \<and> f5 s = Inr y) \<or>
   (\<exists>xs. v = PyList xs \<and> f6 xs = Inr y) \<or> (\<exists>d. v = PyDict d \<and> f7 d = Inr y) \<or> v = PyOther \<and> f8 = Inr y"
  by (cases v) auto

lemma case_pyval_Inl_iff:
  "(case v of PyInt i \<Rightarrow> f1 i | PyBool b \<Rightarrow> f2 b | PyNone \<Rightarrow> f3 | PyBytes b \<Rightarrow> f4 b | PyStr s \<Rightarrow> f5 s
     | PyList xs \<Rightarrow> f6 xs | PyDict d \<Rightarrow> f7 d | PyOther \<Rightarrow> f8) = Inl e \<longleftrightarrow>
   (\<exists>i. v = PyInt i \<and> f1 i = Inl e) \<or> (\<exists>b. v = PyBool b \<and> f2 b = Inl e) \<or> v = PyNone \<and> f3 = Inl e \<or>
   (\<exists>b. v = PyBytes b \<and> f4 b = Inl e) \<or> (\<exists>s. v = PyStr s \<and> f5 s = Inl e) \<or>
   (\<exists>xs. v = PyList xs \<and> f6 xs = Inl e) \<or> (\<exists>d. v = PyDict d \<and> f7 d = Inl e) \<or> v = PyOther \<and> f8 = Inl e"
  by (cases v) auto

lemma if_Inl_iff: "(if b then m else r) = Inl e \<longleftrightarrow> b \<and> m = Inl e \<or> \<not> b \<and> r = Inl e"
  by simp

subsection \<open>Truth, lookup and text\<close>

fun truthy :: "pyval \<Rightarrow> bool" where
  "truthy (PyInt i) \<longleftrightarrow> i \<noteq> 0"
| "truthy (PyBool b) \<longleftrightarrow> b"
| "truthy PyNone \<longleftrightarrow> False"
| "truthy (PyBytes b) \<longleftrightarrow> b \<noteq> []"
| "truthy (PyStr s) \<longleftrightarrow> s \<noteq> []"
| "truthy (PyList xs) \<longleftrightarrow> xs \<noteq> []"
| "truthy (PyDict kvs) \<longleftrightarrow> kvs \<noteq> []"
| "truthy PyOther \<longleftrightarrow> True"

text \<open>\<open>d.get(k)\<close>, which is None for a key that is absent, and \<open>a or b\<close>.\<close>

definition py_lookup :: "(pykey \<times> pyval) list \<Rightarrow> pykey \<Rightarrow> pyval" where
  "py_lookup d k = (case dict_get d k of None \<Rightarrow> PyNone | Some v \<Rightarrow> v)"

definition py_or :: "pyval \<Rightarrow> pyval \<Rightarrow> pyval" where
  "py_or a b = (if truthy a then a else b)"

text \<open>The lookup idiom of the parsers, \<open>d.get(key.encode()) or d.get(key)\<close>, for an ASCII key.\<close>

definition get_either :: "(pykey \<times> pyval) list \<Rightarrow> string \<Rightarrow> pyval" where
  "get_either d key = py_or (py_lookup d (KBytes (ascii key))) (py_lookup d (KStr (ucs key)))"

fun join_with :: "'a list \<Rightarrow> 'a list list \<Rightarrow> 'a list" where
  "join_with sep [] = []"
| "join_with sep [x] = x"
| "join_with sep (x # y # zs) = x @ sep @ join_with sep (y # zs)"

text \<open>\<open>repr\<close> of a byte string.\<close>

definition hex_digit :: "nat \<Rightarrow> nat" where
  "hex_digit n = (if n < 10 then 48 + n else 87 + n)"

definition byte_repr :: "nat \<Rightarrow> byte \<Rightarrow> ustr" where
  "byte_repr quote b =
     (let n = unat b in
      if n = quote \<or> n = 92 then [92, n]
      else if n = 9 then ucs [CHR 0x5C, CHR ''t'']
      else if n = 10 then ucs [CHR 0x5C, CHR ''n'']
      else if n = 13 then ucs [CHR 0x5C, CHR ''r'']
      else if n < 32 \<or> 127 \<le> n then ucs [CHR 0x5C, CHR ''x''] @ [hex_digit (n div 16), hex_digit (n mod 16)]
      else [n])"

definition bytes_repr :: "bytes \<Rightarrow> ustr" where
  "bytes_repr b =
     (let quote = (if 39 \<in> set b \<and> 34 \<notin> set b then 34 else 39)
      in ucs ''b'' @ [quote] @ concat (map (byte_repr quote) b) @ [quote])"

text \<open>
  \<open>repr\<close> and \<open>str\<close> of what the decoder makes: integers, byte strings, lists and dictionaries.
  The decoder makes no text and no other objects (\<open>decoded\<close>), whose \<open>repr\<close> is left out.
\<close>

definition key_repr :: "pykey \<Rightarrow> ustr res" where
  "key_repr k = (case k of KBytes b \<Rightarrow> Inr (bytes_repr b) | _ \<Rightarrow> Inl TypeError)"

primrec py_repr :: "pyval \<Rightarrow> ustr res" where
  "py_repr (PyInt i) = bindR (py_dec i) (\<lambda>ds. Inr (map unat ds))"
| "py_repr (PyBool b) = Inr (ucs (if b then ''True'' else ''False''))"
| "py_repr PyNone = Inr (ucs ''None'')"
| "py_repr (PyBytes b) = Inr (bytes_repr b)"
| "py_repr (PyStr s) = Inl TypeError"
| "py_repr (PyList xs) =
     bindR (mapR (\<lambda>r. r) (map py_repr xs)) (\<lambda>ps. Inr (ucs ''['' @ join_with (ucs '', '') ps @ ucs '']''))"
| "py_repr (PyDict kvs) =
     bindR (mapR (\<lambda>(k, r). bindR (key_repr k) (\<lambda>k'. bindR r (\<lambda>v. Inr (k' @ ucs '': '' @ v))))
              (map (map_prod (\<lambda>k. k) py_repr) kvs))
       (\<lambda>ps. Inr (ucs ''{'' @ join_with (ucs '', '') ps @ ucs ''}''))"
| "py_repr PyOther = Inl TypeError"

definition py_str :: "pyval \<Rightarrow> ustr res" where
  "py_str v = (case v of PyStr s \<Rightarrow> Inr s | _ \<Rightarrow> py_repr v)"

text \<open>\<open>v.decode("utf-8", errors="replace") if isinstance(v, (bytes, bytearray)) else str(v)\<close>.\<close>

definition as_text :: "pyval \<Rightarrow> ustr res" where
  "as_text v = (case v of PyBytes b \<Rightarrow> Inr (utf8_decode b) | _ \<Rightarrow> py_str v)"

text \<open>Everything \<open>repr\<close> writes here is ASCII, so it can be encoded again.\<close>

definition ascii_text :: "ustr \<Rightarrow> bool" where
  "ascii_text s \<longleftrightarrow> (\<forall>c \<in> set s. c < 128)"

lemma ascii_text_simps [simp]:
  "ascii_text []" "ascii_text (c # s) \<longleftrightarrow> c < 128 \<and> ascii_text s"
  "ascii_text (s @ t) \<longleftrightarrow> ascii_text s \<and> ascii_text t"
  "ascii_text (concat ss) \<longleftrightarrow> (\<forall>s \<in> set ss. ascii_text s)"
  by (auto simp: ascii_text_def)

lemma ascii_text_join: "ascii_text sep \<Longrightarrow> \<forall>s \<in> set ss. ascii_text s \<Longrightarrow> ascii_text (join_with sep ss)"
  by (induction sep ss rule: join_with.induct) auto

lemma ascii_text_bytes_repr: "ascii_text (bytes_repr b)"
proof -
  have "unat (c :: byte) < 2 ^ LENGTH(8)" for c by (rule unsigned_less)
  then have "unat (c :: byte) div 16 < 16" for c by (simp add: less_mult_imp_div_less)
  then have "hex_digit (unat (c :: byte) div 16) < 128" "hex_digit (unat c mod 16) < 128" for c
    using less_trans [of "unat c div 16" 16 41] by (auto simp: hex_digit_def)
  then have "ascii_text (byte_repr q c)" if "q < 128" for q c
    using that by (auto simp: byte_repr_def Let_def)
  then show ?thesis by (auto simp: bytes_repr_def Let_def)
qed

lemma ascii_text_dec: "py_dec i = Inr ds \<Longrightarrow> ascii_text (map unat ds)"
  using dec_nat_digits [of "nat \<bar>i\<bar>"]
  by (fastforce simp: py_dec_def Let_def ascii_text_def is_digit_def word_le_nat_alt split: if_splits)

lemma mapR_Inl: "mapR f xs = Inl e \<Longrightarrow> \<exists>x \<in> set xs. f x = Inl e"
  by (induction xs) (auto simp: bindR_Inl_iff)

lemma mapR_mem: "mapR f xs = Inr ys \<Longrightarrow> y \<in> set ys \<Longrightarrow> \<exists>x \<in> set xs. f x = Inr y"
  by (induction xs arbitrary: ys) (auto simp: bindR_Inr_iff)

lemma ascii_text_repr: "py_repr v = Inr s \<Longrightarrow> ascii_text s"
proof (induction v arbitrary: s)
  case (PyList xs)
  from PyList.prems obtain ps where ps: "mapR (\<lambda>r. r) (map py_repr xs) = Inr ps"
      and s: "s = ucs ''['' @ join_with (ucs '', '') ps @ ucs '']''" by (auto simp: bindR_Inr_iff)
  have "ascii_text p" if "p \<in> set ps" for p using mapR_mem [OF ps that] PyList.IH by auto
  with s show ?case by (simp add: ascii_text_join)
next
  case (PyDict kvs)
  let ?f = "\<lambda>(k, r). bindR (key_repr k) (\<lambda>k'. bindR r (\<lambda>v. Inr (k' @ ucs '': '' @ v)))"
  from PyDict.prems obtain ps where ps: "mapR ?f (map (map_prod (\<lambda>k. k) py_repr) kvs) = Inr ps"
      and s: "s = ucs ''{'' @ join_with (ucs '', '') ps @ ucs ''}''" by (auto simp: bindR_Inr_iff)
  have "ascii_text p" if "p \<in> set ps" for p
  proof -
    from mapR_mem [OF ps that] obtain k v k' t where "(k, v) \<in> set kvs" "key_repr k = Inr k'" "py_repr v = Inr t"
        "p = k' @ ucs '': '' @ t" by (auto simp: bindR_Inr_iff)
    with PyDict.IH [of "(k, v)" v t] show ?thesis
      by (auto simp: key_repr_def ascii_text_bytes_repr split: pykey.splits)
  qed
  with s show ?case by (simp add: ascii_text_join)
qed (auto simp: res_simps ascii_text_dec ascii_text_bytes_repr)

end
