(* ===== verification/Bencode.thy ===== *)
theory Bencode
  imports PyValue "HOL-Library.Multiset"
begin

section \<open>The bencoding (client/modules/bencode.py)\<close>

text \<open>
  \<open>BencodeDecoder\<close> is a byte string and an index; every parse method takes both and gives
  back a value and the new index.  The mutually recursive methods are total functions: their
  recursion ends because the index moves forward in every successful parse.  \<open>BencodeEncoder\<close>
  is a function on Python values.  The theorems: what the encoder writes the decoder reads
  back, whatever follows it; what the decoder accepts can be encoded again.
\<close>

subsection \<open>The decoder\<close>

record decoder =
  dec_data :: bytes
  dec_index :: nat

abbreviation decode_error :: "string \<Rightarrow> 'a res" where
  "decode_error m \<equiv> Inl (BencodeDecodeError m)"

definition peek :: "bytes \<Rightarrow> nat \<Rightarrow> byte res" where
  "peek d i = (if length d \<le> i then decode_error ''Unexpected EOF'' else Inr (d ! i))"

definition read_until :: "bytes \<Rightarrow> nat \<Rightarrow> bytes \<Rightarrow> (bytes \<times> nat) res" where
  "read_until d start delim =
     (case find_from delim d start of
        None \<Rightarrow> decode_error ''Delimiter not found''
      | Some pos \<Rightarrow> Inr (slice start pos d, pos + length delim))"

definition starts_with :: "bytes \<Rightarrow> bytes \<Rightarrow> bool" where
  "starts_with raw p \<longleftrightarrow> take (length p) raw = p"

definition parse_int :: "bytes \<Rightarrow> nat \<Rightarrow> (pyval \<times> nat) res" where
  "parse_int d i =
     bindR (read_until d (Suc i) (ascii ''e'')) (\<lambda>(raw, j).
       if raw = [] then decode_error ''Empty integer value''
       else if raw = ascii ''-0'' then decode_error ''Negative zero''
       else if 1 < length raw \<and> starts_with raw (ascii ''0'') then decode_error ''Leading zeros''
       else if 2 < length raw \<and> starts_with raw (ascii ''-0'') then decode_error ''Leading zeros after sign''
       else (case py_int raw of
               Inl e \<Rightarrow> decode_error ''Invalid integer format''
             | Inr n \<Rightarrow> Inr (PyInt n, j)))"

definition parse_string :: "bytes \<Rightarrow> nat \<Rightarrow> (bytes \<times> nat) res" where
  "parse_string d i =
     bindR (read_until d i (ascii '':'')) (\<lambda>(raw_len, j).
       if 1 < length raw_len \<and> starts_with raw_len (ascii ''0'')
       then decode_error ''Leading zeros in string length prefix''
       else (case py_int raw_len of
               Inl e \<Rightarrow> decode_error ''Invalid string length prefix''
             | Inr n \<Rightarrow>
                 if n < 0 then decode_error ''Negative string length''
                 else if int (length d) < int j + n then decode_error ''String exceeds remaining data''
                 else Inr (slice j (j + nat n) d, j + nat n)))"

text \<open>
  The dictionary loop compares each key with the one before it and then does nothing
  (\<open>pass\<close>), so the previous key is not part of the state.  A key that comes again replaces
  the value and keeps the place of the first.
\<close>

function parse_next :: "bytes \<Rightarrow> nat \<Rightarrow> (pyval \<times> nat) res"
  and parse_list :: "bytes \<Rightarrow> nat \<Rightarrow> pyval list \<Rightarrow> (pyval \<times> nat) res"
  and parse_dict :: "bytes \<Rightarrow> nat \<Rightarrow> (pykey \<times> pyval) list \<Rightarrow> (pyval \<times> nat) res"
  where
  "parse_next d i =
     (case peek d i of
        Inl e \<Rightarrow> Inl e
      | Inr b \<Rightarrow>
          if b = of_char (CHR ''i'') then parse_int d i
          else if b = of_char (CHR ''l'') then parse_list d (Suc i) []
          else if b = of_char (CHR ''d'') then parse_dict d (Suc i) []
          else if is_digit b then
            (case parse_string d i of Inl e \<Rightarrow> Inl e | Inr (s, j) \<Rightarrow> Inr (PyBytes s, j))
          else decode_error ''Invalid bencode token'')"
| "parse_list d i items =
     (case peek d i of
        Inl e \<Rightarrow> Inl e
      | Inr b \<Rightarrow>
          if b = of_char (CHR ''e'') then Inr (PyList items, Suc i)
          else (case parse_next d i of
                  Inl e \<Rightarrow> Inl e
                | Inr (v, j) \<Rightarrow> parse_list d j (items @ [v])))"
| "parse_dict d i result =
     (case peek d i of
        Inl e \<Rightarrow> Inl e
      | Inr b \<Rightarrow>
          if b = of_char (CHR ''e'') then Inr (PyDict result, Suc i)
          else if \<not> is_digit b then decode_error ''Dictionary keys must be byte strings''
          else (case parse_string d i of
                  Inl e \<Rightarrow> Inl e
                | Inr (key, j) \<Rightarrow>
                    (case parse_next d j of
                       Inl e \<Rightarrow> Inl e
                     | Inr (v, k) \<Rightarrow> parse_dict d k (dict_set (KBytes key) v result))))"
  by pat_completeness auto

lemma peek_Inr [res_simps]: "peek d i = Inr b \<longleftrightarrow> i < length d \<and> b = d ! i"
  by (auto simp: peek_def)

lemma read_until_Inr:
  assumes "read_until d i delim = Inr (raw, j)"
  shows "i + length raw + length delim = j \<and> j \<le> length d \<and> raw = slice i (j - length delim) d"
  using assms find_from_Some [of delim d i]
  by (auto simp: read_until_def split: option.splits)

lemma parse_int_progress: "parse_int d i = Inr (v, j) \<Longrightarrow> i < j \<and> j \<le> length d"
  by (auto simp: parse_int_def res_simps split: if_splits dest!: read_until_Inr)

lemma parse_string_progress: "parse_string d i = Inr (s, j) \<Longrightarrow> i < j \<and> j \<le> length d"
  by (auto simp: parse_string_def res_simps split: if_splits dest!: read_until_Inr)

text \<open>How the two loops come to a value: they end at an \<open>e\<close>, or read one item and go on.\<close>

lemma parse_list_Inr:
  assumes "parse_next_parse_list_parse_dict_dom (Inr (Inl (d, i, items)))" "parse_list d i items = Inr (v, j)"
  obtains (stop) "i < length d" "v = PyList items" "j = Suc i"
  | (item) w k where "peek d i = Inr (d ! i)" "d ! i \<noteq> of_char (CHR ''e'')" "parse_next d i = Inr (w, k)"
      "parse_list d k (items @ [w]) = Inr (v, j)"
  using assms by (fastforce simp: parse_list.psimps res_simps split: if_splits)

lemma parse_dict_Inr:
  assumes "parse_next_parse_list_parse_dict_dom (Inr (Inr (d, i, result)))" "parse_dict d i result = Inr (v, j)"
  obtains (stop) "i < length d" "v = PyDict result" "j = Suc i"
  | (item) key m w k where "peek d i = Inr (d ! i)" "d ! i \<noteq> of_char (CHR ''e'')" "\<not> \<not> is_digit (d ! i)"
      "parse_string d i = Inr (key, m)" "parse_next d m = Inr (w, k)"
      "parse_dict d k (dict_set (KBytes key) w result) = Inr (v, j)"
  using assms by (fastforce simp: parse_dict.psimps res_simps split: if_splits)

lemma parse_progress_dom:
  "parse_next_parse_list_parse_dict_dom (Inl (d, i)) \<Longrightarrow>
     parse_next d i = Inr (v, j) \<Longrightarrow> i < j \<and> j \<le> length d"
  "parse_next_parse_list_parse_dict_dom (Inr (Inl (d, i, items))) \<Longrightarrow>
     parse_list d i items = Inr (v, j) \<Longrightarrow> i < j \<and> j \<le> length d"
  "parse_next_parse_list_parse_dict_dom (Inr (Inr (d, i, result))) \<Longrightarrow>
     parse_dict d i result = Inr (v, j) \<Longrightarrow> i < j \<and> j \<le> length d"
proof (induction d i and d i items and d i result arbitrary: v j and v j and v j
    rule: parse_next_parse_list_parse_dict.pinduct)
  case (1 d i)
  show ?case
    using 1
    by (auto simp: parse_next.psimps res_simps split: if_splits dest: parse_int_progress parse_string_progress)
      (meson Suc_lessD)+
next
  case (2 d i items)
  from "2.hyps" "2.prems" show ?case
  proof (cases rule: parse_list_Inr)
    case (item w k)
    from "2.IH"(1) [OF item(1,2) item(3)] "2.IH"(2) [OF item(1,2) item(3) refl item(4)] show ?thesis by simp
  qed simp
next
  case (3 d i result)
  from "3.hyps" "3.prems" show ?case
  proof (cases rule: parse_dict_Inr)
    case (item key m w k)
    from parse_string_progress [OF item(4)] "3.IH"(1) [OF item(1-4) refl item(5)]
      "3.IH"(2) [OF item(1-4) refl item(5) refl item(6)] show ?thesis by simp
  qed simp
qed

lemma parse_total: "All parse_next_parse_list_parse_dict_dom"
  by (rule "parse_next_parse_list_parse_dict.termination" [where R = "measure (\<lambda>x. case x of
        Inl (d, i) \<Rightarrow> 2 * (length d - i)
      | Inr (Inl (d, i, _)) \<Rightarrow> Suc (2 * (length d - i))
      | Inr (Inr (d, i, _)) \<Rightarrow> Suc (2 * (length d - i)))"])
    (auto simp: res_simps dest!: parse_progress_dom(1) parse_string_progress)

termination parse_next
  by (rule parse_total)

declare parse_next.simps [simp del] parse_list.simps [simp del] parse_dict.simps [simp del]

lemmas parse_progress = parse_progress_dom [OF spec [OF parse_total]]

text \<open>\<open>decode_data\<close>: one value, and nothing behind it.\<close>

definition decode_data :: "bytes \<Rightarrow> pyval res" where
  "decode_data data =
     bindR (parse_next data 0) (\<lambda>(result, i).
       if i \<noteq> length data then decode_error ''Unconsumed data remaining'' else Inr result)"

text \<open>\<open>decode\<close>: with an argument it is \<open>decode_data\<close>, without one it goes on where the decoder is.\<close>

definition decoder_init :: "bytes \<Rightarrow> decoder" where
  "decoder_init data = \<lparr>dec_data = data, dec_index = 0\<rparr>"

definition decoder_decode :: "decoder \<Rightarrow> bytes option \<Rightarrow> (pyval \<times> decoder) res" where
  "decoder_decode s arg =
     (case arg of
        Some data \<Rightarrow> bindR (decode_data data) (\<lambda>v. Inr (v, s))
      | None \<Rightarrow>
          bindR (parse_next (dec_data s) (dec_index s)) (\<lambda>(result, i).
            if i \<noteq> length (dec_data s) then decode_error ''Unconsumed data remaining''
            else Inr (result, s\<lparr>dec_index := i\<rparr>)))"

subsection \<open>The encoder\<close>

definition encode_bytes :: "bytes \<Rightarrow> bytes res" where
  "encode_bytes raw = bindR (py_dec (blen raw)) (\<lambda>n. Inr (n @ ascii '':'' @ raw))"

fun encode_key :: "pykey \<Rightarrow> bytes res" where
  "encode_key (KBytes b) = Inr b"
| "encode_key (KStr s) = utf8_encode s"
| "encode_key KOther = Inl (BencodeEncodeError ''Dictionary keys must be bytes or str'')"

text \<open>
  The dictionary case: all keys are converted first, then the items are written in the order
  of the converted keys.
\<close>

definition encode_items :: "(pykey \<times> bytes res) list \<Rightarrow> bytes res" where
  "encode_items items =
     bindR (mapR (\<lambda>(k, r). bindR (encode_key k) (\<lambda>kb. Inr (kb, r))) items) (\<lambda>encoded_keys.
       bindR (mapR (\<lambda>(kb, r). bindR (encode_bytes kb) (\<lambda>h. bindR r (\<lambda>v. Inr (h @ v))))
                (sort_key fst encoded_keys))
         (\<lambda>parts. Inr (ascii ''d'' @ concat parts @ ascii ''e'')))"

primrec encode :: "pyval \<Rightarrow> bytes res" where
  "encode (PyInt i) = bindR (py_dec i) (\<lambda>n. Inr (ascii ''i'' @ n @ ascii ''e''))"
| "encode (PyBytes raw) = encode_bytes raw"
| "encode (PyStr s) = bindR (utf8_encode s) encode_bytes"
| "encode (PyList xs) =
     bindR (mapR (\<lambda>r. r) (map encode xs)) (\<lambda>parts. Inr (ascii ''l'' @ concat parts @ ascii ''e''))"
| "encode (PyDict kvs) = encode_items (map (map_prod (\<lambda>k. k) encode) kvs)"
| "encode (PyBool b) = Inl (BencodeEncodeError ''Type not supported'')"
| "encode PyNone = Inl (BencodeEncodeError ''Type not supported'')"
| "encode PyOther = Inl (BencodeEncodeError ''Type not supported'')"

subsection \<open>What a value looks like after the wire\<close>

definition key_bytes :: "pykey \<Rightarrow> bytes" where
  "key_bytes k = (case encode_key k of Inr b \<Rightarrow> b | Inl _ \<Rightarrow> [])"

definition text_bytes :: "ustr \<Rightarrow> bytes" where
  "text_bytes s = (case utf8_encode s of Inr b \<Rightarrow> b | Inl _ \<Rightarrow> [])"

text \<open>Text becomes bytes and dictionaries are sorted by key.\<close>

primrec wire :: "pyval \<Rightarrow> pyval" where
  "wire (PyInt i) = PyInt i"
| "wire (PyBytes b) = PyBytes b"
| "wire (PyStr s) = PyBytes (text_bytes s)"
| "wire (PyList xs) = PyList (map wire xs)"
| "wire (PyDict kvs) = PyDict (map (map_prod KBytes (\<lambda>v. v)) (sort_key fst (map (map_prod key_bytes wire) kvs)))"
| "wire (PyBool b) = PyBool b"
| "wire PyNone = PyNone"
| "wire PyOther = PyOther"

primrec distinct_keys :: "pyval \<Rightarrow> bool" where
  "distinct_keys (PyInt i) = True"
| "distinct_keys (PyBytes b) = True"
| "distinct_keys (PyStr s) = True"
| "distinct_keys (PyList xs) = list_all id (map distinct_keys xs)"
| "distinct_keys (PyDict kvs) =
     (distinct (map (\<lambda>p. key_bytes (fst p)) kvs) \<and> list_all snd (map (map_prod key_bytes distinct_keys) kvs))"
| "distinct_keys (PyBool b) = True"
| "distinct_keys PyNone = True"
| "distinct_keys PyOther = True"

subsection \<open>Reading back what was written\<close>

lemma dec_leading:
  assumes "py_dec i = Inr n"
  shows "n \<noteq> []" "n \<noteq> ascii ''-0''" "1 < length n \<Longrightarrow> \<not> starts_with n (ascii ''0'')"
    "2 < length n \<Longrightarrow> \<not> starts_with n (ascii ''-0'')" "of_char (CHR ''e'') \<notin> set n"
    "of_char (CHR '':'') \<notin> set n" "0 \<le> i \<Longrightarrow> is_digit (hd n)"
    "hd n = 45 \<or> is_digit (hd n)"
proof -
  let ?m = "nat \<bar>i\<bar>"
  have n: "n = (if i < 0 then 45 # dec_nat ?m else dec_nat ?m)"
    using assms by (auto simp: py_dec_def Let_def split: if_splits)
  have dig: "is_digit b \<Longrightarrow> b \<noteq> 45 \<and> b \<noteq> 101 \<and> b \<noteq> 58" for b
    using digit_not_special by blast
  have nd: "101 \<notin> set (dec_nat ?m)" "58 \<notin> set (dec_nat ?m)"
    using dig dec_nat_digits [of ?m] by blast+
  have hd: "is_digit (hd (dec_nat ?m))" using dec_nat_digits [of ?m] by simp
  have neg: "hd (dec_nat ?m) \<noteq> 48" if "i < 0" using that by (intro hd_dec_nat) simp
  obtain a as where a: "dec_nat ?m = a # as" by (cases "dec_nat ?m") auto
  show "n \<noteq> []" using n by simp
  show "n \<noteq> ascii ''-0''" using n neg hd dig a by (auto split: if_splits)
  show "1 < length n \<Longrightarrow> \<not> starts_with n (ascii ''0'')"
    using n dec_nat_leading [of ?m] a by (auto simp: starts_with_def split: if_splits)
  show "2 < length n \<Longrightarrow> \<not> starts_with n (ascii ''-0'')"
    using n neg hd dig a by (auto simp: starts_with_def split: if_splits)
  show "of_char (CHR ''e'') \<notin> set n" "of_char (CHR '':'') \<notin> set n"
    using n nd by auto
  show "0 \<le> i \<Longrightarrow> is_digit (hd n)" "hd n = 45 \<or> is_digit (hd n)" using n hd by auto
qed

lemma read_until_occurs:
  assumes "occurs_at (raw @ [b]) i d" "b \<notin> set raw"
  shows "read_until d i [b] = Inr (raw, i + length raw + 1)"
  using find_from_occurs [OF assms] assms(1) occurs_at_slice [of raw i d]
  by (simp add: read_until_def seq_simps)

lemma parse_int_occurs:
  assumes "py_dec i = Inr n" "occurs_at (ascii ''i'' @ n @ ascii ''e'') k d"
  shows "parse_int d k = Inr (PyInt i, k + length n + 2)"
proof -
  have "read_until d (Suc k) (ascii ''e'') = Inr (n, Suc k + length n + 1)"
    using read_until_occurs [of n "of_char (CHR ''e'')" "Suc k" d] assms(2) dec_leading(5) [OF assms(1)]
    by (simp add: seq_simps)
  then show ?thesis
    using dec_leading(1-4) [OF assms(1)] py_int_dec [OF assms(1)] by (simp add: parse_int_def)
qed

lemma parse_string_occurs:
  assumes "encode_bytes s = Inr bs" "occurs_at bs k d"
  shows "parse_string d k = Inr (s, k + length bs)"
proof -
  from assms(1) obtain n where n: "py_dec (blen s) = Inr n" and bs: "bs = n @ ascii '':'' @ s"
    by (auto simp: encode_bytes_def res_simps)
  have o: "occurs_at s (k + length n + 1) d" "k + length n + 1 + length s \<le> length d"
    using assms(2) by (auto simp: bs seq_simps dest: occurs_at_length)
  have "read_until d k (ascii '':'') = Inr (n, k + length n + 1)"
    using read_until_occurs [of n "of_char (CHR '':'')" k d] assms(2) dec_leading(6) [OF n]
    by (simp add: bs seq_simps)
  then show ?thesis
    using dec_leading(1,3) [OF n] py_int_dec [OF n] o occurs_at_slice [OF o(1)]
    by (simp add: parse_string_def bs)
qed


text \<open>
  An encoding is a non-empty byte string that does not start with the \<open>e\<close> that ends lists
  and dictionaries.
\<close>

lemma encode_bytes_head:
  "encode_bytes s = Inr bs \<Longrightarrow> bs \<noteq> [] \<and> is_digit (hd bs)"
proof -
  assume "encode_bytes s = Inr bs"
  then obtain n where n: "py_dec (blen s) = Inr n" and bs: "bs = n @ ascii '':'' @ s"
    by (auto simp: encode_bytes_def res_simps)
  with dec_leading(1,7) [OF n] show ?thesis by simp
qed

lemma is_digit_not_letter:
  "is_digit b \<Longrightarrow> b \<noteq> 105 \<and> b \<noteq> 108 \<and> b \<noteq> 100 \<and> b \<noteq> 101"
  by (auto simp: is_digit_def)

lemma encode_head: "encode v = Inr bs \<Longrightarrow> bs \<noteq> [] \<and> hd bs \<noteq> of_char (CHR ''e'')"
  by (cases v)
    (auto simp: encode_items_def res_simps dest!: encode_bytes_head dest: is_digit_not_letter)

lemma occurs_at_head: "occurs_at bs k d \<Longrightarrow> bs \<noteq> [] \<Longrightarrow> peek d k = Inr (hd bs)"
  by (cases bs) (auto simp: seq_simps peek_def)

text \<open>The three loops on encoded input, given that the parts are read back.\<close>

lemma parse_list_occurs:
  assumes "list_all2 (\<lambda>v bs. bs \<noteq> [] \<and> hd bs \<noteq> of_char (CHR ''e'') \<and>
      (\<forall>k. occurs_at bs k d \<longrightarrow> parse_next d k = Inr (f v, k + length bs))) xs parts"
    and "occurs_at (concat parts @ ascii ''e'') k d"
  shows "parse_list d k items = Inr (PyList (items @ map f xs), k + length (concat parts) + 1)"
  using assms
proof (induction xs parts arbitrary: k items rule: list_all2_induct)
  case Nil
  then show ?case by (subst parse_list.simps) (simp add: seq_simps peek_def)
next
  case (Cons v xs bs parts)
  then have o: "occurs_at bs k d" "occurs_at (concat parts @ ascii ''e'') (k + length bs) d"
    by (simp_all add: seq_simps add.assoc)
  have "peek d k = Inr (hd bs)" using o(1) Cons.hyps(1) by (simp add: occurs_at_head)
  then show ?case
    using Cons.hyps(1) o Cons.IH [OF o(2), of "items @ [f v]"]
    by (subst parse_list.simps) (simp add: add.assoc)
qed

lemma parse_dict_occurs:
  assumes "list_all2 (\<lambda>(kb, v) bs. \<exists>h b. encode_bytes kb = Inr h \<and> bs = h @ b \<and>
      (\<forall>k. occurs_at b k d \<longrightarrow> parse_next d k = Inr (v, k + length b))) items parts"
    and "occurs_at (concat parts @ ascii ''e'') k d"
    and "distinct (map fst items)" "fst ` set result \<inter> KBytes ` fst ` set items = {}"
  shows "parse_dict d k result =
    Inr (PyDict (result @ map (map_prod KBytes (\<lambda>v. v)) items), k + length (concat parts) + 1)"
  using assms
proof (induction items parts arbitrary: k result rule: list_all2_induct)
  case Nil
  then show ?case by (subst parse_dict.simps) (simp add: seq_simps peek_def)
next
  case (Cons p items bs parts)
  obtain kb v where p: "p = (kb, v)" by (cases p)
  with Cons.hyps(1) obtain h b where h: "encode_bytes kb = Inr h" and bs: "bs = h @ b"
      and nxt: "\<And>k. occurs_at b k d \<Longrightarrow> parse_next d k = Inr (v, k + length b)"
    by auto
  have o: "occurs_at h k d" "occurs_at b (k + length h) d"
      "occurs_at (concat parts @ ascii ''e'') (k + length h + length b) d"
    using Cons.prems(1) by (simp_all add: bs seq_simps add.assoc)
  have pk: "peek d k = Inr (hd h)" "is_digit (hd h)" "hd h \<noteq> of_char (CHR ''e'')"
    using occurs_at_head [OF o(1)] encode_bytes_head [OF h] is_digit_not_letter by auto
  have fresh: "dict_set (KBytes kb) v result = result @ [(KBytes kb, v)]"
    using Cons.prems(3) p by (intro dict_set_fresh) auto
  have "fst ` set (result @ [(KBytes kb, v)]) \<inter> KBytes ` fst ` set items = {}"
    using Cons.prems(2,3) p by auto
  from Cons.IH [OF o(3) _ this] Cons.prems(2) pk parse_string_occurs [OF h o(1)] nxt [OF o(2)] fresh
  show ?case by (subst parse_dict.simps) (simp add: bs p add.assoc)
qed


text \<open>Sorting commutes with a map that keeps the keys.\<close>

lemma insort_key_map: "insort_key f (g x) (map g xs) = map g (insort_key (\<lambda>y. f (g y)) x xs)"
  by (induction xs) auto

lemma sort_key_map: "sort_key f (map g xs) = map g (sort_key (\<lambda>y. f (g y)) xs)"
  by (induction xs) (simp_all add: insort_key_map)

lemma encode_items_Inr:
  assumes "encode_items (map (map_prod (\<lambda>k. k) f) kvs) = Inr bs"
  shows "\<exists>parts. bs = ascii ''d'' @ concat parts @ ascii ''e'' \<and>
    list_all2 (\<lambda>(k, v) p. \<exists>h b. encode_bytes (key_bytes k) = Inr h \<and> f v = Inr b \<and> p = h @ b)
      (sort_key (\<lambda>p. key_bytes (fst p)) kvs) parts"
proof -
  from assms obtain eks parts where
      e: "list_all2 (\<lambda>x y. (case x of (k, r) \<Rightarrow> bindR (encode_key k) (\<lambda>kb. Inr (kb, r))) = Inr y)
            (map (map_prod (\<lambda>k. k) f) kvs) eks"
    and p: "list_all2 (\<lambda>x y. (case x of (kb, r) \<Rightarrow>
              bindR (encode_bytes kb) (\<lambda>h. bindR r (\<lambda>v. Inr (h @ v)))) = Inr y)
            (sort_key fst eks) parts"
    and bs: "bs = ascii ''d'' @ concat parts @ ascii ''e''"
    unfolding encode_items_def by (auto simp: res_simps)
  have "eks = map (\<lambda>p. (key_bytes (fst p), f (snd p))) kvs"
    using e by (induction kvs arbitrary: eks) (auto simp: list_all2_Cons1 res_simps key_bytes_def)
  then have "sort_key fst eks = map (\<lambda>p. (key_bytes (fst p), f (snd p)))
      (sort_key (\<lambda>p. key_bytes (fst p)) kvs)"
    by (simp add: sort_key_map)
  with p have "list_all2 (\<lambda>(k, v) p. \<exists>h b. encode_bytes (key_bytes k) = Inr h \<and> f v = Inr b \<and> p = h @ b)
      (sort_key (\<lambda>p. key_bytes (fst p)) kvs) parts"
    by (simp add: list_all2_map1) (erule list_all2_mono, auto simp: res_simps)
  with bs show ?thesis by blast
qed

lemma wire_dict:
  "wire (PyDict kvs) = PyDict (map (map_prod KBytes (\<lambda>v. v))
     (map (map_prod key_bytes wire) (sort_key (\<lambda>p. key_bytes (fst p)) kvs)))"
  by (simp add: sort_key_map)

text \<open>The items of a container: each part is the text of one value, which \<open>parse_next\<close> reads wherever it stands.\<close>

abbreviation reads_as :: "bytes \<Rightarrow> pyval \<Rightarrow> bytes \<Rightarrow> bool" where
  "reads_as d v bs \<equiv> \<forall>k. occurs_at bs k d \<longrightarrow> parse_next d k = Inr (v, k + length bs)"

lemma list_parts_read:
  assumes "list_all2 (\<lambda>x p. encode x = Inr p) xs parts"
    and "\<And>x p. x \<in> set xs \<Longrightarrow> encode x = Inr p \<Longrightarrow> reads_as d (wire x) p"
  shows "list_all2 (\<lambda>v bs. bs \<noteq> [] \<and> hd bs \<noteq> of_char (CHR ''e'') \<and> reads_as d v bs) (map wire xs) parts"
  unfolding list_all2_map1 using assms(1)
proof (rule list.rel_mono_strong)
  fix x p assume "x \<in> set xs" "encode x = Inr p"
  with assms(2) encode_head [of x p]
  show "p \<noteq> [] \<and> hd p \<noteq> of_char (CHR ''e'') \<and> reads_as d (wire x) p" by simp
qed

lemma dict_parts_read:
  assumes "list_all2 (\<lambda>(k, v) p. \<exists>h b. encode_bytes (key_bytes k) = Inr h \<and> encode v = Inr b \<and> p = h @ b) kvs parts"
    and "\<And>k v b. (k, v) \<in> set kvs \<Longrightarrow> encode v = Inr b \<Longrightarrow> reads_as d (wire v) b"
  shows "list_all2 (\<lambda>(kb, v) bs. \<exists>h b. encode_bytes kb = Inr h \<and> bs = h @ b \<and> reads_as d v b)
    (map (map_prod key_bytes wire) kvs) parts"
  unfolding list_all2_map1 using assms(1)
proof (rule list.rel_mono_strong)
  fix q p assume "q \<in> set kvs"
    "(case q of (k, v) \<Rightarrow> \<lambda>p. \<exists>h b. encode_bytes (key_bytes k) = Inr h \<and> encode v = Inr b \<and> p = h @ b) p"
  with assms(2) [of "fst q" "snd q"]
  show "(case map_prod key_bytes wire q of (kb, v) \<Rightarrow> \<lambda>bs. \<exists>h b. encode_bytes kb = Inr h \<and> bs = h @ b \<and> reads_as d v b) p"
    by (cases q) fastforce
qed

lemma distinct_sorted_keys:
  "distinct (map (\<lambda>p. key_bytes (fst p)) kvs) \<Longrightarrow>
     distinct (map fst (map (map_prod key_bytes f) (sort_key (\<lambda>p. key_bytes (fst p)) kvs)))"
  by (simp add: comp_def distinct_map)

lemma parse_next_encode:
  "encode v = Inr bs \<Longrightarrow> distinct_keys v \<Longrightarrow> occurs_at bs k d \<Longrightarrow>
     parse_next d k = Inr (wire v, k + length bs)"
proof (induction v arbitrary: bs k)
  case (PyInt i)
  then obtain n where n: "py_dec i = Inr n" and bs: "bs = ascii ''i'' @ n @ ascii ''e''"
    by (auto simp: res_simps)
  have "peek d k = Inr (of_char (CHR ''i''))"
    using PyInt.prems(3) by (simp add: bs seq_simps peek_def)
  with parse_int_occurs [OF n PyInt.prems(3) [unfolded bs]] show ?case
    by (subst parse_next.simps) (simp add: bs)
next
  case (PyBytes b)
  then have e: "encode_bytes b = Inr bs" by simp
  show ?case
    using encode_bytes_head [OF e] occurs_at_head [OF PyBytes.prems(3)] is_digit_not_letter
      parse_string_occurs [OF e PyBytes.prems(3)]
    by (subst parse_next.simps) auto
next
  case (PyStr s)
  then obtain b where e: "encode_bytes b = Inr bs" and b: "utf8_encode s = Inr b"
    by (auto simp: res_simps)
  show ?case
    using encode_bytes_head [OF e] occurs_at_head [OF PyStr.prems(3)] is_digit_not_letter
      parse_string_occurs [OF e PyStr.prems(3)] b
    by (subst parse_next.simps) (auto simp: text_bytes_def)
next
  case (PyList xs)
  then obtain parts where p: "list_all2 (\<lambda>x p. encode x = Inr p) xs parts"
      and bs: "bs = ascii ''l'' @ concat parts @ ascii ''e''"
    by (auto simp: res_simps list_all2_map1)
  have "reads_as d (wire x) p" if "x \<in> set xs" "encode x = Inr p" for x p
    using PyList.IH [OF that] PyList.prems(2) that(1) by (simp add: list_all_iff)
  from parse_list_occurs [OF list_parts_read [OF p this], of "Suc k" "[]"] PyList.prems(3)
  show ?case by (subst parse_next.simps) (simp add: bs seq_simps peek_def)
next
  case (PyDict kvs)
  let ?srt = "sort_key (\<lambda>p. key_bytes (fst p)) kvs"
  from PyDict.prems(1) obtain parts where bs: "bs = ascii ''d'' @ concat parts @ ascii ''e''"
      and p: "list_all2 (\<lambda>(k, v) p. \<exists>h b. encode_bytes (key_bytes k) = Inr h \<and> encode v = Inr b \<and> p = h @ b)
        ?srt parts"
    using encode_items_Inr [of encode kvs bs] by auto
  have "reads_as d (wire v) b" if "(x, v) \<in> set ?srt" "encode v = Inr b" for x v b
    using PyDict.IH [of "(x, v)" v] PyDict.prems(2) that by (auto simp: list_all_iff snds.simps)
  note parts = dict_parts_read [OF p this]
  have "distinct (map fst (map (map_prod key_bytes wire) ?srt))"
    using PyDict.prems(2) by (intro distinct_sorted_keys) simp
  with parts have "parse_dict d (Suc k) [] = Inr (wire (PyDict kvs), Suc k + length (concat parts) + 1)"
    unfolding wire_dict using parse_dict_occurs [of d "map (map_prod key_bytes wire) ?srt" parts "Suc k" "[]"]
      PyDict.prems(3) by (simp add: bs seq_simps)
  with PyDict.prems(3) show ?case by (subst parse_next.simps) (simp add: bs seq_simps peek_def)
qed simp_all

subsection \<open>Writing back what was read\<close>

text \<open>A decoded string is short enough for its length to be written.\<close>

lemma parse_string_encodable: "parse_string d i = Inr (s, j) \<Longrightarrow> \<exists>bs. encode_bytes s = Inr bs"
proof -
  assume "parse_string d i = Inr (s, j)"
  then obtain raw n k where "py_int raw = Inr n" "0 \<le> n" "s = slice k (k + nat n) d" "int k + n \<le> blen d"
    by (auto simp: parse_string_def res_simps split: if_splits)
  then have "\<bar>blen s\<bar> < 10 ^ max_str_digits" using py_int_bound [of raw n] by simp
  from py_dec_total [OF this] show ?thesis by (auto simp: encode_bytes_def)
qed

definition encodable :: "pyval \<Rightarrow> bool" where
  "encodable v \<longleftrightarrow> (\<exists>bs. encode v = Inr bs)"

lemma encodable_list: "(\<forall>x \<in> set xs. encodable x) \<Longrightarrow> encodable (PyList xs)"
proof -
  assume "\<forall>x \<in> set xs. encodable x"
  then obtain f where "\<And>x. x \<in> set xs \<Longrightarrow> encode x = Inr (f x)" unfolding encodable_def by metis
  then have "mapR (\<lambda>r. r) (map encode xs) = Inr (map f xs)"
    by (induction xs) auto
  then show ?thesis by (simp add: encodable_def)
qed

lemma encodable_dict:
  assumes "\<forall>(k, v) \<in> set kvs. (\<exists>b bs. k = KBytes b \<and> encode_bytes b = Inr bs) \<and> encodable v"
  shows "encodable (PyDict kvs)"
proof -
  have ks: "mapR (\<lambda>(k, r). bindR (encode_key k) (\<lambda>kb. Inr (kb, r))) (map (map_prod (\<lambda>k. k) encode) kvs)
      = Inr (map (map_prod key_bytes encode) kvs)"
    using assms by (induction kvs) (auto simp: key_bytes_def)
  have "\<forall>x \<in> set (sort_key fst (map (map_prod key_bytes encode) kvs)).
      \<exists>y. (case x of (kb, r) \<Rightarrow> bindR (encode_bytes kb) (\<lambda>h. bindR r (\<lambda>v. Inr (h @ v)))) = Inr y"
    using assms by (fastforce simp: key_bytes_def encodable_def)
  from mapR_exists [OF this] ks show ?thesis
    by (auto simp: encodable_def encode_items_def)
qed

definition rewritable :: "pyval \<Rightarrow> bool" where
  "rewritable v \<longleftrightarrow> decoded v \<and> encodable v"

lemma rewritable_list: "(\<forall>x \<in> set xs. rewritable x) \<Longrightarrow> rewritable (PyList xs)"
  by (simp add: rewritable_def encodable_list)

definition rewritable_item :: "pykey \<times> pyval \<Rightarrow> bool" where
  "rewritable_item p \<longleftrightarrow> (\<exists>b bs. fst p = KBytes b \<and> encode_bytes b = Inr bs) \<and> rewritable (snd p)"

lemma rewritable_dict:
  assumes "dict_ok kvs" "\<forall>p \<in> set kvs. rewritable_item p"
  shows "rewritable (PyDict kvs)"
proof -
  have "encodable (PyDict kvs)"
    using assms(2) by (intro encodable_dict) (auto simp: rewritable_item_def rewritable_def)
  with assms show ?thesis
    by (auto simp: rewritable_def rewritable_item_def dict_ok_def)
qed

lemma parse_rewritable:
  "parse_next d i = Inr (v, j) \<Longrightarrow> rewritable v"
  "parse_list d i items = Inr (v, j) \<Longrightarrow> \<forall>x \<in> set items. rewritable x \<Longrightarrow> rewritable v"
  "parse_dict d i result = Inr (v, j) \<Longrightarrow> dict_ok result \<Longrightarrow>
     \<forall>p \<in> set result. rewritable_item p \<Longrightarrow> rewritable v"
proof (induction d i and d i items and d i result arbitrary: v j and v j and v j
    rule: parse_next_parse_list_parse_dict.induct)
  case (1 d i)
  have int: "rewritable v" if "parse_int d i = Inr (v, j)"
  proof -
    from that obtain raw n where "v = PyInt n" "py_int raw = Inr n"
      by (auto simp: parse_int_def res_simps split: if_splits)
    with py_int_bound [of raw n] py_dec_total [of n] show ?thesis
      by (auto simp: rewritable_def encodable_def)
  qed
  have str: "rewritable (PyBytes s)" if "parse_string d i = Inr (s, k)" for s k
    using parse_string_encodable [OF that] by (simp add: rewritable_def encodable_def)
  show ?case
    using 1 int str by (auto simp: parse_next.simps [of d i] res_simps split: if_splits)
next
  case (2 d i items)
  from spec [OF parse_total] "2.prems"(1) show ?case
  proof (cases rule: parse_list_Inr)
    case stop
    with "2.prems"(2) show ?thesis by (auto intro: rewritable_list)
  next
    case (item w k)
    from "2.IH"(1) [OF item(1,2) item(3)] "2.IH"(2) [OF item(1,2) item(3) refl item(4)] "2.prems"(2)
    show ?thesis by simp
  qed
next
  case (3 d i result)
  from spec [OF parse_total] "3.prems"(1) show ?case
  proof (cases rule: parse_dict_Inr)
    case stop
    with "3.prems"(2,3) show ?thesis by (auto intro: rewritable_dict)
  next
    case (item key m w k)
    have "rewritable_item (KBytes key, w)"
      using parse_string_encodable [OF item(4)] "3.IH"(1) [OF item(1-4) refl item(5)]
      by (auto simp: rewritable_item_def)
    with "3.IH"(2) [OF item(1-4) refl item(5) refl item(6)] "3.prems"(2,3)
    show ?thesis by (auto simp: set_dict_set)
  qed
qed

lemma decoded_distinct: "decoded v \<Longrightarrow> distinct_keys v"
proof (induction v)
  case (PyDict kvs)
  have "map (\<lambda>p. key_bytes (fst p)) kvs = map (\<lambda>k. key_bytes k) (map fst kvs)" by simp
  moreover have "inj_on key_bytes (fst ` set kvs)"
  proof (rule inj_onI)
    fix k k' assume "k \<in> fst ` set kvs" "k' \<in> fst ` set kvs" "key_bytes k = key_bytes k'"
    with PyDict.prems obtain b b' where "k = KBytes b" "k' = KBytes b'" by fastforce
    with \<open>key_bytes k = key_bytes k'\<close> show "k = k'" by (simp add: key_bytes_def)
  qed
  ultimately have "distinct (map (\<lambda>p. key_bytes (fst p)) kvs)"
    using PyDict.prems by (simp add: distinct_map del: map_map)
  with PyDict show ?case by (auto simp: list_all_iff snds.simps)
qed (auto simp: list_all_iff)

text \<open>The decoder raises nothing but its own error.\<close>

definition decode_failure :: "exc \<Rightarrow> bool" where
  "decode_failure e \<longleftrightarrow> (\<exists>m. e = BencodeDecodeError m)"

lemma decode_failure_error [simp]: "decode_failure (BencodeDecodeError m)"
  by (simp add: decode_failure_def)

lemma peek_failure: "peek d i = Inl e \<Longrightarrow> decode_failure e"
  by (auto simp: peek_def decode_failure_def split: if_splits)

lemma parse_int_failure: "parse_int d i = Inl e \<Longrightarrow> decode_failure e"
  by (auto simp: parse_int_def read_until_def decode_failure_def bindR_def
      split: sum.splits option.splits if_splits prod.splits)

lemma parse_string_failure: "parse_string d i = Inl e \<Longrightarrow> decode_failure e"
  by (auto simp: parse_string_def read_until_def decode_failure_def bindR_def
      split: sum.splits option.splits if_splits prod.splits)

lemma parse_failure:
  "parse_next d i = Inl e \<Longrightarrow> decode_failure e"
  "parse_list d i items = Inl e \<Longrightarrow> decode_failure e"
  "parse_dict d i result = Inl e \<Longrightarrow> decode_failure e"
proof (induction d i and d i items and d i result rule: parse_next_parse_list_parse_dict.induct)
  case (1 d i)
  then show ?case
    by (auto simp: parse_next.simps [of d i] split: sum.splits if_splits prod.splits intro: peek_failure parse_int_failure parse_string_failure)
next
  case (2 d i items)
  then show ?case
    by (auto simp: parse_list.simps [of d i] split: sum.splits if_splits prod.splits intro: peek_failure)
next
  case (3 d i result)
  show ?case
    using "3.prems" "3.IH"
    by (auto simp: parse_dict.simps [of d i] split: sum.splits if_splits prod.splits intro: peek_failure parse_string_failure)
qed


lemma decode_data_failure:
  assumes "decode_data bs = Inl e"
  shows "\<exists>m. e = BencodeDecodeError m"
proof (cases "parse_next bs 0")
  case (Inl e')
  with assms parse_failure(1) [OF Inl] show ?thesis by (simp add: decode_data_def decode_failure_def)
next
  case (Inr r)
  with assms show ?thesis by (auto simp: decode_data_def split: prod.splits if_splits)
qed

subsection \<open>The bencoding as a self-delimiting code\<close>

definition bencoding :: "pyval \<Rightarrow> bytes" where
  "bencoding v = (case encode v of Inr bs \<Rightarrow> bs | Inl _ \<Rightarrow> [])"

definition bdecoding :: "bytes \<Rightarrow> (pyval \<times> bytes) res" where
  "bdecoding d = bindR (parse_next d 0) (\<lambda>(v, i). Inr (v, drop i d))"

definition codable :: "pyval \<Rightarrow> bool" where
  "codable v \<longleftrightarrow> encodable v \<and> distinct_keys v"

lemma bencoding_encode [simp]: "encode v = Inr bs \<Longrightarrow> bencoding v = bs"
  by (simp add: bencoding_def)

lemma codableI: "encode v = Inr bs \<Longrightarrow> distinct_keys v \<Longrightarrow> codable v"
  by (auto simp: codable_def encodable_def)

interpretation bc: codec bencoding bdecoding codable wire
proof unfold_locales
  fix v rest assume "codable v"
  then obtain bs where bs: "encode v = Inr bs" "distinct_keys v"
    by (auto simp: codable_def encodable_def)
  have "occurs_at bs 0 (bs @ rest)" using occurs_atI [of bs "[]" rest] by simp
  from parse_next_encode [OF bs this] bs(1)
  show "bdecoding (bencoding v @ rest) = Inr (wire v, rest)" by (simp add: bdecoding_def)
qed

lemma decode_data_encode: "encode v = Inr bs \<Longrightarrow> distinct_keys v \<Longrightarrow> decode_data bs = Inr (wire v)"
  using parse_next_encode [of v bs 0 bs] occurs_atI [of bs "[]" "[]"] by (simp add: decode_data_def)

text \<open>To evaluate the encoder on concrete values.\<close>

lemmas encode_eval = encode_bytes_def py_dec_def max_str_digits_def dec_nat.simps utf8_encode_ascii

subsection \<open>Properties\<close>

text \<open>
  C13. What \<open>encode\<close> writes, \<open>decode\<close> reads back in full: the value itself, with text as
  bytes and dictionaries in key order.
\<close>

theorem bencode_roundtrip:
  assumes "encode v = Inr bs" and "distinct_keys v"
  shows "decode_data bs = Inr (wire v)"
  using assms by (rule decode_data_encode)

theorem bencode_roundtrip_witness:
  "decode_data (ascii ''d3:barl2:abi-7ee3:fooi42ee'') =
     Inr (PyDict [(KBytes (ascii ''bar''), PyList [PyBytes (ascii ''ab''), PyInt (-7)]),
                  (KBytes (ascii ''foo''), PyInt 42)])"
proof -
  let ?v = "PyDict [(KStr (ucs ''foo''), PyInt 42),
                    (KBytes (ascii ''bar''), PyList [PyStr (ucs ''ab''), PyInt (-7)])]"
  have e: "encode ?v = Inr (ascii ''d3:barl2:abi-7ee3:fooi42ee'')"
    by (simp add: encode_items_def encode_eval)
  have d: "distinct_keys ?v" by (simp add: key_bytes_def encode_eval)
  have "wire ?v = PyDict [(KBytes (ascii ''bar''), PyList [PyBytes (ascii ''ab''), PyInt (-7)]),
                  (KBytes (ascii ''foo''), PyInt 42)]"
    by (simp add: key_bytes_def text_bytes_def encode_eval)
  with bencode_roundtrip [OF e d] show ?thesis by simp
qed

text \<open>
  No encoding is the start of another: where two encodings begin the same byte string,
  the values agree and so does what follows, so a decoder can tell where a value ends.
\<close>

theorem bencode_prefix_free:
  assumes "encode v = Inr bs" "distinct_keys v" "encode w = Inr cs" "distinct_keys w"
    and "bs @ r = cs @ s"
  shows "wire v = wire w \<and> r = s"
  using bc.enc_prefix_free [of v w r s] assms by (simp add: codableI)

theorem bencode_prefix_free_witness:
  "wire (PyStr (ucs ''ab'')) = wire (PyBytes (ascii ''ab'')) \<and> ascii ''x'' = ascii ''x''"
proof -
  have 1: "encode (PyStr (ucs ''ab'')) = Inr (ascii ''2:ab'')" "encode (PyBytes (ascii ''ab'')) = Inr (ascii ''2:ab'')"
    by (simp_all add: encode_eval)
  show ?thesis
    by (rule bencode_prefix_free [OF 1(1) _ 1(2)]) simp_all
qed

text \<open>
  C14. Whatever \<open>decode\<close> accepts is a value without duplicate keys that \<open>encode\<close> can
  write again, and reading that encoding gives the same value with its dictionaries sorted.
\<close>

theorem decode_reencode:
  assumes "decode_data bs = Inr v"
  shows "decoded v \<and> (\<exists>cs. encode v = Inr cs \<and> decode_data cs = Inr (wire v))"
proof -
  from assms obtain i where "parse_next bs 0 = Inr (v, i)"
    by (auto simp: decode_data_def res_simps split: if_splits)
  then have "rewritable v" by (rule parse_rewritable)
  then obtain cs where "decoded v" "encode v = Inr cs" by (auto simp: rewritable_def encodable_def)
  with decode_data_encode [of v cs] decoded_distinct show ?thesis by blast
qed

theorem decode_reencode_witness:
  "decoded (PyInt 10) \<and> (\<exists>cs. encode (PyInt 10) = Inr cs \<and> decode_data cs = Inr (wire (PyInt 10)))"
proof -
  have "decode_data (ascii ''i 1_0 e'') = Inr (PyInt 10)" by code_simp
  from decode_reencode [OF this] show ?thesis .
qed



text \<open>
  The decoder is more lenient than the format: \<open>int\<close> lets white space, underscores and a
  plus sign through, in integers and in length prefixes, and key order is not checked.
\<close>

lemma lenient_decoding:
  "decode_data (ascii ''i 1_0 e'') = Inr (PyInt 10)"
  "decode_data (ascii ''i+5e'') = Inr (PyInt 5)"
  "decode_data (ascii ''2 :ab'') = Inr (PyBytes (ascii ''ab''))"
  "decode_data (ascii ''d1:bi1e1:ai2ee'') =
     Inr (PyDict [(KBytes (ascii ''b''), PyInt 1), (KBytes (ascii ''a''), PyInt 2)])"
  by code_simp+

end
