(* ===== verification/PyStruct.thy ===== *)
theory PyStruct
  imports Prelude
begin

section \<open>Fixed-width integers on the wire\<close>

text \<open>
  Network byte order as \<open>struct.pack\<close> and \<open>struct.unpack\<close> give it: \<open>pack_uint k\<close> is the
  format \<open>B\<close>, \<open>H\<close>, \<open>I\<close> or \<open>Q\<close> for \<open>k\<close> = 1, 2, 4, 8, and an integer out of range is
  struct.error.  \<open>pack_sint4\<close> is the format \<open>i\<close>, \<open>pack_bytes n\<close> the format \<open>ns\<close>, which cuts a
  longer byte string and pads a shorter one with zeros.
\<close>

fun be_bytes :: "nat \<Rightarrow> int \<Rightarrow> bytes" where
  "be_bytes 0 x = []"
| "be_bytes (Suc k) x = be_bytes k (x div 256) @ [of_int x]"

definition be_value :: "bytes \<Rightarrow> int" where
  "be_value bs = foldl (\<lambda>a b. a * 256 + uint b) 0 bs"

definition pack_uint :: "nat \<Rightarrow> int \<Rightarrow> bytes res" where
  "pack_uint k x = (if 0 \<le> x \<and> x < 256 ^ k then Inr (be_bytes k x) else Inl StructError)"

definition pack_sint4 :: "int \<Rightarrow> bytes res" where
  "pack_sint4 x =
     (if - 2147483648 \<le> x \<and> x < 2147483648 then Inr (be_bytes 4 (x mod 4294967296)) else Inl StructError)"

definition pack_bytes :: "nat \<Rightarrow> bytes \<Rightarrow> bytes" where
  "pack_bytes n bs = take n bs @ replicate (n - length bs) 0"

text \<open>A format string packs its fields in order; the first bad field raises.\<close>

definition pack_all :: "bytes res list \<Rightarrow> bytes res" where
  "pack_all fs = bindR (mapR (\<lambda>f. f) fs) (\<lambda>bss. Inr (concat bss))"

lemma be_value_Nil [simp]: "be_value [] = 0"
  by (simp add: be_value_def)

lemma be_value_snoc [simp]: "be_value (bs @ [b]) = be_value bs * 256 + uint b"
  by (simp add: be_value_def)

lemma length_be_bytes [simp]: "length (be_bytes k x) = k"
  by (induction k arbitrary: x) simp_all

lemma be_bytes_numeral:
  "be_bytes (numeral k) x = be_bytes (pred_numeral k) (x div 256) @ [of_int x]"
  by (simp add: numeral_eq_Suc)

lemma uint_of_int_byte: "uint (of_int x :: byte) = x mod 256"
  by (simp add: uint_word_of_int)

lemma be_value_be_bytes: "be_value (be_bytes k x) = x mod 256 ^ k"
proof (induction k arbitrary: x)
  case 0
  then show ?case by simp
next
  case (Suc k)
  have "x div 256 mod 256 ^ k * 256 + x mod 256 = x mod (256 * 256 ^ k)"
    by (simp add: zmod_zmult2_eq)
  then show ?case by (simp add: Suc uint_of_int_byte)
qed

lemma be_value_range: "0 \<le> be_value bs" "be_value bs < 256 ^ length bs"
proof (induction bs rule: rev_induct)
  case (snoc b bs)
  have "0 \<le> uint b" "uint b < 256" using uint_bounded [of b] by simp_all
  with snoc show "0 \<le> be_value (bs @ [b])" "be_value (bs @ [b]) < 256 ^ length (bs @ [b])"
    by simp_all
qed simp_all

lemma be_bytes_be_value: "be_bytes (length bs) (be_value bs) = bs"
proof (induction bs rule: rev_induct)
  case (snoc b bs)
  have b: "0 \<le> uint b" "uint b < 256" using uint_bounded [of b] by simp_all
  have "(of_int (be_value bs * 256 + uint b) :: byte) = b"
    by (rule word_uint_eqI) (simp add: uint_of_int_byte b del: of_int_add)
  with snoc b show ?case by simp
qed simp

lemma be_value_pack: "pack_uint k x = Inr bs \<Longrightarrow> be_value bs = x \<and> length bs = k \<and> 0 \<le> x \<and> x < 256 ^ k"
  by (auto simp: pack_uint_def be_value_be_bytes split: if_splits)

lemma pack_be_value: "length bs = k \<Longrightarrow> pack_uint k (be_value bs) = Inr bs"
  using be_value_range [of bs] be_bytes_be_value [of bs] by (auto simp: pack_uint_def)

lemma pack_uint_Inr: "(\<exists>bs. pack_uint k x = Inr bs) \<longleftrightarrow> 0 \<le> x \<and> x < 256 ^ k"
  by (simp add: pack_uint_def)

lemma length_pack_sint4: "pack_sint4 x = Inr bs \<Longrightarrow> length bs = 4"
  by (auto simp: pack_sint4_def split: if_splits)

lemma length_pack_bytes [simp]: "length (pack_bytes n bs) = n"
  by (simp add: pack_bytes_def)

lemma pack_bytes_exact: "length bs = n \<Longrightarrow> pack_bytes n bs = bs"
  by (simp add: pack_bytes_def)

lemma pack_all_simps [simp]:
  "pack_all [] = Inr []"
  "pack_all (f # fs) = bindR f (\<lambda>b. bindR (pack_all fs) (\<lambda>bs. Inr (b @ bs)))"
  by (simp_all add: pack_all_def bindR_assoc)

end
