(* ===== verification/PeerWire.thy ===== *)
theory PeerWire
  imports PyStruct
begin

section \<open>The peer wire protocol (client/modules/peerProtocol.py, messages and handshake)\<close>

text \<open>
  Message classes, their encoding into length-prefixed frames, \<open>decode_message\<close>, and the
  68-byte handshake.  Field values are Python integers, so an encoding can fail with
  struct.error; bytes that came off the wire are always in range.
\<close>

unbundle bit_operations_syntax

subsection \<open>Messages\<close>

definition PROTOCOL_NAME :: bytes where
  "PROTOCOL_NAME = ascii ''BitTorrent protocol''"

definition HANDSHAKE_LEN :: nat where
  "HANDSHAKE_LEN = 68"

definition BLOCK_SIZE :: int where
  "BLOCK_SIZE = 16 * 1024"

definition KEEP_ALIVE_BYTES :: bytes where
  "KEEP_ALIVE_BYTES = [0, 0, 0, 0]"

datatype message_id =
  CHOKE | UNCHOKE | INTERESTED | NOT_INTERESTED | HAVE | BITFIELD | REQUEST | PIECE | CANCEL

fun mid_value :: "message_id \<Rightarrow> int" where
  "mid_value CHOKE = 0"
| "mid_value UNCHOKE = 1"
| "mid_value INTERESTED = 2"
| "mid_value NOT_INTERESTED = 3"
| "mid_value HAVE = 4"
| "mid_value BITFIELD = 5"
| "mid_value REQUEST = 6"
| "mid_value PIECE = 7"
| "mid_value CANCEL = 8"

text \<open>\<open>MessageID(i)\<close>, None for the ValueError of an unknown id.\<close>

definition mid_of :: "int \<Rightarrow> message_id option" where
  "mid_of i =
     (if i = 0 then Some CHOKE else if i = 1 then Some UNCHOKE else if i = 2 then Some INTERESTED
      else if i = 3 then Some NOT_INTERESTED else if i = 4 then Some HAVE else if i = 5 then Some BITFIELD
      else if i = 6 then Some REQUEST else if i = 7 then Some PIECE else if i = 8 then Some CANCEL
      else None)"

datatype message =
    KeepAliveMessage
  | ChokeMessage
  | UnchokeMessage
  | InterestedMessage
  | NotInterestedMessage
  | HaveMessage (have_index: int)
  | BitfieldMessage (bitfield: bytes)
  | RequestMessage int int int
  | PieceMessage int int bytes
  | CancelMessage int int int

definition frame :: "message_id \<Rightarrow> bytes \<Rightarrow> bytes res" where
  "frame mid payload =
     (let body = of_int (mid_value mid) # payload
      in bindR (pack_uint 4 (blen body)) (\<lambda>l. Inr (l @ body)))"

fun encode_message :: "message \<Rightarrow> bytes res" where
  "encode_message KeepAliveMessage = Inr KEEP_ALIVE_BYTES"
| "encode_message ChokeMessage = frame CHOKE []"
| "encode_message UnchokeMessage = frame UNCHOKE []"
| "encode_message InterestedMessage = frame INTERESTED []"
| "encode_message NotInterestedMessage = frame NOT_INTERESTED []"
| "encode_message (HaveMessage piece_index) = bindR (pack_uint 4 piece_index) (frame HAVE)"
| "encode_message (BitfieldMessage bf) = frame BITFIELD bf"
| "encode_message (RequestMessage index begin len) =
     bindR (pack_all [pack_uint 4 index, pack_uint 4 begin, pack_uint 4 len]) (frame REQUEST)"
| "encode_message (PieceMessage index begin block) =
     bindR (pack_all [pack_uint 4 index, pack_uint 4 begin]) (\<lambda>header. frame PIECE (header @ block))"
| "encode_message (CancelMessage index begin len) =
     bindR (pack_all [pack_uint 4 index, pack_uint 4 begin, pack_uint 4 len]) (frame CANCEL)"

text \<open>\<open>BitfieldMessage.has_piece\<close>: bit 7 of byte 0 is piece 0.\<close>

definition has_piece :: "bytes \<Rightarrow> int \<Rightarrow> bool res" where
  "has_piece bf index =
     (let byte_index = index div 8; bit_offset = 7 - index mod 8
      in if byte_index \<ge> blen bf then Inr False
         else bindR (py_get bf byte_index) (\<lambda>b. Inr (drop_bit (nat bit_offset) b AND 1 \<noteq> 0)))"

subsection \<open>Decoding\<close>

definition word_at :: "bytes \<Rightarrow> nat \<Rightarrow> int" where
  "word_at d i = be_value (slice i (i + 4) d)"

definition decode_message :: "int \<Rightarrow> bytes \<Rightarrow> message res" where
  "decode_message msg_id payload =
     (case mid_of msg_id of
        None \<Rightarrow> Inl (PeerError ''Unknown message ID'')
      | Some CHOKE \<Rightarrow> Inr ChokeMessage
      | Some UNCHOKE \<Rightarrow> Inr UnchokeMessage
      | Some INTERESTED \<Rightarrow> Inr InterestedMessage
      | Some NOT_INTERESTED \<Rightarrow> Inr NotInterestedMessage
      | Some HAVE \<Rightarrow>
          if length payload \<noteq> 4 then Inl (PeerError ''Have message payload must be 4 bytes'')
          else Inr (HaveMessage (word_at payload 0))
      | Some BITFIELD \<Rightarrow> Inr (BitfieldMessage payload)
      | Some REQUEST \<Rightarrow>
          if length payload \<noteq> 12 then Inl (PeerError ''Request payload must be 12 bytes'')
          else Inr (RequestMessage (word_at payload 0) (word_at payload 4) (word_at payload 8))
      | Some PIECE \<Rightarrow>
          if length payload < 8 then Inl (PeerError ''Piece payload must be >=8 bytes'')
          else Inr (PieceMessage (word_at payload 0) (word_at payload 4) (drop 8 payload))
      | Some CANCEL \<Rightarrow>
          if length payload \<noteq> 12 then Inl (PeerError ''Cancel payload must be 12 bytes'')
          else Inr (CancelMessage (word_at payload 0) (word_at payload 4) (word_at payload 8)))"

text \<open>
  One frame at the front of a byte string that holds all of it: the length prefix, then as
  many bytes, the first of them the id.  This is what \<open>receive_message\<close> does when the data is
  there; the connection's own theory relates the two.
\<close>

definition read_message :: "bytes \<Rightarrow> (message \<times> bytes) res" where
  "read_message d =
     (if length d < 4 then Inl IncompleteReadError
      else let n = nat (be_value (take 4 d)); r = drop 4 d
           in if n = 0 then Inr (KeepAliveMessage, r)
              else if length r < n then Inl IncompleteReadError
              else bindR (decode_message (uint (hd r)) (slice 1 n r)) (\<lambda>m. Inr (m, drop n r)))"

subsection \<open>Handshake\<close>

definition build_handshake :: "bytes \<Rightarrow> bytes \<Rightarrow> bytes res" where
  "build_handshake info_hash peer_id =
     (if length info_hash \<noteq> 20 then Inl ValueError
      else if length peer_id \<noteq> 20 then Inl ValueError
      else Inr ([of_nat (length PROTOCOL_NAME)] @ PROTOCOL_NAME @ replicate 8 0 @ info_hash @ peer_id))"

definition parse_handshake :: "bytes \<Rightarrow> (bytes \<times> bytes) res" where
  "parse_handshake d =
     (if length d < HANDSHAKE_LEN then Inl (HandshakeError ''Handshake too short'')
      else let pstrlen = unat (d ! 0) in
        if pstrlen \<noteq> length PROTOCOL_NAME then Inl (HandshakeError ''Unexpected protocol name length'')
        else if slice 1 (1 + pstrlen) d \<noteq> PROTOCOL_NAME then Inl (HandshakeError ''Protocol name mismatch'')
        else Inr (slice 28 48 d, slice 48 68 d))"

subsection \<open>Lemmas\<close>

lemma length_PROTOCOL_NAME [simp]: "length PROTOCOL_NAME = 19"
  by (simp add: PROTOCOL_NAME_def)

lemma mid_of_value [simp]: "mid_of (mid_value m) = Some m"
  by (cases m) (simp_all add: mid_of_def)

lemma mid_of_Some: "mid_of i = Some m \<Longrightarrow> mid_value m = i"
  by (auto simp: mid_of_def split: if_splits)

lemma uint_mid [simp]: "uint (of_int (mid_value m) :: byte) = mid_value m"
  by (cases m) simp_all

lemma frame_Inr [res_simps]:
  "frame mid payload = Inr bs \<longleftrightarrow>
     blen payload + 1 < 256 ^ 4 \<and> bs = be_bytes 4 (blen payload + 1) @ of_int (mid_value mid) # payload"
  by (auto simp: frame_def pack_uint_def Let_def add.commute split: if_splits)

lemma word_at_packed:
  "pack_uint 4 x = Inr a \<Longrightarrow> i = length pre \<Longrightarrow> word_at (pre @ a @ post) i = x"
  by (auto simp: word_at_def seq_simps dest: be_value_pack)

lemma word_at_packed0: "pack_uint 4 x = Inr a \<Longrightarrow> word_at (a @ post) 0 = x"
  using word_at_packed [of x a 0 "[]" post] by simp

lemma word_at_packed1:
  "pack_uint 4 x = Inr a \<Longrightarrow> pack_uint 4 y = Inr b \<Longrightarrow> word_at (a @ b @ post) 4 = y"
  using word_at_packed [of y b 4 a post] by (auto dest: be_value_pack)

lemma word_at_packed2:
  "pack_uint 4 x = Inr a \<Longrightarrow> pack_uint 4 y = Inr b \<Longrightarrow> pack_uint 4 z = Inr c \<Longrightarrow>
     word_at (a @ b @ c @ post) 8 = z"
  using word_at_packed [of z c 8 "a @ b" post] by (auto dest!: be_value_pack)

lemma pack_word_at: "i + 4 \<le> length d \<Longrightarrow> pack_uint 4 (word_at d i) = Inr (slice i (i + 4) d)"
  by (simp add: word_at_def pack_be_value)

lemma pack_length: "pack_uint k x = Inr a \<Longrightarrow> length a = k"
  by (auto dest: be_value_pack)

text \<open>An encoded message other than a keep-alive is the frame of the payload it decodes from.\<close>

definition payload_of :: "message \<Rightarrow> (message_id \<times> bytes) res" where
  "payload_of m =
     (case m of
        KeepAliveMessage \<Rightarrow> Inl ValueError
      | ChokeMessage \<Rightarrow> Inr (CHOKE, [])
      | UnchokeMessage \<Rightarrow> Inr (UNCHOKE, [])
      | InterestedMessage \<Rightarrow> Inr (INTERESTED, [])
      | NotInterestedMessage \<Rightarrow> Inr (NOT_INTERESTED, [])
      | HaveMessage i \<Rightarrow> bindR (pack_uint 4 i) (\<lambda>p. Inr (HAVE, p))
      | BitfieldMessage b \<Rightarrow> Inr (BITFIELD, b)
      | RequestMessage i b l \<Rightarrow>
          bindR (pack_all [pack_uint 4 i, pack_uint 4 b, pack_uint 4 l]) (\<lambda>p. Inr (REQUEST, p))
      | PieceMessage i b d \<Rightarrow>
          bindR (pack_all [pack_uint 4 i, pack_uint 4 b]) (\<lambda>p. Inr (PIECE, p @ d))
      | CancelMessage i b l \<Rightarrow>
          bindR (pack_all [pack_uint 4 i, pack_uint 4 b, pack_uint 4 l]) (\<lambda>p. Inr (CANCEL, p)))"

lemma encode_message_payload:
  "m \<noteq> KeepAliveMessage \<Longrightarrow> encode_message m = bindR (payload_of m) (\<lambda>(mid, p). frame mid p)"
  by (cases m) (simp_all add: payload_of_def bindR_assoc)

lemma decode_payload: "payload_of m = Inr (mid, p) \<Longrightarrow> decode_message (mid_value mid) p = Inr m"
proof (cases m)
  case (HaveMessage i)
  assume "payload_of m = Inr (mid, p)"
  with HaveMessage show ?thesis
    using word_at_packed0 [of i p "[]"]
    by (auto simp: payload_of_def decode_message_def res_simps mid_of_def dest: pack_length)
next
  case (RequestMessage i b l)
  assume "payload_of m = Inr (mid, p)"
  with RequestMessage obtain x y z where "pack_uint 4 i = Inr x" "pack_uint 4 b = Inr y" "pack_uint 4 l = Inr z"
      "p = x @ y @ z" "mid = REQUEST"
    by (auto simp: payload_of_def res_simps)
  with RequestMessage show ?thesis
    using word_at_packed0 [of i x "y @ z"] word_at_packed1 [of i x b y z] word_at_packed2 [of i x b y l z "[]"]
    by (auto simp: decode_message_def mid_of_def dest!: pack_length)
next
  case (CancelMessage i b l)
  assume "payload_of m = Inr (mid, p)"
  with CancelMessage obtain x y z where "pack_uint 4 i = Inr x" "pack_uint 4 b = Inr y" "pack_uint 4 l = Inr z"
      "p = x @ y @ z" "mid = CANCEL"
    by (auto simp: payload_of_def res_simps)
  with CancelMessage show ?thesis
    using word_at_packed0 [of i x "y @ z"] word_at_packed1 [of i x b y z] word_at_packed2 [of i x b y l z "[]"]
    by (auto simp: decode_message_def mid_of_def dest!: pack_length)
next
  case (PieceMessage i b d)
  assume "payload_of m = Inr (mid, p)"
  with PieceMessage obtain x y where "pack_uint 4 i = Inr x" "pack_uint 4 b = Inr y" "p = x @ y @ d" "mid = PIECE"
    by (auto simp: payload_of_def res_simps)
  with PieceMessage show ?thesis
    using word_at_packed0 [of i x "y @ d"] word_at_packed1 [of i x b y d]
    by (auto simp: decode_message_def mid_of_def dest!: pack_length)
qed (auto simp: payload_of_def decode_message_def mid_of_def)

text \<open>
  Conversely a decoded message has the payload it came from; only the four messages without
  fields ignore what follows their id.
\<close>

definition no_fields :: "message_id \<Rightarrow> bool" where
  "no_fields mid \<longleftrightarrow> mid = CHOKE \<or> mid = UNCHOKE \<or> mid = INTERESTED \<or> mid = NOT_INTERESTED"

lemma payload_decode:
  assumes d: "decode_message i p = Inr m"
  shows "\<exists>mid. mid_value mid = i \<and> payload_of m = Inr (mid, if no_fields mid then [] else p)"
proof -
  from d obtain mid where mid: "mid_of i = Some mid" by (auto simp: decode_message_def split: option.splits)
  have w0: "4 \<le> length p \<Longrightarrow> pack_uint 4 (word_at p 0) = Inr (slice 0 4 p)"
    and w4: "8 \<le> length p \<Longrightarrow> pack_uint 4 (word_at p 4) = Inr (slice 4 8 p)"
    and w8: "12 \<le> length p \<Longrightarrow> pack_uint 4 (word_at p 8) = Inr (slice 8 12 p)"
    using pack_word_at [of 0 p] pack_word_at [of 4 p] pack_word_at [of 8 p] by simp_all
  have s4: "length p = 4 \<Longrightarrow> slice 0 4 p = p" using slice_whole [of p] by simp
  have s8: "slice 0 4 p @ slice 4 8 p @ drop 8 p = p"
    using slice_concat [of 0 4 8 p] append_take_drop_id [of 8 p] by (simp flip: append_assoc) (simp add: slice_def)
  have s12: "length p = 12 \<Longrightarrow> slice 0 4 p @ slice 4 8 p @ slice 8 12 p = p"
    using slice_concat [of 4 8 12 p] slice_concat [of 0 4 12 p] slice_whole [of p] by simp
  have "payload_of m = Inr (mid, if no_fields mid then [] else p)"
    using d mid w0 w4 w8 s4 s8 s12
    by (cases mid) (auto simp: decode_message_def payload_of_def no_fields_def split: if_splits)
  with mid_of_Some [OF mid] show ?thesis by blast
qed

lemma read_message_frame:
  assumes "frame mid p = Inr bs"
  shows "read_message (bs @ rest) = bindR (decode_message (mid_value mid) p) (\<lambda>m. Inr (m, rest))"
proof -
  from assms have l: "blen p + 1 < 256 ^ 4" and bs: "bs = be_bytes 4 (blen p + 1) @ of_int (mid_value mid) # p"
    by (auto simp: res_simps)
  have v: "be_value (be_bytes 4 (blen p + 1)) = blen p + 1"
    using l by (simp add: be_value_be_bytes)
  show ?thesis
    by (simp add: read_message_def bs v nat_add_distrib slice_def)
qed

lemma read_message_encode: "encode_message m = Inr bs \<Longrightarrow> read_message (bs @ rest) = Inr (m, rest)"
proof (cases "m = KeepAliveMessage")
  case True
  assume "encode_message m = Inr bs"
  with True have "bs = [0, 0, 0, 0]" by (simp add: KEEP_ALIVE_BYTES_def)
  with True show ?thesis by (simp add: read_message_def be_value_def)
next
  case False
  assume "encode_message m = Inr bs"
  with False obtain mid p where "payload_of m = Inr (mid, p)" "frame mid p = Inr bs"
    by (auto simp: encode_message_payload res_simps)
  with read_message_frame [of mid p bs rest] decode_payload [of m mid p] show ?thesis by simp
qed

subsection \<open>The framing as a self-delimiting code\<close>

definition message_bytes :: "message \<Rightarrow> bytes" where
  "message_bytes m = (case encode_message m of Inr bs \<Rightarrow> bs | Inl _ \<Rightarrow> [])"

definition sendable :: "message \<Rightarrow> bool" where
  "sendable m \<longleftrightarrow> (\<exists>bs. encode_message m = Inr bs)"

interpretation wc: codec message_bytes read_message sendable "\<lambda>m. m"
  by unfold_locales (auto simp: sendable_def message_bytes_def read_message_encode)

text \<open>Which messages can be sent: those whose fields fit and whose frame is not too long.\<close>

definition u32_ok :: "int \<Rightarrow> bool" where
  "u32_ok x \<longleftrightarrow> 0 \<le> x \<and> x < 2 ^ 32"

fun fits :: "message \<Rightarrow> bool" where
  "fits (HaveMessage i) = u32_ok i"
| "fits (BitfieldMessage b) = u32_ok (blen b + 1)"
| "fits (RequestMessage i b l) = (u32_ok i \<and> u32_ok b \<and> u32_ok l)"
| "fits (PieceMessage i b d) = (u32_ok i \<and> u32_ok b \<and> u32_ok (blen d + 9))"
| "fits (CancelMessage i b l) = (u32_ok i \<and> u32_ok b \<and> u32_ok l)"
| "fits _ = True"

lemma pack4: "pack_uint 4 x = (if u32_ok x then Inr (be_bytes 4 x) else Inl StructError)"
  by (simp add: pack_uint_def u32_ok_def)

lemma frame_eq:
  "frame mid p = (if u32_ok (blen p + 1) then Inr (be_bytes 4 (blen p + 1) @ of_int (mid_value mid) # p)
     else Inl StructError)"
  by (simp add: frame_def pack4 Let_def add.commute)

lemma encode_message_fits: "encode_message m = (if fits m then Inr (message_bytes m) else Inl StructError)"
  by (cases m) (auto simp: message_bytes_def frame_eq pack4 u32_ok_def)

lemma mapR_message_bytes: "mapR encode_message ms = Inr bss \<Longrightarrow>
    bss = map message_bytes ms \<and> (\<forall>m \<in> set ms. sendable m)"
  by (induction ms arbitrary: bss) (auto simp: res_simps message_bytes_def sendable_def)

lemma slice_pieces:
  "68 \<le> length d \<Longrightarrow> slice 0 1 d @ slice 1 20 d @ slice 20 28 d @ slice 28 48 d @ slice 48 68 d @ drop 68 d = d"
  using append_take_drop_id [of 68 d] slice_concat [of 0 1 20 d] slice_concat [of 0 20 28 d]
    slice_concat [of 0 28 48 d] slice_concat [of 0 48 68 d]
  by (simp flip: append_assoc) (simp add: slice_def)

lemma slice_one: "0 < length d \<Longrightarrow> slice 0 1 d = [d ! 0]"
  by (cases d) (simp_all add: slice_def)

lemma parse_handshake_sound:
  assumes "parse_handshake d = Inr (info_hash, peer_id)"
  shows "\<exists>reserved rest. d = 19 # PROTOCOL_NAME @ reserved @ info_hash @ peer_id @ rest \<and>
      length reserved = 8 \<and> length info_hash = 20 \<and> length peer_id = 20"
proof -
  from assms have l: "68 \<le> length d" "unat (d ! 0) = 19" "slice 1 20 d = PROTOCOL_NAME"
      "info_hash = slice 28 48 d" "peer_id = slice 48 68 d"
    by (auto simp: parse_handshake_def HANDSHAKE_LEN_def Let_def split: if_splits)
  have "d ! 0 = 19" by (rule word_unat_eq_iff [THEN iffD2]) (use l(2) in simp)
  then have "slice 0 1 d = [19]" using slice_one [of d] l(1) by (cases d) simp_all
  then have "d = 19 # PROTOCOL_NAME @ slice 20 28 d @ info_hash @ peer_id @ drop 68 d"
    using slice_pieces [OF l(1)] l by simp
  with l(1,4,5) show ?thesis
    by (intro exI [of _ "slice 20 28 d"] exI [of _ "drop 68 d"]) auto
qed

lemma parse_handshake_complete:
  assumes "length reserved = 8" "length info_hash = 20" "length peer_id = 20"
  shows "parse_handshake (19 # PROTOCOL_NAME @ reserved @ info_hash @ peer_id @ rest) = Inr (info_hash, peer_id)"
    (is "parse_handshake ?d = _")
proof -
  have "slice 1 20 ?d = PROTOCOL_NAME" "slice 28 48 ?d = info_hash" "slice 48 68 ?d = peer_id"
    using slice_append_mid [of 1 "[19]" 20 PROTOCOL_NAME "reserved @ info_hash @ peer_id @ rest"]
      slice_append_mid [of 28 "19 # PROTOCOL_NAME @ reserved" 48 info_hash "peer_id @ rest"]
      slice_append_mid [of 48 "19 # PROTOCOL_NAME @ reserved @ info_hash" 68 peer_id rest] assms
    by simp_all
  with assms show ?thesis by (simp add: parse_handshake_def HANDSHAKE_LEN_def)
qed

subsection \<open>Properties\<close>

text \<open>
  C31. A sequence of messages written to the stream one after another is read back as that
  sequence, and reading stops exactly behind the last of them.
\<close>

theorem wire_stream:
  assumes "mapR encode_message ms = Inr bss"
  shows "decode_many read_message (length ms) (concat bss @ rest) = Inr (ms, rest)"
  using wc.decode_many_concat [of ms rest] mapR_message_bytes [OF assms] by simp

theorem wire_stream_witness:
  "decode_many read_message (length [KeepAliveMessage, HaveMessage 256, PieceMessage 2 16384 [255]])
     (concat [[0,0,0,0], [0,0,0,5,4,0,0,1,0], [0,0,0,10,7,0,0,0,2,0,0,64,0,255]] @ [9]) =
     Inr ([KeepAliveMessage, HaveMessage 256, PieceMessage 2 16384 [255]], [9])"
  by (rule wire_stream) (simp add: KEEP_ALIVE_BYTES_def frame_def pack_uint_def be_bytes_numeral)

text \<open>
  \<open>encode\<close> fails only with struct.error, and exactly when a field is outside the 32-bit
  range or the frame is too long for its length prefix.
\<close>

theorem encode_message_total:
  "encode_message m = (if fits m then Inr (message_bytes m) else Inl StructError)"
  by (rule encode_message_fits)

text \<open>
  Decoding loses nothing: a decoded message encodes to the frame it came from, except
  that bytes behind the id of a message without fields are ignored.
\<close>

theorem decode_message_inverse:
  assumes "decode_message i p = Inr m" and "u32_ok (blen p + 1)"
  shows "\<exists>mid. mid_value mid = i \<and> encode_message m = frame mid (if no_fields mid then [] else p) \<and> fits m"
proof -
  from payload_decode [OF assms(1)] obtain mid
    where mid: "mid_value mid = i" "payload_of m = Inr (mid, if no_fields mid then [] else p)" by blast
  then have e: "encode_message m = frame mid (if no_fields mid then [] else p)"
    by (cases "m = KeepAliveMessage") (auto simp: encode_message_payload payload_of_def)
  moreover have "u32_ok 1" by (simp add: u32_ok_def)
  ultimately have "\<exists>bs. encode_message m = Inr bs" using assms(2) by (simp add: frame_eq)
  then have "fits m" by (auto simp: encode_message_fits split: if_splits)
  with mid(1) e show ?thesis by blast
qed

theorem decode_message_inverse_witness:
  "\<exists>mid. mid_value mid = 4 \<and>
     encode_message (HaveMessage 7) = frame mid (if no_fields mid then [] else [0, 0, 0, 7]) \<and>
     fits (HaveMessage 7)"
proof -
  have "decode_message 4 [0, 0, 0, 7] = Inr (HaveMessage 7)"
    by (simp add: decode_message_def mid_of_def word_at_def slice_def be_value_def)
  from decode_message_inverse [OF this] show ?thesis by (simp add: u32_ok_def)
qed

text \<open>
  \<open>parse_handshake\<close> accepts a byte string exactly when it starts with the protocol
  string, eight reserved bytes of any value, and the two 20-byte ids it returns.
\<close>

theorem parse_handshake_iff:
  "parse_handshake d = Inr (info_hash, peer_id) \<longleftrightarrow>
     (\<exists>reserved rest. d = 19 # PROTOCOL_NAME @ reserved @ info_hash @ peer_id @ rest \<and>
        length reserved = 8 \<and> length info_hash = 20 \<and> length peer_id = 20)"
  using parse_handshake_sound parse_handshake_complete by blast

text \<open>
  The handshake the client builds is 68 bytes long, is accepted by \<open>parse_handshake\<close>,
  whatever follows it, and gives the two ids back.
\<close>

theorem handshake_roundtrip:
  assumes "build_handshake info_hash peer_id = Inr hs"
  shows "length hs = HANDSHAKE_LEN \<and> parse_handshake (hs @ rest) = Inr (info_hash, peer_id)"
proof -
  from assms have l: "length info_hash = 20" "length peer_id = 20"
      and hs: "hs = 19 # PROTOCOL_NAME @ replicate 8 0 @ info_hash @ peer_id"
    by (auto simp: build_handshake_def split: if_splits)
  from parse_handshake_complete [of "replicate 8 0" info_hash peer_id rest] l
  have "parse_handshake (hs @ rest) = Inr (info_hash, peer_id)"
    unfolding hs append_Cons append_assoc by simp
  moreover have "length hs = 68" using l by (simp add: hs)
  ultimately show ?thesis by (simp add: HANDSHAKE_LEN_def)
qed

theorem handshake_roundtrip_witness:
  "length (19 # PROTOCOL_NAME @ replicate 8 0 @ replicate 20 1 @ replicate 20 2) = HANDSHAKE_LEN \<and>
   parse_handshake ((19 # PROTOCOL_NAME @ replicate 8 0 @ replicate 20 1 @ replicate 20 2) @ [7]) =
     Inr (replicate 20 1, replicate 20 2)"
  by (rule handshake_roundtrip) (simp add: build_handshake_def)

end
