(* ===== verification/Sha1.thy ===== *)
theory Sha1
  imports PyStruct
begin

section \<open>SHA-1\<close>

text \<open>
  \<open>hashlib.sha1(d).digest()\<close>, as FIPS 180-4 defines it.  The client uses the digest as an
  opaque 20-byte fingerprint, so the only fact the other theories use is its length.  The
  32-bit words of the algorithm are integers in \<open>[0, 2^32)\<close> with the wrap-around written out.
\<close>

unbundle bit_operations_syntax

definition add32 :: "int \<Rightarrow> int \<Rightarrow> int" where
  "add32 x y = (x + y) mod 0x100000000"

definition rotl :: "nat \<Rightarrow> int \<Rightarrow> int" where
  "rotl n x = push_bit n x mod 0x100000000 OR drop_bit (32 - n) x"

definition sha1_pad :: "bytes \<Rightarrow> bytes" where
  "sha1_pad m = m @ [128] @ replicate ((119 - length m mod 64) mod 64) 0 @ be_bytes 8 (8 * blen m)"

text \<open>The big-endian 32-bit words of a byte string.\<close>

fun words_of :: "bytes \<Rightarrow> int list" where
  "words_of (a # b # c # d # bs) = be_value [a, b, c, d] # words_of bs"
| "words_of _ = []"

text \<open>The message schedule: 64 more words, the newest first while it is being built.\<close>

fun schedule :: "nat \<Rightarrow> int list \<Rightarrow> int list" where
  "schedule 0 ws = rev ws"
| "schedule (Suc n) ws =
     schedule n (rotl 1 (ws ! 2 XOR ws ! 7 XOR ws ! 13 XOR ws ! 15) # ws)"

definition round_fun :: "int \<Rightarrow> int \<Rightarrow> int \<Rightarrow> int \<Rightarrow> int \<times> int" where
  "round_fun t b c d =
     (if t < 20 then ((b AND c) OR (NOT b AND d), 0x5A827999)
      else if t < 40 then (b XOR c XOR d, 0x6ED9EBA1)
      else if t < 60 then ((b AND c) OR (b AND d) OR (c AND d), 0x8F1BBCDC)
      else (b XOR c XOR d, 0xCA62C1D6))"

type_synonym sha_state = "int \<times> int \<times> int \<times> int \<times> int"

fun rounds :: "int \<Rightarrow> int list \<Rightarrow> sha_state \<Rightarrow> sha_state" where
  "rounds t [] s = s"
| "rounds t (w # ws) (a, b, c, d, e) =
     (let (f, k) = round_fun t b c d
      in rounds (t + 1) ws (add32 (rotl 5 a) (add32 f (add32 e (add32 k w))), a, rotl 30 b, c, d))"

definition compress :: "sha_state \<Rightarrow> int list \<Rightarrow> sha_state" where
  "compress s ws =
     (case s of (h0, h1, h2, h3, h4) \<Rightarrow>
      case rounds 0 (schedule 64 (rev ws)) s of (a, b, c, d, e) \<Rightarrow>
        (add32 h0 a, add32 h1 b, add32 h2 c, add32 h3 d, add32 h4 e))"

function sha1_blocks :: "sha_state \<Rightarrow> int list \<Rightarrow> sha_state" where
  "sha1_blocks s ws = (if ws = [] then s else sha1_blocks (compress s (take 16 ws)) (drop 16 ws))"
  by pat_completeness auto
termination
  by (relation "measure (\<lambda>(s, ws). length ws)") auto

declare sha1_blocks.simps [simp del]

definition sha1_init :: sha_state where
  "sha1_init = (0x67452301, 0xEFCDAB89, 0x98BADCFE, 0x10325476, 0xC3D2E1F0)"

definition sha1 :: "bytes \<Rightarrow> bytes" where
  "sha1 m =
     (case sha1_blocks sha1_init (words_of (sha1_pad m)) of (h0, h1, h2, h3, h4) \<Rightarrow>
        be_bytes 4 h0 @ be_bytes 4 h1 @ be_bytes 4 h2 @ be_bytes 4 h3 @ be_bytes 4 h4)"

lemma length_sha1 [simp]: "length (sha1 m) = 20"
  by (simp add: sha1_def split: prod.splits)

end
