(* ===== verification/Pieces.thy ===== *)
theory Pieces
  imports PeerWire Sha1
begin

section \<open>One piece (client/modules/pieceManager.py, class Piece)\<close>

text \<open>
  A piece collects blocks in a dictionary from offsets to bytes, counts the bytes of the
  offsets it had not seen, and is checked against its SHA-1 hash once the count reaches its
  length.  The block grid of a piece is the tiling that \<open>missing_blocks\<close> walks along.
\<close>

datatype piece_state = NEEDED | PENDING | COMPLETE | FAILED

record piece =
  p_index :: int
  p_length :: int
  p_hash :: bytes
  p_state :: piece_state
  p_blocks :: "(int, bytes) dict"
  p_received :: int

definition make_piece :: "int \<Rightarrow> int \<Rightarrow> bytes \<Rightarrow> piece res" where
  "make_piece index len expected_hash =
     (if length expected_hash \<noteq> 20 then Inl ValueError
      else if len \<le> 0 then Inl ValueError
      else Inr \<lparr>p_index = index, p_length = len, p_hash = expected_hash, p_state = NEEDED,
                p_blocks = [], p_received = 0\<rparr>)"

definition piece_add_block :: "piece \<Rightarrow> int \<Rightarrow> bytes \<Rightarrow> piece res" where
  "piece_add_block p offset data =
     (if offset < 0 \<or> offset \<ge> p_length p then Inl ValueError
      else if offset + blen data > p_length p then Inl ValueError
      else Inr (p\<lparr>p_received :=
                    (if dict_get (p_blocks p) offset = None then p_received p + blen data
                     else p_received p),
                  p_blocks := dict_set offset data (p_blocks p)\<rparr>))"

definition is_complete_raw :: "piece \<Rightarrow> bool" where
  "is_complete_raw p \<longleftrightarrow> p_received p \<ge> p_length p"

text \<open>The loop of \<open>missing_blocks\<close>, from one offset to the end of the piece.\<close>

function missing_from :: "int \<Rightarrow> (int, bytes) dict \<Rightarrow> int \<Rightarrow> (int \<times> int) list" where
  "missing_from len blocks offset =
     (if offset < len then
        let size = min BLOCK_SIZE (len - offset)
        in (if dict_get blocks offset = None then [(offset, size)] else [])
             @ missing_from len blocks (offset + size)
      else [])"
  by pat_completeness auto
termination
  by (relation "measure (\<lambda>(len, blocks, offset). nat (len - offset))") (auto simp: BLOCK_SIZE_def)

declare missing_from.simps [simp del]

definition missing_blocks :: "piece \<Rightarrow> (int \<times> int) list" where
  "missing_blocks p = missing_from (p_length p) (p_blocks p) 0"

definition assemble :: "piece \<Rightarrow> bytes" where
  "assemble p = concat (map (\<lambda>off. the (dict_get (p_blocks p) off)) (sort (map fst (p_blocks p))))"

definition piece_reset :: "piece \<Rightarrow> piece" where
  "piece_reset p = p\<lparr>p_blocks := [], p_received := 0, p_state := NEEDED\<rparr>"

definition piece_verify :: "piece \<Rightarrow> bool \<times> piece" where
  "piece_verify p =
     (if \<not> is_complete_raw p then (False, p)
      else if sha1 (assemble p) = p_hash p then (True, p\<lparr>p_state := COMPLETE\<rparr>)
      else (False, piece_reset (p\<lparr>p_state := FAILED\<rparr>)))"

definition piece_data :: "piece \<Rightarrow> bytes res" where
  "piece_data p = (if p_state p \<noteq> COMPLETE then Inl RuntimeError else Inr (assemble p))"

definition num_blocks :: "piece \<Rightarrow> int" where
  "num_blocks p = (p_length p + BLOCK_SIZE - 1) div BLOCK_SIZE"

subsection \<open>The block grid\<close>

definition grid :: "int \<Rightarrow> (int \<times> int) list" where
  "grid len = missing_from len [] 0"

text \<open>Adjacent blocks from \<open>a\<close> to \<open>b\<close>, each of them non-empty and at most a block long.\<close>

fun tiles :: "int \<Rightarrow> int \<Rightarrow> (int \<times> int) list \<Rightarrow> bool" where
  "tiles a b [] \<longleftrightarrow> a = b"
| "tiles a b ((off, sz) # bs) \<longleftrightarrow> off = a \<and> 0 < sz \<and> sz \<le> BLOCK_SIZE \<and> tiles (a + sz) b bs"

lemma missing_from_tiles: "offset \<le> len \<Longrightarrow> tiles offset len (missing_from len [] offset)"
proof (induction len "[] :: (int, bytes) dict" offset rule: missing_from.induct)
  case (1 len offset)
  then show ?case
    by (subst missing_from.simps) (auto simp: Let_def BLOCK_SIZE_def)
qed

lemma grid_tiles: "0 \<le> len \<Longrightarrow> tiles 0 len (grid len)"
  by (simp add: grid_def missing_from_tiles)

lemma missing_from_filter:
  "missing_from len blocks offset =
     filter (\<lambda>(off, sz). dict_get blocks off = None) (missing_from len [] offset)"
proof (induction len blocks offset rule: missing_from.induct)
  case (1 len blocks offset)
  show ?case
  proof (cases "offset < len")
    case True
    let ?s = "min BLOCK_SIZE (len - offset)"
    have "missing_from len [] offset = (offset, ?s) # missing_from len [] (offset + ?s)"
      using True by (subst missing_from.simps) (simp add: Let_def)
    with "1.IH" [OF True refl] True show ?thesis
      by (subst missing_from.simps) (simp add: Let_def)
  next
    case False
    then show ?thesis by (simp add: missing_from.simps)
  qed
qed

lemma missing_blocks_filter:
  "missing_blocks p = filter (\<lambda>(off, sz). dict_get (p_blocks p) off = None) (grid (p_length p))"
  unfolding missing_blocks_def grid_def by (rule missing_from_filter)

lemma tiles_le: "tiles a b bs \<Longrightarrow> a \<le> b"
  by (induction a b bs rule: tiles.induct) auto

lemma tiles_mem: "tiles a b bs \<Longrightarrow> (off, sz) \<in> set bs \<Longrightarrow> a \<le> off \<and> off + sz \<le> b \<and> 0 < sz \<and> sz \<le> BLOCK_SIZE"
  by (induction a b bs rule: tiles.induct) (auto dest: tiles_le)

lemma tiles_sum: "tiles a b bs \<Longrightarrow> sum_list (map snd bs) = b - a"
  by (induction a b bs rule: tiles.induct) auto

lemma tiles_sorted: "tiles a b bs \<Longrightarrow> sorted (map fst bs) \<and> distinct (map fst bs)"
  by (induction a b bs rule: tiles.induct) (fastforce dest: tiles_mem)+

lemma tiles_concat:
  "tiles a b bs \<Longrightarrow> 0 \<le> a \<Longrightarrow>
     concat (map (\<lambda>(off, sz). slice (nat off) (nat (off + sz)) d) bs) = slice (nat a) (nat b) d"
proof (induction a b bs rule: tiles.induct)
  case (2 a b off sz bs)
  then have "a + sz \<le> b" using tiles_le by auto
  with 2 show ?case
    using slice_concat [of "nat a" "nat (a + sz)" "nat b" d] by (simp add: nat_mono)
qed (simp add: slice_def)

lemma ceil_div_step:
  assumes "0 < c" "0 < x"
  shows "(x + c - 1) div c = 1 + (x - min c x + c - 1) div (c::int)"
proof -
  have e: "(x + c - 1) div c = (x - 1) div c + 1"
    using assms(1) div_add_self2 [of c "x - 1"] by (simp add: algebra_simps)
  show ?thesis
  proof (cases "c \<le> x")
    case True
    then show ?thesis using e by (simp add: min_def)
  next
    case False
    with assms have "(x - 1) div c = 0" "(c - 1) div c = 0" by (simp_all add: div_pos_pos_trivial)
    with False e show ?thesis by (simp add: min_def)
  qed
qed

lemma length_missing_from:
  "offset \<le> len \<Longrightarrow>
     int (length (missing_from len [] offset)) = (len - offset + BLOCK_SIZE - 1) div BLOCK_SIZE"
proof (induction len "[] :: (int, bytes) dict" offset rule: missing_from.induct)
  case (1 len offset)
  show ?case
  proof (cases "offset < len")
    case True
    let ?s = "min BLOCK_SIZE (len - offset)"
    have "int (length (missing_from len [] (offset + ?s))) = (len - (offset + ?s) + BLOCK_SIZE - 1) div BLOCK_SIZE"
      using "1.hyps" [OF True refl] True by simp
    moreover have "(len - offset + BLOCK_SIZE - 1) div BLOCK_SIZE = 1 + (len - (offset + ?s) + BLOCK_SIZE - 1) div BLOCK_SIZE"
      using ceil_div_step [of BLOCK_SIZE "len - offset"] True by (simp add: BLOCK_SIZE_def algebra_simps)
    ultimately show ?thesis using True by (subst missing_from.simps) (simp add: Let_def)
  next
    case False
    with "1.prems" show ?thesis by (simp add: missing_from.simps BLOCK_SIZE_def)
  qed
qed

subsection \<open>Blocks of the right data\<close>

text \<open>
  A piece is honest for data \<open>d\<close> when every block it holds is a block of the grid with the
  bytes \<open>d\<close> has there, as when all senders send what they were asked for.
\<close>

definition block_of :: "bytes \<Rightarrow> int \<times> int \<Rightarrow> bytes" where
  "block_of d g = slice (nat (fst g)) (nat (fst g + snd g)) d"

definition honest :: "bytes \<Rightarrow> piece \<Rightarrow> bool" where
  "honest d p \<longleftrightarrow> p_length p = blen d \<and> dict_ok (p_blocks p) \<and>
     (\<forall>(off, b) \<in> set (p_blocks p). (off, blen b) \<in> set (grid (blen d)) \<and> b = block_of d (off, blen b)) \<and>
     p_received p = sum_list (map (\<lambda>q. blen (snd q)) (p_blocks p))"

lemma grid_mem: "(off, sz) \<in> set (grid (blen d)) \<Longrightarrow> 0 \<le> off \<and> 0 < sz \<and> sz \<le> BLOCK_SIZE \<and> off + sz \<le> blen d"
  using tiles_mem [OF grid_tiles [of "blen d"]] by auto

lemma grid_unique: "(off, sz) \<in> set (grid (blen d)) \<Longrightarrow> (off, sz') \<in> set (grid (blen d)) \<Longrightarrow> sz = sz'"
  using tiles_sorted [OF grid_tiles [of "blen d"]] by (meson eq_key_imp_eq_value of_nat_0_le_iff)

lemma blen_block_of: "g \<in> set (grid (blen d)) \<Longrightarrow> blen (block_of d g) = snd g"
  using grid_mem [of "fst g" "snd g" d] by (simp add: block_of_def) linarith

lemma honest_fresh: "p_length p = blen d \<Longrightarrow> p_blocks p = [] \<Longrightarrow> p_received p = 0 \<Longrightarrow> honest d p"
  by (simp add: honest_def)

lemma sum_blocks_set:
  assumes "dict_ok bs"
  shows "sum_list (map (\<lambda>q. blen (snd q)) bs) = (\<Sum>q \<in> set bs. blen (snd q))"
  using assms by (intro sum_list_distinct_conv_sum_set) (auto simp: dict_ok_def distinct_map)

lemma sum_dict_set:
  assumes "dict_ok bs"
  shows "sum_list (map (\<lambda>q. blen (snd q)) (dict_set k v bs)) =
    sum_list (map (\<lambda>q. blen (snd q)) bs) + blen v - (case dict_get bs k of None \<Rightarrow> 0 | Some w \<Rightarrow> blen w)"
  using assms
proof (induction bs)
  case (Cons a bs)
  then show ?case by (cases a) (auto simp: dict_ok_def)
qed simp

lemma honest_add:
  assumes h: "honest d p" and g: "(off, sz) \<in> set (grid (blen d))"
  shows "\<exists>p'. piece_add_block p off (block_of d (off, sz)) = Inr p' \<and> honest d p' \<and>
    p' = p\<lparr>p_received := p_received p', p_blocks := dict_set off (block_of d (off, sz)) (p_blocks p)\<rparr>"
proof -
  let ?b = "block_of d (off, sz)"
  have len: "blen ?b = sz" using blen_block_of [OF g] by simp
  have r: "\<not> (off < 0 \<or> off \<ge> p_length p)" "\<not> off + blen ?b > p_length p"
    using grid_mem [OF g] h len by (auto simp: honest_def)
  have ok: "dict_ok (p_blocks p)" using h by (simp add: honest_def)
  have old: "blen w = sz" if "dict_get (p_blocks p) off = Some w" for w
  proof -
    have "(off, w) \<in> set (p_blocks p)" using that ok by (simp add: dict_get_mem)
    then have "(off, blen w) \<in> set (grid (blen d))" using h by (auto simp: honest_def)
    with g show ?thesis using grid_unique by blast
  qed
  let ?p' = "p\<lparr>p_received := (if dict_get (p_blocks p) off = None then p_received p + blen ?b else p_received p),
               p_blocks := dict_set off ?b (p_blocks p)\<rparr>"
  have "piece_add_block p off ?b = Inr ?p'" using r by (simp add: piece_add_block_def)
  moreover have "honest d ?p'"
    using h g len old ok
    by (auto simp: honest_def set_dict_set sum_dict_set split: option.splits)
  ultimately show ?thesis by (intro exI [of _ ?p']) simp
qed

lemma honest_blocks_inj:
  assumes "honest d p"
  shows "inj_on (\<lambda>q. (fst q, blen (snd q))) (set (p_blocks p))"
proof (rule inj_onI)
  have ok: "dict_ok (p_blocks p)" using assms by (simp add: honest_def)
  fix q r assume "q \<in> set (p_blocks p)" "r \<in> set (p_blocks p)" "(fst q, blen (snd q)) = (fst r, blen (snd r))"
  with ok show "q = r"
    unfolding dict_ok_def by (metis eq_key_imp_eq_value fst_conv prod.collapse)
qed

lemma honest_blocks_grid:
  assumes "honest d p"
  shows "(\<lambda>q. (fst q, blen (snd q))) ` set (p_blocks p) = {g \<in> set (grid (blen d)). fst g \<in> fst ` set (p_blocks p)}"
proof (intro equalityI subsetI)
  fix g assume "g \<in> {g \<in> set (grid (blen d)). fst g \<in> fst ` set (p_blocks p)}"
  then obtain b where g: "g \<in> set (grid (blen d))" and b: "(fst g, b) \<in> set (p_blocks p)" by auto
  then have "(fst g, blen b) \<in> set (grid (blen d))" using assms by (auto simp: honest_def)
  moreover have "(fst g, snd g) \<in> set (grid (blen d))" using g by simp
  ultimately have "snd g = blen b" using grid_unique by blast
  with b show "g \<in> (\<lambda>q. (fst q, blen (snd q))) ` set (p_blocks p)"
    by (intro image_eqI [of _ _ "(fst g, b)"]) (simp_all add: prod_eq_iff)
next
  fix g assume "g \<in> (\<lambda>q. (fst q, blen (snd q))) ` set (p_blocks p)"
  then obtain off b where b: "(off, b) \<in> set (p_blocks p)" and g: "g = (off, blen b)" by auto
  from b assms have "(off, blen b) \<in> set (grid (blen d))" by (auto simp: honest_def)
  with b show "g \<in> {g \<in> set (grid (blen d)). fst g \<in> fst ` set (p_blocks p)}" unfolding g by force
qed

lemma honest_received:
  assumes "honest d p"
  shows "p_received p = blen d - sum_list (map snd (missing_blocks p))"
proof -
  let ?G = "grid (blen d)" and ?K = "fst ` set (p_blocks p)"
  have ok: "dict_ok (p_blocks p)" using assms by (simp add: honest_def)
  have dG: "distinct (map fst ?G)" using tiles_sorted [OF grid_tiles [of "blen d"]] by simp
  have K: "dict_get (p_blocks p) off = None \<longleftrightarrow> off \<notin> ?K" for off
    by (auto simp: map_of_eq_None_iff)
  note inj = honest_blocks_inj [OF assms] and img = honest_blocks_grid [OF assms]
  have "p_received p = (\<Sum>q \<in> set (p_blocks p). blen (snd q))"
    using assms sum_blocks_set [OF ok] unfolding honest_def by argo
  also have "\<dots> = (\<Sum>g \<in> {g \<in> set ?G. fst g \<in> ?K}. snd g)"
    using sum.reindex [OF inj, of snd] unfolding img comp_def snd_conv by (rule sym)
  also have "\<dots> = (\<Sum>g \<in> set ?G. snd g) - (\<Sum>g \<in> {g \<in> set ?G. fst g \<notin> ?K}. snd g)"
  proof -
    have "set ?G \<inter> {g. fst g \<in> ?K} = {g \<in> set ?G. fst g \<in> ?K}"
      "set ?G - {g. fst g \<in> ?K} = {g \<in> set ?G. fst g \<notin> ?K}" by blast+
    with sum.Int_Diff [of "set ?G" snd "{g. fst g \<in> ?K}"] show ?thesis by simp
  qed
  also have "(\<Sum>g \<in> set ?G. snd g) = blen d"
    using tiles_sum [OF grid_tiles [of "blen d"]] sum_list_distinct_conv_sum_set [of ?G snd] dG
    by (simp add: distinct_map)
  also have "(\<Sum>g \<in> {g \<in> set ?G. fst g \<notin> ?K}. snd g) = sum_list (map snd (missing_blocks p))"
  proof -
    have "missing_blocks p = filter (\<lambda>g. fst g \<notin> ?K) ?G"
      using assms unfolding missing_blocks_filter case_prod_unfold K by (simp add: honest_def)
    moreover have "distinct (filter (\<lambda>g. fst g \<notin> ?K) ?G)" using dG by (simp add: distinct_map)
    ultimately show ?thesis using sum_list_distinct_conv_sum_set [of "filter (\<lambda>g. fst g \<notin> ?K) ?G" snd] by simp
  qed
  finally show ?thesis .
qed

lemma sum_list_pos:
  "xs \<noteq> [] \<Longrightarrow> (\<And>g. g \<in> set xs \<Longrightarrow> 0 < snd g) \<Longrightarrow> 0 < sum_list (map snd (xs :: ('a \<times> int) list))"
proof (induction xs rule: list_nonempty_induct)
  case (cons x xs)
  then have "0 < snd x" "0 < sum_list (map snd xs)" by simp_all
  then show ?case by simp
qed simp

lemma honest_complete: "honest d p \<Longrightarrow> is_complete_raw p \<longleftrightarrow> missing_blocks p = []"
proof -
  assume h: "honest d p"
  have pos: "0 < snd g" if "g \<in> set (missing_blocks p)" for g
    using that h grid_mem [of "fst g" "snd g" d] by (auto simp: missing_blocks_filter honest_def)
  have "0 < sum_list (map snd (missing_blocks p))" if "missing_blocks p \<noteq> []"
    using that pos by (rule sum_list_pos)
  moreover have "is_complete_raw p \<longleftrightarrow> sum_list (map snd (missing_blocks p)) \<le> 0"
    using honest_received [OF h] h by (simp only: is_complete_raw_def honest_def) linarith
  ultimately show ?thesis by (cases "missing_blocks p = []") auto
qed

lemma honest_assemble:
  assumes "honest d p" "missing_blocks p = []"
  shows "assemble p = d"
proof -
  let ?G = "grid (blen d)"
  have ok: "dict_ok (p_blocks p)" using assms(1) by (simp add: honest_def)
  have t: "tiles 0 (blen d) ?G" by (simp add: grid_tiles)
  have some: "dict_get (p_blocks p) (fst g) \<noteq> None" if "g \<in> set ?G" for g
    using that assms by (auto simp: missing_blocks_filter honest_def filter_empty_conv)
  have blk: "dict_get (p_blocks p) (fst g) = Some (block_of d g)" if g: "g \<in> set ?G" for g
  proof -
    from some [OF g] obtain b where b: "dict_get (p_blocks p) (fst g) = Some b" by blast
    then have "(fst g, b) \<in> set (p_blocks p)" using ok by (simp add: dict_get_mem)
    then have "(fst g, blen b) \<in> set ?G" "b = block_of d (fst g, blen b)"
      using assms(1) by (auto simp: honest_def)
    moreover have "(fst g, snd g) \<in> set ?G" using g by simp
    ultimately have "blen b = snd g" "b = block_of d (fst g, blen b)"
      using grid_unique by blast+
    with b show ?thesis by simp
  qed
  have "set (map fst ?G) \<subseteq> set (map fst (p_blocks p))"
  proof
    fix off assume "off \<in> set (map fst ?G)"
    then obtain g where "g \<in> set ?G" "off = fst g" by auto
    with some have "dict_get (p_blocks p) off \<noteq> None" by blast
    then show "off \<in> set (map fst (p_blocks p))" by (simp add: map_of_eq_None_iff)
  qed
  moreover have "set (map fst (p_blocks p)) \<subseteq> set (map fst ?G)"
    using assms(1) by (force simp: honest_def)
  ultimately have "set (map fst (p_blocks p)) = set (map fst ?G)" by auto
  then have "sort (map fst (p_blocks p)) = map fst ?G"
    using tiles_sorted [OF t] ok by (intro sorted_distinct_set_unique) (auto simp: dict_ok_def)
  then have "assemble p = concat (map (\<lambda>g. the (dict_get (p_blocks p) (fst g))) ?G)"
    by (simp add: assemble_def comp_def)
  also have "\<dots> = concat (map (\<lambda>(off, sz). slice (nat off) (nat (off + sz)) d) ?G)"
    using blk by (intro arg_cong [where f = concat] map_cong) (auto simp: block_of_def)
  also have "\<dots> = d" using tiles_concat [OF t, of d] by simp
  finally show ?thesis .
qed

end
