(* ===== verification/PieceManager.thy ===== *)
theory PieceManager
  imports Pieces
begin

section \<open>The piece manager (client/modules/pieceManager.py, class PieceManager)\<close>

text \<open>
  All pieces of a torrent, what each connected peer has, and the pieces that are being
  requested.  Python's sets of piece numbers are sets here; where the code iterates over one
  (\<open>select_piece\<close>) the order is the argument \<open>itr\<close>, any listing of the set without repetition
  (\<open>set_order\<close>), since the language promises no particular order.
\<close>

unbundle bit_operations_syntax

subsection \<open>State and operations\<close>

record piece_manager =
  pm_piece_length :: int
  pm_total_length :: int
  pm_num_pieces :: int
  pm_pieces :: "piece list"
  pm_peer_pieces :: "(bytes, int set) dict"
  pm_pending :: "int set"

definition set_order :: "(int set \<Rightarrow> int list) \<Rightarrow> bool" where
  "set_order itr \<longleftrightarrow> (\<forall>S. finite S \<longrightarrow> set (itr S) = S \<and> distinct (itr S))"

text \<open>\<open>__init__\<close>: the last piece takes what is left of the total length.\<close>

definition piece_length_at :: "int \<Rightarrow> int \<Rightarrow> int \<Rightarrow> int \<Rightarrow> int res" where
  "piece_length_at n piece_length total_length i =
     (if i < n - 1 then Inr piece_length
      else if piece_length = 0 then Inl ZeroDivisionError
      else let remainder = total_length mod piece_length
           in Inr (if remainder > 0 then remainder else piece_length))"

definition make_manager :: "bytes list \<Rightarrow> int \<Rightarrow> int \<Rightarrow> piece_manager res" where
  "make_manager piece_hashes piece_length total_length =
     (let n = blen piece_hashes in
      bindR (mapR (\<lambda>(i, h). bindR (piece_length_at n piece_length total_length (int i))
                              (\<lambda>len. make_piece (int i) len h))
               (enumerate 0 piece_hashes))
        (\<lambda>pieces. Inr \<lparr>pm_piece_length = piece_length, pm_total_length = total_length,
           pm_num_pieces = n, pm_pieces = pieces, pm_peer_pieces = [], pm_pending = {}\<rparr>))"

text \<open>The pieces a bitfield announces; bits beyond the last piece are dropped.\<close>

definition bitfield_pieces :: "int \<Rightarrow> bytes \<Rightarrow> int set" where
  "bitfield_pieces n bf =
     set (concat (map (\<lambda>(byte_i, byte_val).
       map (\<lambda>bit_i. int byte_i * 8 + (7 - int bit_i))
         (filter (\<lambda>bit_i. int byte_i * 8 + (7 - int bit_i) < n \<and> drop_bit bit_i byte_val AND 1 \<noteq> 0)
            [0..<8]))
       (enumerate 0 bf)))"

definition on_peer_bitfield :: "bytes \<Rightarrow> bytes \<Rightarrow> piece_manager \<Rightarrow> piece_manager" where
  "on_peer_bitfield peer_id bf pm =
     pm\<lparr>pm_peer_pieces := dict_set peer_id (bitfield_pieces (pm_num_pieces pm) bf) (pm_peer_pieces pm)\<rparr>"

definition peer_set :: "piece_manager \<Rightarrow> bytes \<Rightarrow> int set" where
  "peer_set pm peer_id = (case dict_get (pm_peer_pieces pm) peer_id of None \<Rightarrow> {} | Some S \<Rightarrow> S)"

definition on_peer_have :: "bytes \<Rightarrow> int \<Rightarrow> piece_manager \<Rightarrow> piece_manager" where
  "on_peer_have peer_id piece_index pm =
     pm\<lparr>pm_peer_pieces := dict_set peer_id (insert piece_index (peer_set pm peer_id)) (pm_peer_pieces pm)\<rparr>"

definition remove_peer :: "bytes \<Rightarrow> piece_manager \<Rightarrow> piece_manager" where
  "remove_peer peer_id pm = pm\<lparr>pm_peer_pieces := dict_pop peer_id (pm_peer_pieces pm)\<rparr>"

definition peer_has_piece :: "piece_manager \<Rightarrow> bytes \<Rightarrow> int \<Rightarrow> bool" where
  "peer_has_piece pm peer_id piece_index \<longleftrightarrow> piece_index \<in> peer_set pm peer_id"

definition put_piece :: "nat \<Rightarrow> piece \<Rightarrow> piece_manager \<Rightarrow> piece_manager" where
  "put_piece j p pm = pm\<lparr>pm_pieces := (pm_pieces pm)[j := p]\<rparr>"

text \<open>The candidate list: reading the state of a piece that does not exist is IndexError.\<close>

fun candidates :: "piece_manager \<Rightarrow> int list \<Rightarrow> int list res" where
  "candidates pm [] = Inr []"
| "candidates pm (i # is) =
     bindR (py_get (pm_pieces pm) i) (\<lambda>p.
       bindR (candidates pm is) (\<lambda>cs.
         Inr (if p_state p = NEEDED \<and> i \<notin> pm_pending pm then i # cs else cs)))"

definition rarity :: "piece_manager \<Rightarrow> int \<Rightarrow> nat" where
  "rarity pm piece_index = length (filter (\<lambda>q. piece_index \<in> snd q) (pm_peer_pieces pm))"

text \<open>\<open>min(xs, key=f)\<close>: the first element with the least key.\<close>

fun min_by :: "('a \<Rightarrow> nat) \<Rightarrow> 'a \<Rightarrow> 'a list \<Rightarrow> 'a" where
  "min_by f best [] = best"
| "min_by f best (x # xs) = min_by f (if f x < f best then x else best) xs"

definition select_piece :: "(int set \<Rightarrow> int list) \<Rightarrow> bytes \<Rightarrow> piece_manager \<Rightarrow> (int option \<times> piece_manager) res" where
  "select_piece itr peer_id pm =
     bindR (candidates pm (itr (peer_set pm peer_id))) (\<lambda>cs.
       case cs of
         [] \<Rightarrow> Inr (None, pm)
       | c # cs' \<Rightarrow>
           let rarest_index = min_by (rarity pm) c cs' in
           bindR (py_index (length (pm_pieces pm)) rarest_index) (\<lambda>j.
             Inr (Some rarest_index,
                  (put_piece j ((pm_pieces pm ! j)\<lparr>p_state := PENDING\<rparr>) pm)
                    \<lparr>pm_pending := insert rarest_index (pm_pending pm)\<rparr>)))"

definition next_block_request :: "piece_manager \<Rightarrow> int \<Rightarrow> (int \<times> int \<times> int) option res" where
  "next_block_request pm piece_index =
     bindR (py_get (pm_pieces pm) piece_index) (\<lambda>p.
       case missing_blocks p of
         [] \<Rightarrow> Inr None
       | (off, len) # _ \<Rightarrow> Inr (Some (piece_index, off, len)))"

definition add_block :: "int \<Rightarrow> int \<Rightarrow> bytes \<Rightarrow> piece_manager \<Rightarrow> (bool \<times> piece_manager) res" where
  "add_block piece_index offset data pm =
     bindR (py_index (length (pm_pieces pm)) piece_index) (\<lambda>j.
       bindR (piece_add_block (pm_pieces pm ! j) offset data) (\<lambda>p.
         if is_complete_raw p then
           let (ok, p') = piece_verify p
           in Inr (ok, (put_piece j p' pm)\<lparr>pm_pending := pm_pending pm - {piece_index}\<rparr>)
         else Inr (False, put_piece j p pm)))"

definition mark_piece_failed :: "int \<Rightarrow> piece_manager \<Rightarrow> piece_manager res" where
  "mark_piece_failed piece_index pm =
     bindR (py_index (length (pm_pieces pm)) piece_index) (\<lambda>j.
       Inr ((put_piece j (piece_reset (pm_pieces pm ! j)) pm)
              \<lparr>pm_pending := pm_pending pm - {piece_index}\<rparr>))"

definition num_complete :: "piece_manager \<Rightarrow> int" where
  "num_complete pm = blen (filter (\<lambda>p. p_state p = COMPLETE) (pm_pieces pm))"

definition num_needed :: "piece_manager \<Rightarrow> int" where
  "num_needed pm = blen (filter (\<lambda>p. p_state p = NEEDED) (pm_pieces pm))"

definition is_done :: "piece_manager \<Rightarrow> bool" where
  "is_done pm \<longleftrightarrow> num_complete pm = pm_num_pieces pm"

definition get_bitfield :: "piece_manager \<Rightarrow> bytes" where
  "get_bitfield pm =
     fold (\<lambda>(i, p) bf.
         if p_state p = COMPLETE then bf[i div 8 := bf ! (i div 8) OR push_bit (7 - i mod 8) 1] else bf)
       (enumerate 0 (pm_pieces pm)) (replicate (nat ((pm_num_pieces pm + 7) div 8)) 0)"

definition get_piece_data :: "piece_manager \<Rightarrow> int \<Rightarrow> bytes res" where
  "get_piece_data pm piece_index = bindR (py_get (pm_pieces pm) piece_index) piece_data"

subsection \<open>The invariant\<close>

definition piece_ok :: "piece \<Rightarrow> bool" where
  "piece_ok p \<longleftrightarrow> 0 < p_length p \<and> length (p_hash p) = 20 \<and> dict_ok (p_blocks p) \<and>
     (\<forall>(off, b) \<in> set (p_blocks p). 0 \<le> off \<and> off < p_length p \<and> off + blen b \<le> p_length p) \<and>
     p_state p \<noteq> FAILED \<and>
     (if p_state p = COMPLETE then is_complete_raw p \<and> sha1 (assemble p) = p_hash p
      else \<not> is_complete_raw p)"

definition pm_ok :: "piece_manager \<Rightarrow> bool" where
  "pm_ok pm \<longleftrightarrow> pm_num_pieces pm = blen (pm_pieces pm) \<and>
     (\<forall>p \<in> set (pm_pieces pm). piece_ok p) \<and>
     pm_pending pm = {int j | j. j < length (pm_pieces pm) \<and> p_state (pm_pieces pm ! j) = PENDING} \<and>
     dict_ok (pm_peer_pieces pm) \<and>
     (\<forall>q \<in> set (pm_peer_pieces pm). finite (snd q) \<and> (\<forall>i \<in> snd q. 0 \<le> i))"

lemma make_piece_ok: "make_piece i len h = Inr p \<Longrightarrow> piece_ok p \<and> p_state p = NEEDED \<and> p_blocks p = [] \<and>
    p_received p = 0 \<and> p_length p = len \<and> p_hash p = h \<and> p_index p = i"
  by (auto simp: make_piece_def piece_ok_def is_complete_raw_def split: if_splits)

lemma piece_reset_ok: "0 < p_length p \<Longrightarrow> length (p_hash p) = 20 \<Longrightarrow> piece_ok (piece_reset p)"
  by (simp add: piece_ok_def piece_reset_def is_complete_raw_def)

lemma piece_reset_state [simp]: "p_state (piece_reset p) = NEEDED"
  by (simp add: piece_reset_def)

lemma assemble_state [simp]: "assemble (p\<lparr>p_state := s\<rparr>) = assemble p"
  by (simp add: assemble_def)

lemma complete_raw_state [simp]: "is_complete_raw (p\<lparr>p_state := s\<rparr>) = is_complete_raw p"
  by (simp add: is_complete_raw_def)

lemma piece_add_block_Inr:
  assumes "piece_add_block p off data = Inr p'"
  shows "0 \<le> off \<and> off < p_length p \<and> off + blen data \<le> p_length p \<and> p_received p \<le> p_received p' \<and>
    p_blocks p' = dict_set off data (p_blocks p) \<and> p_length p' = p_length p \<and> p_hash p' = p_hash p \<and>
    p_state p' = p_state p \<and> p_index p' = p_index p"
  using assms by (auto simp: piece_add_block_def split: if_splits)

lemma piece_add_block_bounds:
  assumes "piece_ok p" "piece_add_block p off data = Inr p'"
  shows "dict_ok (p_blocks p') \<and>
    (\<forall>(off, b) \<in> set (p_blocks p'). 0 \<le> off \<and> off < p_length p \<and> off + blen b \<le> p_length p)"
  using assms piece_add_block_Inr [OF assms(2)] by (auto simp: piece_ok_def set_dict_set)

lemma piece_verify_ok:
  assumes "piece_ok p" "piece_add_block p off data = Inr p'" "is_complete_raw p'"
    "piece_verify p' = (ok, p'')"
  shows "piece_ok p'' \<and> p_state p'' = (if ok then COMPLETE else NEEDED)"
  using assms piece_add_block_Inr [OF assms(2)] piece_add_block_bounds [OF assms(1,2)]
  by (auto simp: piece_verify_def piece_ok_def piece_reset_def is_complete_raw_def split: if_splits)

lemma piece_partial_ok:
  assumes "piece_ok p" "piece_add_block p off data = Inr p'" "\<not> is_complete_raw p'"
  shows "piece_ok p' \<and> p_state p' = p_state p"
  using assms piece_add_block_Inr [OF assms(2)] piece_add_block_bounds [OF assms(1,2)]
  by (auto simp: piece_ok_def is_complete_raw_def)

subsection \<open>Every operation keeps the invariant\<close>

lemma pending_put:
  assumes "j < length ps"
  shows "{int k | k. k < length (ps[j := p]) \<and> p_state (ps[j := p] ! k) = PENDING} =
    (if p_state p = PENDING then insert (int j) {int k | k. k < length ps \<and> p_state (ps ! k) = PENDING}
     else {int k | k. k < length ps \<and> p_state (ps ! k) = PENDING} - {int j})"
  using assms by (auto simp: nth_list_update split: if_splits)

lemma pm_ok_put:
  assumes "pm_ok pm" "j < length (pm_pieces pm)" "piece_ok p"
    and "S = (if p_state p = PENDING then insert (int j) (pm_pending pm) else pm_pending pm - {int j})"
  shows "pm_ok ((put_piece j p pm)\<lparr>pm_pending := S\<rparr>)"
  using assms pending_put [OF assms(2), of p] set_update_subset_insert [of "pm_pieces pm" j p]
  by (auto simp: pm_ok_def put_piece_def)

lemma pm_ok_put_same:
  assumes "pm_ok pm" "j < length (pm_pieces pm)" "piece_ok p" "p_state p = p_state (pm_pieces pm ! j)"
  shows "pm_ok (put_piece j p pm)"
proof -
  have "(if p_state p = PENDING then insert (int j) (pm_pending pm) else pm_pending pm - {int j}) = pm_pending pm"
    using assms by (auto simp: pm_ok_def)
  with pm_ok_put [OF assms(1-3) refl] show ?thesis by (simp add: put_piece_def)
qed

lemma pm_ok_piece: "pm_ok pm \<Longrightarrow> j < length (pm_pieces pm) \<Longrightarrow> piece_ok (pm_pieces pm ! j)"
  by (simp add: pm_ok_def)

lemma finite_peer_set: "pm_ok pm \<Longrightarrow> finite (peer_set pm peer)"
  and nonneg_peer_set: "pm_ok pm \<Longrightarrow> i \<in> peer_set pm peer \<Longrightarrow> 0 \<le> i"
  by (auto simp: peer_set_def pm_ok_def split: option.splits dest!: map_of_SomeD)

lemma on_peer_bitfield_ok: "pm_ok pm \<Longrightarrow> pm_ok (on_peer_bitfield peer bf pm)"
  by (auto simp: pm_ok_def on_peer_bitfield_def set_dict_set bitfield_pieces_def)

lemma on_peer_have_ok: "pm_ok pm \<Longrightarrow> 0 \<le> i \<Longrightarrow> pm_ok (on_peer_have peer i pm)"
  using finite_peer_set [of pm peer] nonneg_peer_set [of pm _ peer]
  by (auto simp: pm_ok_def on_peer_have_def set_dict_set)

lemma remove_peer_ok: "pm_ok pm \<Longrightarrow> pm_ok (remove_peer peer pm)"
  by (auto simp: pm_ok_def remove_peer_def set_dict_pop)

lemma candidates_Inr:
  "candidates pm is = Inr cs \<Longrightarrow>
     (\<forall>i \<in> set is. \<exists>j. py_index (length (pm_pieces pm)) i = Inr j) \<and>
     cs = filter (\<lambda>i. \<exists>j. py_index (length (pm_pieces pm)) i = Inr j \<and>
                        p_state (pm_pieces pm ! j) = NEEDED \<and> i \<notin> pm_pending pm) is"
  by (induction "is" arbitrary: cs) (auto simp: res_simps py_get_def)

lemma candidates_Inl: "(\<exists>e. candidates pm is = Inl e) \<longleftrightarrow> (\<exists>i \<in> set is. py_index (length (pm_pieces pm)) i = Inl IndexError)"
proof (induction "is")
  case (Cons i "is")
  have "py_index (length (pm_pieces pm)) i = Inl IndexError \<or> (\<exists>j. py_index (length (pm_pieces pm)) i = Inr j)"
    by (auto simp: py_index_def Let_def)
  with Cons show ?case by (auto simp: res_simps py_get_def)
qed simp

lemma min_by_mem: "min_by f b xs \<in> insert b (set xs)"
  by (induction f b xs rule: min_by.induct) auto

lemma min_by_least: "y \<in> insert b (set xs) \<Longrightarrow> f (min_by f b xs) \<le> f y"
proof (induction f b xs arbitrary: y rule: min_by.induct)
  case (2 f best x xs)
  let ?b = "if f x < f best then x else best"
  have "f (min_by f ?b xs) \<le> f ?b" using "2.IH" by simp
  then have "f (min_by f ?b xs) \<le> f x" "f (min_by f ?b xs) \<le> f best" by (auto split: if_splits)
  with 2 show ?case by auto
qed simp

text \<open>What a selection that succeeds has done.\<close>

lemma select_piece_Some:
  assumes "select_piece itr peer pm = Inr (Some i, pm')" "set_order itr" "pm_ok pm"
  shows "\<exists>j. i = int j \<and> j < length (pm_pieces pm) \<and> p_state (pm_pieces pm ! j) = NEEDED \<and>
    i \<in> peer_set pm peer \<and> i \<notin> pm_pending pm \<and>
    pm' = (put_piece j ((pm_pieces pm ! j)\<lparr>p_state := PENDING\<rparr>) pm)\<lparr>pm_pending := insert i (pm_pending pm)\<rparr> \<and>
    (\<forall>k. k < length (pm_pieces pm) \<longrightarrow> int k \<in> peer_set pm peer \<longrightarrow> p_state (pm_pieces pm ! k) = NEEDED \<longrightarrow>
       rarity pm i \<le> rarity pm (int k))"
proof -
  have S: "set (itr (peer_set pm peer)) = peer_set pm peer"
    using assms(2) finite_peer_set [OF assms(3)] by (auto simp: set_order_def)
  from assms(1) obtain c cs j where c: "candidates pm (itr (peer_set pm peer)) = Inr (c # cs)"
      and i: "i = min_by (rarity pm) c cs" and j: "py_index (length (pm_pieces pm)) i = Inr j"
      and pm': "pm' = (put_piece j ((pm_pieces pm ! j)\<lparr>p_state := PENDING\<rparr>) pm)\<lparr>pm_pending := insert i (pm_pending pm)\<rparr>"
    by (auto simp: select_piece_def res_simps Let_def)
  have mem: "i \<in> set (c # cs)" using min_by_mem [of "rarity pm" c cs] i by auto
  with candidates_Inr [OF c] S have ip: "i \<in> peer_set pm peer" "i \<notin> pm_pending pm"
      and st: "p_state (pm_pieces pm ! j) = NEEDED"
    using j by (auto simp: filter_eq_Cons_iff dest!: arg_cong [where f = set])
  from nonneg_peer_set [OF assms(3) ip(1)] j have ij: "i = int j" "j < length (pm_pieces pm)"
    by (auto simp: py_index_nonneg split: if_splits)
  have "rarity pm i \<le> rarity pm (int k)"
    if k: "k < length (pm_pieces pm)" "int k \<in> peer_set pm peer" "p_state (pm_pieces pm ! k) = NEEDED" for k
  proof -
    have "int k \<notin> pm_pending pm" using k assms(3) by (auto simp: pm_ok_def)
    then have "int k \<in> set (c # cs)"
      using candidates_Inr [OF c] k S by (auto simp: py_index_nonneg)
    then show ?thesis using min_by_least [of "int k" c cs "rarity pm"] i by auto
  qed
  with ij ip st pm' show ?thesis by blast
qed

lemma select_piece_None:
  assumes "select_piece itr peer pm = Inr (None, pm')" "set_order itr" "pm_ok pm"
  shows "pm' = pm \<and> (\<forall>k. k < length (pm_pieces pm) \<longrightarrow> int k \<in> peer_set pm peer \<longrightarrow>
    p_state (pm_pieces pm ! k) \<noteq> NEEDED)"
proof -
  have S: "set (itr (peer_set pm peer)) = peer_set pm peer"
    using assms(2) finite_peer_set [OF assms(3)] by (auto simp: set_order_def)
  from assms(1) have c: "candidates pm (itr (peer_set pm peer)) = Inr []" and pm': "pm' = pm"
    by (auto simp: select_piece_def res_simps Let_def)
  have "p_state (pm_pieces pm ! k) \<noteq> NEEDED"
    if k: "k < length (pm_pieces pm)" "int k \<in> peer_set pm peer" for k
  proof
    assume n: "p_state (pm_pieces pm ! k) = NEEDED"
    then have "int k \<notin> pm_pending pm" using k assms(3) by (auto simp: pm_ok_def)
    with candidates_Inr [OF c] k S n show False
      by (auto simp: filter_empty_conv py_index_nonneg dest!: sym [of "[]"])
  qed
  with pm' show ?thesis by blast
qed

lemma select_piece_ok:
  assumes "select_piece itr peer pm = Inr (r, pm')" "set_order itr" "pm_ok pm"
  shows "pm_ok pm'"
proof (cases r)
  case None
  with select_piece_None assms show ?thesis by blast
next
  case (Some i)
  from select_piece_Some [OF assms(1) [unfolded Some] assms(2,3)] obtain j where j: "i = int j"
      "j < length (pm_pieces pm)" "p_state (pm_pieces pm ! j) = NEEDED"
      "pm' = (put_piece j ((pm_pieces pm ! j)\<lparr>p_state := PENDING\<rparr>) pm)\<lparr>pm_pending := insert i (pm_pending pm)\<rparr>"
    by blast
  have "piece_ok ((pm_pieces pm ! j)\<lparr>p_state := PENDING\<rparr>)"
    using pm_ok_piece [OF assms(3) j(2)] j(3) by (simp add: piece_ok_def)
  from pm_ok_put [OF assms(3) j(2) this refl] j(1,4) show ?thesis by simp
qed

text \<open>What \<open>add_block\<close> does to the one piece it touches.\<close>

lemma add_block_Inr:
  assumes "add_block i off data pm = Inr (ok, pm')" "0 \<le> i"
  shows "\<exists>j p. i = int j \<and> j < length (pm_pieces pm) \<and> piece_add_block (pm_pieces pm ! j) off data = Inr p \<and>
    (if is_complete_raw p
     then \<exists>p'. piece_verify p = (ok, p') \<and> pm' = (put_piece j p' pm)\<lparr>pm_pending := pm_pending pm - {int j}\<rparr>
     else \<not> ok \<and> pm' = put_piece j p pm)"
proof -
  have j: "i = int (nat i)" using assms(2) by simp
  have l: "nat i < length (pm_pieces pm)" and x: "py_index (length (pm_pieces pm)) i = Inr (nat i)"
    using assms by (auto simp: add_block_def py_index_nonneg res_simps split: if_splits)
  from assms(1) x obtain p where p: "piece_add_block (pm_pieces pm ! nat i) off data = Inr p"
    by (cases "piece_add_block (pm_pieces pm ! nat i) off data") (simp_all add: add_block_def)
  have r: "(if is_complete_raw p then
           let (ok, p') = piece_verify p
           in Inr (ok, (put_piece (nat i) p' pm)\<lparr>pm_pending := pm_pending pm - {i}\<rparr>)
         else Inr (False, put_piece (nat i) p pm)) = (Inr (ok, pm') :: _ res)"
    using assms(1) by (simp add: add_block_def x p)
  have "if is_complete_raw p
     then \<exists>p'. piece_verify p = (ok, p') \<and> pm' = (put_piece (nat i) p' pm)\<lparr>pm_pending := pm_pending pm - {int (nat i)}\<rparr>
     else \<not> ok \<and> pm' = put_piece (nat i) p pm"
    using r j(1) by (auto split: if_splits prod.splits)
  with j l p show ?thesis by blast
qed

lemma add_block_ok:
  assumes "add_block i off data pm = Inr (ok, pm')" "0 \<le> i" "pm_ok pm"
  shows "pm_ok pm'"
proof -
  from add_block_Inr [OF assms(1,2)] obtain j p where j: "j < length (pm_pieces pm)"
      and p: "piece_add_block (pm_pieces pm ! j) off data = Inr p"
      and r: "if is_complete_raw p
       then \<exists>p'. piece_verify p = (ok, p') \<and> pm' = (put_piece j p' pm)\<lparr>pm_pending := pm_pending pm - {int j}\<rparr>
       else \<not> ok \<and> pm' = put_piece j p pm" by blast
  note pok = pm_ok_piece [OF assms(3) j]
  show ?thesis
  proof (cases "is_complete_raw p")
    case True
    with r obtain p' where p': "piece_verify p = (ok, p')"
        "pm' = (put_piece j p' pm)\<lparr>pm_pending := pm_pending pm - {int j}\<rparr>" by auto
    with piece_verify_ok [OF pok p True p'(1)] pm_ok_put [OF assms(3) j, of p'] show ?thesis
      by (auto split: if_splits)
  next
    case False
    with r piece_partial_ok [OF pok p False] pm_ok_put_same [OF assms(3) j] show ?thesis by auto
  qed
qed

lemma mark_piece_failed_Inr:
  "mark_piece_failed i pm = Inr pm' \<Longrightarrow> 0 \<le> i \<Longrightarrow> \<exists>j. i = int j \<and> j < length (pm_pieces pm) \<and>
     pm' = (put_piece j (piece_reset (pm_pieces pm ! j)) pm)\<lparr>pm_pending := pm_pending pm - {int j}\<rparr>"
  by (rule exI [of _ "nat i"]) (auto simp: mark_piece_failed_def py_index_nonneg res_simps split: if_splits)

lemma mark_piece_failed_ok:
  assumes "mark_piece_failed i pm = Inr pm'" "0 \<le> i" "pm_ok pm"
  shows "pm_ok pm'"
proof -
  from mark_piece_failed_Inr [OF assms(1,2)] obtain j where j: "j < length (pm_pieces pm)"
      "pm' = (put_piece j (piece_reset (pm_pieces pm ! j)) pm)\<lparr>pm_pending := pm_pending pm - {int j}\<rparr>" by blast
  have "piece_ok (piece_reset (pm_pieces pm ! j))"
    using pm_ok_piece [OF assms(3) j(1)] by (intro piece_reset_ok) (simp_all add: piece_ok_def)
  from pm_ok_put [OF assms(3) j(1) this refl] j(2) show ?thesis by simp
qed

subsection \<open>Sequences of calls\<close>

text \<open>
  The calls the rest of the client makes, with the piece numbers it passes (they come off the
  wire as unsigned words or from \<open>select_piece\<close>, so they are not negative).
\<close>

datatype pm_op =
    OnBitfield bytes bytes
  | OnHave bytes int
  | RemovePeer bytes
  | SelectPiece bytes
  | AddBlock int int bytes
  | MarkFailed int

fun pm_exec :: "(int set \<Rightarrow> int list) \<Rightarrow> pm_op \<Rightarrow> piece_manager \<Rightarrow> piece_manager res" where
  "pm_exec itr (OnBitfield peer bf) pm = Inr (on_peer_bitfield peer bf pm)"
| "pm_exec itr (OnHave peer i) pm = Inr (on_peer_have peer i pm)"
| "pm_exec itr (RemovePeer peer) pm = Inr (remove_peer peer pm)"
| "pm_exec itr (SelectPiece peer) pm = bindR (select_piece itr peer pm) (\<lambda>r. Inr (snd r))"
| "pm_exec itr (AddBlock i off data) pm = bindR (add_block i off data pm) (\<lambda>r. Inr (snd r))"
| "pm_exec itr (MarkFailed i) pm = mark_piece_failed i pm"

fun pm_op_ok :: "pm_op \<Rightarrow> bool" where
  "pm_op_ok (OnHave peer i) \<longleftrightarrow> 0 \<le> i"
| "pm_op_ok (AddBlock i off data) \<longleftrightarrow> 0 \<le> i"
| "pm_op_ok (MarkFailed i) \<longleftrightarrow> 0 \<le> i"
| "pm_op_ok _ \<longleftrightarrow> True"

text \<open>What no call changes: how many pieces there are, and each one's number, length and hash.\<close>

definition pm_layout :: "piece_manager \<Rightarrow> int \<times> (int \<times> int \<times> bytes) list" where
  "pm_layout pm = (pm_num_pieces pm, map (\<lambda>p. (p_index p, p_length p, p_hash p)) (pm_pieces pm))"

lemma pm_layout_put [simp]:
  assumes "j < length (pm_pieces pm)" "p_index p = p_index (pm_pieces pm ! j)"
    "p_length p = p_length (pm_pieces pm ! j)" "p_hash p = p_hash (pm_pieces pm ! j)"
  shows "pm_layout (put_piece j p pm) = pm_layout pm"
  using assms by (auto simp: pm_layout_def put_piece_def map_update intro!: list_update_same_conv [THEN iffD2])

lemma pm_layout_pending [simp]: "pm_layout (pm\<lparr>pm_pending := S\<rparr>) = pm_layout pm"
  by (simp add: pm_layout_def)

lemma piece_reset_same [simp]:
  "p_index (piece_reset p) = p_index p" "p_length (piece_reset p) = p_length p" "p_hash (piece_reset p) = p_hash p"
  by (simp_all add: piece_reset_def)

lemma piece_verify_same: "piece_verify p = (ok, p') \<Longrightarrow>
    p_index p' = p_index p \<and> p_length p' = p_length p \<and> p_hash p' = p_hash p"
  by (auto simp: piece_verify_def split: if_splits)

lemma add_block_layout:
  assumes "add_block i off data pm = Inr (ok, pm')" "0 \<le> i"
  shows "pm_layout pm' = pm_layout pm"
proof -
  from add_block_Inr [OF assms] obtain j p where j: "j < length (pm_pieces pm)"
      and p: "piece_add_block (pm_pieces pm ! j) off data = Inr p"
      and r: "if is_complete_raw p
       then \<exists>p'. piece_verify p = (ok, p') \<and> pm' = (put_piece j p' pm)\<lparr>pm_pending := pm_pending pm - {int j}\<rparr>
       else \<not> ok \<and> pm' = put_piece j p pm" by blast
  show ?thesis
    using r j piece_add_block_Inr [OF p] piece_verify_same [of p] by (auto split: if_splits)
qed

lemma select_piece_layout:
  assumes "select_piece itr peer pm = Inr (r, pm')" "set_order itr" "pm_ok pm"
  shows "pm_layout pm' = pm_layout pm"
proof (cases r)
  case None
  with select_piece_None assms show ?thesis by blast
next
  case (Some i)
  from select_piece_Some [OF assms(1) [unfolded Some] assms(2,3)] show ?thesis by auto
qed

lemma mark_piece_failed_layout:
  "mark_piece_failed i pm = Inr pm' \<Longrightarrow> 0 \<le> i \<Longrightarrow> pm_layout pm' = pm_layout pm"
  using mark_piece_failed_Inr [of i pm pm'] by auto

lemma pm_exec_ok:
  assumes "pm_exec itr op pm = Inr pm'" "set_order itr \<and> pm_op_ok op" "pm_ok pm"
  shows "pm_ok pm' \<and> pm_layout pm' = pm_layout pm"
proof (cases op)
  case (SelectPiece peer)
  with assms obtain r where "select_piece itr peer pm = Inr (r, pm')" by (auto simp: res_simps)
  with assms show ?thesis using select_piece_ok select_piece_layout by blast
next
  case (AddBlock i off data)
  with assms obtain r where "add_block i off data pm = Inr (r, pm')" by (auto simp: res_simps)
  with assms AddBlock show ?thesis using add_block_ok add_block_layout by simp
next
  case (MarkFailed i)
  with assms show ?thesis using mark_piece_failed_ok mark_piece_failed_layout by simp
qed (use assms on_peer_bitfield_ok on_peer_have_ok remove_peer_ok in
      \<open>auto simp: pm_layout_def on_peer_bitfield_def on_peer_have_def remove_peer_def\<close>)

interpretation pmc: framed_operations "pm_exec itr" "\<lambda>op. set_order itr \<and> pm_op_ok op" pm_ok pm_layout
  for itr
  by unfold_locales (use pm_exec_ok in blast)+

text \<open>The manager a torrent starts with.\<close>

lemma make_manager_Inr:
  assumes "make_manager hs pl tot = Inr pm"
  shows "length (pm_pieces pm) = length hs \<and> pm_num_pieces pm = blen hs \<and> pm_pending pm = {} \<and> pm_peer_pieces pm = [] \<and>
    (\<forall>j < length hs. \<exists>len. piece_length_at (blen hs) pl tot (int j) = Inr len \<and>
       make_piece (int j) len (hs ! j) = Inr (pm_pieces pm ! j))"
  using assms
  by (auto simp: make_manager_def Let_def res_simps list_all2_conv_all_nth nth_enumerate_eq)

lemma make_manager_ok:
  assumes "make_manager hs pl tot = Inr pm"
  shows "pm_ok pm"
proof -
  note m = make_manager_Inr [OF assms]
  have "piece_ok p \<and> p_state p = NEEDED" if "p \<in> set (pm_pieces pm)" for p
    using that m make_piece_ok by (metis in_set_conv_nth)
  with m show ?thesis by (auto simp: pm_ok_def)
qed

lemma make_manager_hashes:
  "make_manager hs pl tot = Inr pm \<Longrightarrow> map p_hash (pm_pieces pm) = hs"
  using make_manager_Inr [of hs pl tot pm] make_piece_ok by (metis nth_equalityI length_map nth_map)

lemma layout_hashes: "pm_layout pm = pm_layout pm' \<Longrightarrow> map p_hash (pm_pieces pm) = map p_hash (pm_pieces pm')"
  by (auto simp: pm_layout_def comp_def dest!: arg_cong [where f = "map (\<lambda>x. snd (snd x))"])

text \<open>
  C12. Whatever calls reach the piece manager, in whatever order and with whatever data, and
  whether or not some of them raise, its invariant holds: the pieces never change their
  number, length or hash; a piece is COMPLETE exactly when all its bytes are there and hash to
  the expected value; no piece is left FAILED; \<open>_pending\<close> is the set of the PENDING pieces.
\<close>

theorem manager_invariant:
  assumes "make_manager hs pl tot = Inr pm0" "set_order itr" "\<forall>op \<in> set ops. pm_op_ok op"
  shows "pm_ok (run_ops (pm_exec itr) ops pm0) \<and> pm_layout (run_ops (pm_exec itr) ops pm0) = pm_layout pm0"
  using pmc.run_inv [of ops itr pm0] pmc.run_frame [of ops itr pm0] make_manager_ok [OF assms(1)] assms(2,3)
  by simp

text \<open>
  C11. Integrity: the bytes the manager hands out for a piece always have the SHA-1 hash that
  the torrent lists for that piece, whatever the peers sent.
\<close>

theorem verified_data_only:
  assumes "make_manager hs pl tot = Inr pm0" "set_order itr" "\<forall>op \<in> set ops. pm_op_ok op"
    and "0 \<le> i" "get_piece_data (run_ops (pm_exec itr) ops pm0) i = Inr d"
  shows "nat i < length hs \<and> sha1 d = hs ! nat i"
proof -
  let ?pm = "run_ops (pm_exec itr) ops pm0"
  have ok: "pm_ok ?pm" and lay: "pm_layout ?pm = pm_layout pm0"
    using pmc.run_inv [of ops itr pm0] pmc.run_frame [of ops itr pm0] make_manager_ok [OF assms(1)] assms(2,3)
    by simp_all
  have hs: "map p_hash (pm_pieces ?pm) = hs"
    using layout_hashes [OF lay] make_manager_hashes [OF assms(1)] by simp
  from assms(4,5) have j: "nat i < length (pm_pieces ?pm)" and d: "piece_data (pm_pieces ?pm ! nat i) = Inr d"
    by (auto simp: get_piece_data_def py_get_def res_simps split: if_splits)
  from d have "p_state (pm_pieces ?pm ! nat i) = COMPLETE" "d = assemble (pm_pieces ?pm ! nat i)"
    by (auto simp: piece_data_def split: if_splits)
  with pm_ok_piece [OF ok j] have "sha1 d = p_hash (pm_pieces ?pm ! nat i)" by (simp add: piece_ok_def)
  with hs j show ?thesis by (metis length_map nth_map)
qed


lemma manager_invariant_witness:
  "\<exists>pm. make_manager [replicate 20 0, replicate 20 1] 4 6 = Inr pm \<and>
     pm_ok (run_ops (pm_exec sorted_list_of_set)
       [OnBitfield [9] [192], SelectPiece [9], AddBlock 0 0 [1, 2], AddBlock 5 0 [1], MarkFailed 0] pm)"
proof -
  obtain pm where pm: "make_manager [replicate 20 0, replicate 20 1] 4 6 = Inr pm"
    by (simp add: make_manager_def piece_length_at_def make_piece_def)
  have "set_order sorted_list_of_set" by (simp add: set_order_def)
  from manager_invariant [OF pm this, of
      "[OnBitfield [9] [192], SelectPiece [9], AddBlock 0 0 [1, 2], AddBlock 5 0 [1], MarkFailed 0]"]
  show ?thesis using pm by auto
qed

lemma verified_data_only_witness:
  "\<exists>pm. make_manager [sha1 [1, 2, 3]] 4 3 = Inr pm \<and>
     get_piece_data (run_ops (pm_exec sorted_list_of_set) [AddBlock 0 0 [1, 2, 3]] pm) 0 = Inr [1, 2, 3] \<and>
     sha1 [1, 2, 3] = [sha1 [1, 2, 3]] ! nat 0"
proof -
  obtain pm where pm: "make_manager [sha1 [1, 2, 3]] 4 3 = Inr pm"
    by (simp add: make_manager_def piece_length_at_def make_piece_def)
  have g: "get_piece_data (run_ops (pm_exec sorted_list_of_set) [AddBlock 0 0 [1, 2, 3]] pm) 0 = Inr [1, 2, 3]"
    using pm by (auto simp: make_manager_def piece_length_at_def make_piece_def run_ops_def attempt_def
        add_block_def py_index_nonneg piece_add_block_def is_complete_raw_def piece_verify_def assemble_def
        put_piece_def get_piece_data_def py_get_def piece_data_def)
  have "set_order sorted_list_of_set" by (simp add: set_order_def)
  from verified_data_only [OF pm this _ _ g] pm g show ?thesis by simp
qed

text \<open>When the manager is done, each piece is COMPLETE.\<close>

lemma all_complete:
  assumes "pm_ok pm" "is_done pm" "j < length (pm_pieces pm)"
  shows "p_state (pm_pieces pm ! j) = COMPLETE"
proof -
  have "length (filter (\<lambda>p. p_state p = COMPLETE) (pm_pieces pm)) = length (pm_pieces pm)"
    using assms(1,2) by (simp add: is_done_def num_complete_def pm_ok_def)
  with length_filter_less [of "pm_pieces pm ! j" "pm_pieces pm" "\<lambda>p. p_state p = COMPLETE"] assms(3)
  show ?thesis by (cases "p_state (pm_pieces pm ! j) = COMPLETE") simp_all
qed

end
