(* ===== verification/PieceProgress.thy ===== *)
theory PieceProgress
  imports PieceManager
begin

section \<open>Selection, download and progress (client/modules/pieceManager.py)\<close>

text \<open>
  What the piece manager is for: it picks the rarest piece a peer can serve, a piece whose
  blocks arrive in any order and any number of times ends COMPLETE with the right bytes, and
  the bitfield it announces says which pieces those are.
\<close>

unbundle bit_operations_syntax

subsection \<open>Bitfields\<close>

lemma drop_bit_and_one: "(drop_bit k (w :: byte) AND 1 \<noteq> 0) \<longleftrightarrow> bit w k"
  by (simp add: and_one_eq bit_iff_odd_drop_bit odd_iff_mod_2_eq_one)

lemma bitfield_pieces_iff:
  "i \<in> bitfield_pieces n bf \<longleftrightarrow>
     (\<exists>a b. a < length bf \<and> b < 8 \<and> i = int a * 8 + (7 - int b) \<and> i < n \<and> bit (bf ! a) b)"
  by (fastforce simp: bitfield_pieces_def in_set_enumerate_eq drop_bit_and_one)

lemma bit_pos:
  fixes x y :: nat
  assumes "x < 8" "y < 8"
  shows "7 - x = 7 - y \<longleftrightarrow> x = y" "int (7 - x) = 7 - int x" "7 - (7 - x) = x"
  using assms by arith+

lemma byte_and_bit:
  assumes "b < 8"
  shows "nat (int a * 8 + (7 - int b)) div 8 = a" "7 - nat (int a * 8 + (7 - int b)) mod 8 = b"
proof -
  have n: "nat (int a * 8 + (7 - int b)) = a * 8 + (7 - b)" using assms by linarith
  have "(a * 8 + (7 - b)) div 8 = a" by simp
  moreover have "(a * 8 + (7 - b)) mod 8 = 7 - b" by (simp only: mod_mult_self3) simp
  ultimately show "nat (int a * 8 + (7 - int b)) div 8 = a" "7 - nat (int a * 8 + (7 - int b)) mod 8 = b"
    unfolding n using bit_pos(3) [OF assms assms] by simp_all
qed

lemma nat_byte_and_bit: "0 \<le> i \<Longrightarrow> i = int (nat i div 8) * 8 + (7 - int (7 - nat i mod 8))"
proof -
  assume i: "0 \<le> i"
  have "i = int (nat i div 8 * 8 + nat i mod 8)" unfolding div_mult_mod_eq using i by simp
  then have "i = int (nat i div 8) * 8 + int (nat i mod 8)" unfolding of_nat_add of_nat_mult by simp
  moreover have "int (7 - nat i mod 8) = 7 - int (nat i mod 8)" by (rule bit_pos(2) [of _ 0]) simp_all
  ultimately show ?thesis by simp
qed

lemma same_bit: "i div 8 = n div 8 \<Longrightarrow> 7 - i mod 8 = 7 - n mod 8 \<longleftrightarrow> i = n" for i n :: nat
  by (subst bit_pos(1), simp, simp) (metis div_mult_mod_eq)

lemma bytes_for_bits:
  fixes n :: nat
  shows "n \<le> 8 * ((n + 7) div 8)" "i < n \<Longrightarrow> i div 8 < (n + 7) div 8"
  using div_le_mono [of "i + 8" "n + 7" 8] by simp_all

lemma mem_bitfield_pieces:
  "i \<in> bitfield_pieces n bf \<longleftrightarrow>
     0 \<le> i \<and> i < n \<and> nat i div 8 < length bf \<and> bit (bf ! (nat i div 8)) (7 - nat i mod 8)"
proof
  assume "i \<in> bitfield_pieces n bf"
  then obtain a b where "a < length bf" "b < 8" "i = int a * 8 + (7 - int b)" "i < n" "bit (bf ! a) b"
    unfolding bitfield_pieces_iff by blast
  then show "0 \<le> i \<and> i < n \<and> nat i div 8 < length bf \<and> bit (bf ! (nat i div 8)) (7 - nat i mod 8)"
    using byte_and_bit [of b a] by simp
next
  assume "0 \<le> i \<and> i < n \<and> nat i div 8 < length bf \<and> bit (bf ! (nat i div 8)) (7 - nat i mod 8)"
  moreover from this have "i = int (nat i div 8) * 8 + (7 - int (7 - nat i mod 8))"
    by (intro nat_byte_and_bit) simp
  ultimately show "i \<in> bitfield_pieces n bf"
    unfolding bitfield_pieces_iff by (intro exI [of _ "nat i div 8"] exI [of _ "7 - nat i mod 8"]) simp
qed

definition set_bits :: "nat \<Rightarrow> piece list \<Rightarrow> bytes" where
  "set_bits nb ps =
     fold (\<lambda>(i, p) bf.
         if p_state p = COMPLETE then bf[i div 8 := bf ! (i div 8) OR push_bit (7 - i mod 8) 1] else bf)
       (enumerate 0 ps) (replicate nb 0)"

lemma set_bits_snoc:
  "set_bits nb (ps @ [p]) =
     (let bf = set_bits nb ps; i = length ps
      in if p_state p = COMPLETE then bf[i div 8 := bf ! (i div 8) OR push_bit (7 - i mod 8) 1] else bf)"
  by (simp add: set_bits_def enumerate_append_eq Let_def)

lemma set_bits_bit:
  "length ps \<le> 8 * nb \<Longrightarrow> length (set_bits nb ps) = nb \<and>
     (\<forall>i. i div 8 < nb \<longrightarrow>
        bit (set_bits nb ps ! (i div 8)) (7 - i mod 8) = (i < length ps \<and> p_state (ps ! i) = COMPLETE))"
proof (induction ps rule: rev_induct)
  case Nil
  then show ?case by (simp add: set_bits_def)
next
  case (snoc p ps)
  let ?n = "length ps"
  from snoc have l: "length (set_bits nb ps) = nb" and n: "?n div 8 < nb"
    and IH: "\<And>i. i div 8 < nb \<Longrightarrow> bit (set_bits nb ps ! (i div 8)) (7 - i mod 8) = (i < ?n \<and> p_state (ps ! i) = COMPLETE)"
    by auto
  have b: "bit (2 ^ (7 - ?n mod 8) :: byte) (7 - i mod 8) \<longleftrightarrow> 7 - i mod 8 = 7 - ?n mod 8" for i
    by (auto simp: bit_exp_iff)
  have "bit (set_bits nb (ps @ [p]) ! (i div 8)) (7 - i mod 8) =
      (i < length (ps @ [p]) \<and> p_state ((ps @ [p]) ! i) = COMPLETE)" if i: "i div 8 < nb" for i
  proof (cases "i div 8 = ?n div 8 \<and> p_state p = COMPLETE")
    case True
    have "bit (set_bits nb (ps @ [p]) ! (i div 8)) (7 - i mod 8) \<longleftrightarrow>
        bit (set_bits nb ps ! (i div 8)) (7 - i mod 8) \<or> 7 - i mod 8 = 7 - ?n mod 8"
      using True n l by (simp add: set_bits_snoc Let_def bit_or_iff b)
    with True IH [OF i] same_bit [of i ?n] show ?thesis by (auto simp: nth_append)
  next
    case False
    then have "set_bits nb (ps @ [p]) ! (i div 8) = set_bits nb ps ! (i div 8)"
      by (auto simp: set_bits_snoc Let_def)
    with False IH [OF i] show ?thesis by (auto simp: nth_append)
  qed
  with l show ?case by (simp add: set_bits_snoc Let_def)
qed

lemma get_bitfield_bits:
  assumes "pm_num_pieces pm = blen (pm_pieces pm)"
  shows "length (get_bitfield pm) = (length (pm_pieces pm) + 7) div 8 \<and>
    (\<forall>i < length (pm_pieces pm). bit (get_bitfield pm ! (i div 8)) (7 - i mod 8) \<longleftrightarrow> p_state (pm_pieces pm ! i) = COMPLETE)"
proof -
  let ?n = "length (pm_pieces pm)"
  have nb: "nat ((pm_num_pieces pm + 7) div 8) = (?n + 7) div 8" using assms by (simp add: nat_div_distrib)
  moreover have "get_bitfield pm = set_bits ((?n + 7) div 8) (pm_pieces pm)"
    unfolding get_bitfield_def nb set_bits_def ..
  ultimately show ?thesis
    using set_bits_bit [of "pm_pieces pm" "(?n + 7) div 8"] bytes_for_bits [of ?n] by simp
qed

text \<open>
  C39. The bitfield we announce, read the way a peer reads it (\<open>on_peer_bitfield\<close> with the same
  number of pieces), is exactly the set of the COMPLETE pieces.
\<close>

theorem bitfield_roundtrip:
  assumes "pm_ok pm"
  shows "bitfield_pieces (pm_num_pieces pm) (get_bitfield pm) =
    {int j | j. j < length (pm_pieces pm) \<and> p_state (pm_pieces pm ! j) = COMPLETE}"
proof -
  have n: "pm_num_pieces pm = blen (pm_pieces pm)" using assms by (simp add: pm_ok_def)
  note g = get_bitfield_bits [OF n]
  have "i \<in> bitfield_pieces (pm_num_pieces pm) (get_bitfield pm) \<longleftrightarrow>
      0 \<le> i \<and> nat i < length (pm_pieces pm) \<and> p_state (pm_pieces pm ! nat i) = COMPLETE" for i
    unfolding mem_bitfield_pieces n using g by auto
  then show ?thesis by (force intro: exI [of _ "nat _"])
qed

lemma bitfield_roundtrip_witness:
  "\<exists>pm. make_manager [replicate 20 0, replicate 20 1] 4 6 = Inr pm \<and>
     bitfield_pieces 2 (get_bitfield pm) = {int j | j. j < 2 \<and> p_state (pm_pieces pm ! j) = COMPLETE}"
proof -
  obtain pm where pm: "make_manager [replicate 20 0, replicate 20 1] 4 6 = Inr pm"
      and "pm_num_pieces pm = 2" "length (pm_pieces pm) = 2"
    by (simp add: make_manager_def piece_length_at_def make_piece_def)
  with bitfield_roundtrip [OF make_manager_ok [OF pm]] show ?thesis by auto
qed

text \<open>
  The two readers of a bitfield agree: \<open>on_peer_bitfield\<close> (the pieces the manager records)
  and \<open>BitfieldMessage.has_piece\<close>, for every bitfield and every piece of the torrent.
\<close>

theorem bitfield_readers_agree:
  assumes "0 \<le> i" "i < n"
  shows "has_piece bf i = Inr (i \<in> bitfield_pieces n bf)"
proof -
  have d: "nat (i div 8) = nat i div 8" using assms by (simp add: nat_div_distrib)
  have m: "nat (7 - i mod 8) = 7 - nat i mod 8" using assms by (simp add: nat_diff_distrib nat_mod_distrib)
  have l: "i div 8 < blen bf \<longleftrightarrow> nat i div 8 < length bf" using assms d by linarith
  show ?thesis
    using assms l by (auto simp: has_piece_def Let_def py_get_def py_index_nonneg mem_bitfield_pieces
        drop_bit_and_one d m pos_imp_zdiv_nonneg_iff)
qed

lemma bitfield_readers_agree_witness:
  "(0::int) \<le> 2 \<and> (2::int) < 9 \<and> has_piece [32, 128] 2 = Inr ((2::int) \<in> bitfield_pieces 9 [32, 128])"
  using bitfield_readers_agree [of 2 9 "[32, 128]"] by simp

subsection \<open>Rarest-first selection\<close>

lemma select_piece_raises:
  "(\<exists>e. select_piece itr peer pm = Inl e) \<longleftrightarrow> (\<exists>e. candidates pm (itr (peer_set pm peer)) = Inl e)"
proof (cases "candidates pm (itr (peer_set pm peer))")
  case (Inl e)
  then show ?thesis by (simp add: select_piece_def)
next
  case (Inr cs)
  show ?thesis
  proof (cases cs)
    case Nil
    with Inr show ?thesis by (simp add: select_piece_def)
  next
    case (Cons c cs')
    have "min_by (rarity pm) c cs' \<in> set (itr (peer_set pm peer))"
      using min_by_mem [of "rarity pm" c cs'] candidates_Inr [OF Inr] Cons
      by (metis (no_types, lifting) filter_is_subset list.simps(15) subsetD)
    with candidates_Inr [OF Inr] obtain j
      where "py_index (length (pm_pieces pm)) (min_by (rarity pm) c cs') = Inr j" by blast
    with Inr Cons show ?thesis by (simp add: select_piece_def Let_def)
  qed
qed

lemma select_piece_raises_iff:
  assumes "pm_ok pm" "set_order itr"
  shows "(\<exists>e. select_piece itr peer pm = Inl e) \<longleftrightarrow> (\<exists>i \<in> peer_set pm peer. pm_num_pieces pm \<le> i)"
  using assms finite_peer_set [OF assms(1), of peer] nonneg_peer_set [OF assms(1), of _ peer]
  unfolding select_piece_raises candidates_Inl
  by (auto simp: py_index_nonneg pm_ok_def set_order_def not_less)

lemma candidates_IndexError: "candidates pm is = Inl e \<Longrightarrow> e = IndexError"
  by (induction "is") (auto simp: res_simps py_get_def py_index_def Let_def split: if_splits)

lemma py_index_IndexError: "py_index n i = Inl e \<Longrightarrow> e = IndexError"
  by (auto simp: py_index_def Let_def split: if_splits)

lemma select_piece_IndexError: "select_piece itr peer pm = Inl e \<Longrightarrow> e = IndexError"
  by (cases "candidates pm (itr (peer_set pm peer))")
     (auto simp: select_piece_def bindR_Inl_iff Let_def dest: candidates_IndexError py_index_IndexError
        split: list.splits)

text \<open>
  C23. \<open>select_piece\<close> meets its contract when the peer's announced pieces exist: it returns None
  exactly when the peer has no NEEDED piece, and otherwise a NEEDED piece of that peer that no
  other such piece is rarer than; that piece, and nothing else, becomes PENDING.
\<close>

theorem select_piece_correct:
  assumes "pm_ok pm" "set_order itr" "\<forall>i \<in> peer_set pm peer. i < pm_num_pieces pm"
  shows "\<exists>r pm'. select_piece itr peer pm = Inr (r, pm') \<and>
    (case r of
       None \<Rightarrow> pm' = pm \<and> (\<forall>k < length (pm_pieces pm). int k \<in> peer_set pm peer \<longrightarrow> p_state (pm_pieces pm ! k) \<noteq> NEEDED)
     | Some i \<Rightarrow> \<exists>j < length (pm_pieces pm). i = int j \<and> i \<in> peer_set pm peer \<and> p_state (pm_pieces pm ! j) = NEEDED \<and>
         (\<forall>k < length (pm_pieces pm). int k \<in> peer_set pm peer \<longrightarrow> p_state (pm_pieces pm ! k) = NEEDED \<longrightarrow>
            rarity pm i \<le> rarity pm (int k)) \<and>
         pm_pieces pm' = (pm_pieces pm)[j := (pm_pieces pm ! j)\<lparr>p_state := PENDING\<rparr>] \<and>
         pm_pending pm' = insert i (pm_pending pm) \<and> pm_peer_pieces pm' = pm_peer_pieces pm)"
proof -
  have "\<not> (\<exists>e. select_piece itr peer pm = Inl e)"
    using assms(3) unfolding select_piece_raises_iff [OF assms(1,2)] by auto
  then obtain r pm' where sel: "select_piece itr peer pm = Inr (r, pm')"
    by (cases "select_piece itr peer pm") auto
  show ?thesis
  proof (cases r)
    case None
    with sel select_piece_None [of itr peer pm pm'] assms(1,2) show ?thesis by auto
  next
    case (Some i)
    with sel select_piece_Some [of itr peer pm i pm'] assms(1,2) show ?thesis
      by (auto simp: put_piece_def)
  qed
qed

lemma select_piece_correct_witness:
  "\<exists>pm. make_manager [replicate 20 0, replicate 20 1] 4 6 = Inr pm \<and>
     (\<exists>r pm'. select_piece sorted_list_of_set [9] (on_peer_bitfield [9] [64] pm) = Inr (r, pm'))"
proof -
  obtain pm where pm: "make_manager [replicate 20 0, replicate 20 1] 4 6 = Inr pm"
    by (simp add: make_manager_def piece_length_at_def make_piece_def)
  have ord: "set_order sorted_list_of_set" by (simp add: set_order_def)
  have ok: "pm_ok (on_peer_bitfield [9] [64] pm)" using make_manager_ok [OF pm] by (rule on_peer_bitfield_ok)
  have "\<forall>i \<in> peer_set (on_peer_bitfield [9] [64] pm) [9]. i < pm_num_pieces (on_peer_bitfield [9] [64] pm)"
    by (auto simp: peer_set_def on_peer_bitfield_def dict_simps mem_bitfield_pieces)
  from select_piece_correct [OF ok ord this] pm show ?thesis by blast
qed

text \<open>
  The one way selection raises: the peer has announced, by a Have message, a piece that the
  torrent does not have.  Then every selection for that peer raises IndexError.
\<close>

theorem select_piece_error:
  assumes "pm_ok pm" "set_order itr"
  shows "select_piece itr peer pm = Inl e \<longleftrightarrow>
    e = IndexError \<and> (\<exists>i \<in> peer_set pm peer. pm_num_pieces pm \<le> i)"
  using select_piece_raises_iff [OF assms, of peer] select_piece_IndexError by blast

lemma select_piece_error_witness:
  "\<exists>pm. make_manager [replicate 20 0, replicate 20 1] 4 6 = Inr pm \<and>
     select_piece sorted_list_of_set [9] (on_peer_have [9] 2 pm) = Inl IndexError"
proof -
  obtain pm where pm: "make_manager [replicate 20 0, replicate 20 1] 4 6 = Inr pm" and n: "pm_num_pieces pm = 2"
    by (simp add: make_manager_def piece_length_at_def make_piece_def)
  have ord: "set_order sorted_list_of_set" by (simp add: set_order_def)
  have ok: "pm_ok (on_peer_have [9] 2 pm)" using make_manager_ok [OF pm] by (rule on_peer_have_ok) simp
  have "2 \<in> peer_set (on_peer_have [9] 2 pm) [9]" "pm_num_pieces (on_peer_have [9] 2 pm) = 2"
    by (simp_all add: peer_set_def on_peer_have_def dict_simps n)
  with select_piece_error [OF ok ord, of "[9]" IndexError] pm show ?thesis by force
qed

subsection \<open>Downloading a piece\<close>

text \<open>What the next request asks for, and that its answer fits.\<close>

lemma missing_blocks_mem:
  assumes "piece_ok p" "(off, sz) \<in> set (missing_blocks p)"
  shows "0 \<le> off \<and> 0 < sz \<and> sz \<le> BLOCK_SIZE \<and> off + sz \<le> p_length p \<and> dict_get (p_blocks p) off = None"
  using assms tiles_mem [OF grid_tiles [of "p_length p"], of off sz]
  by (auto simp: missing_blocks_filter piece_ok_def)

text \<open>
  A block request lies inside the piece and inside one grid block, has not been answered
  yet, and a block of the requested size at the requested place is always accepted.
\<close>

theorem next_block_request_fits:
  assumes "pm_ok pm" "0 \<le> i" "next_block_request pm i = Inr (Some (i', off, len))" "blen data = len"
  shows "i' = i \<and> 0 \<le> off \<and> 0 < len \<and> len \<le> BLOCK_SIZE \<and> off + len \<le> p_length (pm_pieces pm ! nat i) \<and>
    dict_get (p_blocks (pm_pieces pm ! nat i)) off = None \<and> (\<exists>ok pm'. add_block i off data pm = Inr (ok, pm'))"
proof -
  from assms(2,3) have i: "nat i < length (pm_pieces pm)" "i < blen (pm_pieces pm)" and "i' = i"
      and m: "(off, len) \<in> set (missing_blocks (pm_pieces pm ! nat i))"
    by (auto simp: next_block_request_def py_get_def res_simps split: if_splits list.splits)
  note b = missing_blocks_mem [OF pm_ok_piece [OF assms(1) i(1)] m]
  have "\<exists>ok pm'. add_block i off data pm = Inr (ok, pm')"
    using b i assms(2,4) by (auto simp: add_block_def py_index_nonneg piece_add_block_def split: prod.splits)
  with b \<open>i' = i\<close> show ?thesis by blast
qed

lemma next_block_request_fits_witness:
  "\<exists>pm. make_manager [replicate 20 0] 4 3 = Inr pm \<and> next_block_request pm 0 = Inr (Some (0, 0, 3)) \<and>
     (\<exists>ok pm'. add_block 0 0 [1, 2, 3] pm = Inr (ok, pm'))"
proof -
  obtain pm where pm: "make_manager [replicate 20 0] 4 3 = Inr pm" and
      r: "next_block_request pm 0 = Inr (Some (0, 0, 3))"
    by (simp add: make_manager_def piece_length_at_def make_piece_def next_block_request_def py_get_def
        py_index_nonneg missing_blocks_def missing_from.simps BLOCK_SIZE_def)
  from next_block_request_fits [OF make_manager_ok [OF pm] _ r, of "[1, 2, 3]"] pm r show ?thesis by simp
qed

text \<open>
  \<open>deliver d i pm gs\<close>: the manager is handed, one after another, the blocks \<open>gs\<close> of piece \<open>i\<close>
  as somebody who has the data \<open>d\<close> sends them.
\<close>

definition deliver :: "bytes \<Rightarrow> int \<Rightarrow> piece_manager \<Rightarrow> (int \<times> int) list \<Rightarrow> piece_manager res" where
  "deliver d i = foldR (\<lambda>pm g. bindR (add_block i (fst g) (block_of d g) pm) (\<lambda>r. Inr (snd r)))"

lemma honest_piece_verify:
  assumes "honest d p" "is_complete_raw p" "sha1 d = p_hash p"
  shows "piece_verify p = (True, p\<lparr>p_state := COMPLETE\<rparr>)"
  using assms honest_complete [OF assms(1)] honest_assemble [OF assms(1)] by (simp add: piece_verify_def)

lemma honest_state [simp]: "honest d (p\<lparr>p_state := s\<rparr>) = honest d p"
  by (simp add: honest_def)

lemma missing_state [simp]: "missing_blocks (p\<lparr>p_state := s\<rparr>) = missing_blocks p"
  by (simp add: missing_blocks_def)

text \<open>One honest block: accepted, and the piece is COMPLETE exactly when nothing is missing.\<close>

lemma honest_block:
  assumes ok: "pm_ok pm" and j: "j < length (pm_pieces pm)"
    and h: "honest d (pm_pieces pm ! j)" "sha1 d = p_hash (pm_pieces pm ! j)"
    and g: "g \<in> set (grid (blen d))"
  shows "\<exists>pm'. bindR (add_block (int j) (fst g) (block_of d g) pm) (\<lambda>r. Inr (snd r)) = Inr pm' \<and>
    (\<exists>p'. pm_pieces pm' = (pm_pieces pm)[j := p'] \<and> honest d p' \<and> p_hash p' = p_hash (pm_pieces pm ! j) \<and>
       p_blocks p' = dict_set (fst g) (block_of d g) (p_blocks (pm_pieces pm ! j)))"
proof -
  let ?p = "pm_pieces pm ! j"
  from honest_add [OF h(1), of "fst g" "snd g"] g obtain p where p: "piece_add_block ?p (fst g) (block_of d g) = Inr p"
      and hp: "honest d p" and pe: "p = ?p\<lparr>p_received := p_received p, p_blocks := dict_set (fst g) (block_of d g) (p_blocks ?p)\<rparr>"
    by auto
  have hash: "sha1 d = p_hash p" "p_hash p = p_hash ?p" "p_blocks p = dict_set (fst g) (block_of d g) (p_blocks ?p)"
    using h(2) by (subst pe; simp)+
  show ?thesis
  proof (cases "is_complete_raw p")
    case True
    with honest_piece_verify [OF hp True hash(1)] hp hash(2,3) p j show ?thesis
      by (auto simp: add_block_def py_index_nonneg put_piece_def intro!: exI [of _ "p\<lparr>p_state := COMPLETE\<rparr>"])
  next
    case False
    with hp hash(2,3) p j show ?thesis
      by (auto simp: add_block_def py_index_nonneg put_piece_def)
  qed
qed

lemma deliver_honest:
  assumes "pm_ok pm" "j < length (pm_pieces pm)" "honest d (pm_pieces pm ! j)"
    "sha1 d = p_hash (pm_pieces pm ! j)" "set gs \<subseteq> set (grid (blen d))"
  shows "\<exists>pm' p'. deliver d (int j) pm gs = Inr pm' \<and> pm_ok pm' \<and> pm_pieces pm' = (pm_pieces pm)[j := p'] \<and>
    honest d p' \<and> p_hash p' = p_hash (pm_pieces pm ! j) \<and>
    fst ` set (p_blocks p') = fst ` set (p_blocks (pm_pieces pm ! j)) \<union> fst ` set gs"
  using assms
proof (induction gs arbitrary: pm)
  case Nil
  then show ?case by (auto simp: deliver_def intro!: exI [of _ "pm_pieces pm ! j"])
next
  case (Cons g gs)
  from honest_block [OF Cons.prems(1-4), of g] Cons.prems(5) obtain pm1 p1
    where 1: "bindR (add_block (int j) (fst g) (block_of d g) pm) (\<lambda>r. Inr (snd r)) = Inr pm1"
      and p1: "pm_pieces pm1 = (pm_pieces pm)[j := p1]" "honest d p1" "p_hash p1 = p_hash (pm_pieces pm ! j)"
        "p_blocks p1 = dict_set (fst g) (block_of d g) (p_blocks (pm_pieces pm ! j))" by auto
  have ok1: "pm_ok pm1" using 1 Cons.prems(1) by (auto simp: bindR_Inr_iff intro: add_block_ok)
  have at: "pm_pieces pm1 ! j = p1" "j < length (pm_pieces pm1)" using p1(1) Cons.prems(2) by simp_all
  with Cons.IH [OF ok1] p1 Cons.prems(4,5) obtain pm' p'
    where 2: "deliver d (int j) pm1 gs = Inr pm'" "pm_ok pm'" "pm_pieces pm' = (pm_pieces pm1)[j := p']" "honest d p'"
      "p_hash p' = p_hash p1" "fst ` set (p_blocks p') = fst ` set (p_blocks p1) \<union> fst ` set gs" by auto
  have "deliver d (int j) pm (g # gs) = Inr pm'" using 1 2(1) by (simp add: deliver_def)
  with 2 p1 show ?case by (intro exI [of _ pm'] exI [of _ p']) (auto simp: dict_simps)
qed

text \<open>
  C21. A download succeeds: if the blocks of a fresh piece arrive from honest peers in any order
  and any number of times, no call raises, the other pieces are untouched, and the piece is
  COMPLETE, and hands out exactly the data, as soon as every block of the grid has arrived, and
  not before.
\<close>

theorem download_completes:
  assumes "pm_ok pm" "j < length (pm_pieces pm)" "p_blocks (pm_pieces pm ! j) = []" "p_received (pm_pieces pm ! j) = 0"
    and "p_length (pm_pieces pm ! j) = blen d" "p_hash (pm_pieces pm ! j) = sha1 d"
    and "set gs \<subseteq> set (grid (blen d))"
  shows "\<exists>pm'. deliver d (int j) pm gs = Inr pm' \<and>
    (p_state (pm_pieces pm' ! j) = COMPLETE \<longleftrightarrow> set gs = set (grid (blen d))) \<and>
    (set gs = set (grid (blen d)) \<longrightarrow> get_piece_data pm' (int j) = Inr d) \<and>
    (\<forall>k. k \<noteq> j \<longrightarrow> pm_pieces pm' ! k = pm_pieces pm ! k)"
proof -
  from deliver_honest [OF assms(1,2) honest_fresh [OF assms(5,3,4)] _ assms(7)] assms(6) obtain pm' p'
    where d: "deliver d (int j) pm gs = Inr pm'" "pm_ok pm'" "pm_pieces pm' = (pm_pieces pm)[j := p']" "honest d p'"
      "p_hash p' = sha1 d" "fst ` set (p_blocks p') = fst ` set gs"
    using assms(3) by auto
  have p': "pm_pieces pm' ! j = p'" "j < length (pm_pieces pm')" using d(3) assms(2) by simp_all
  have all: "missing_blocks p' = [] \<longleftrightarrow> set gs = set (grid (blen d))"
  proof -
    have "missing_blocks p' = [] \<longleftrightarrow> (\<forall>g \<in> set (grid (blen d)). fst g \<in> fst ` set gs)"
      using d(4,6) unfolding missing_blocks_filter filter_empty_conv map_of_eq_None_iff case_prod_unfold
      by (auto simp: honest_def)
    also have "\<dots> \<longleftrightarrow> set (grid (blen d)) \<subseteq> set gs"
    proof (intro iffI subsetI)
      fix g assume "\<forall>g \<in> set (grid (blen d)). fst g \<in> fst ` set gs" and g: "g \<in> set (grid (blen d))"
      then obtain h where h: "h \<in> set gs" "fst h = fst g" by auto
      with assms(7) g grid_unique [of "fst g" "snd g" d "snd h"] have "snd g = snd h"
        by (metis prod.collapse subsetD)
      with h have "g = h" by (simp add: prod_eq_iff)
      with h show "g \<in> set gs" by simp
    qed auto
    finally show ?thesis using assms(7) by auto
  qed
  have st: "p_state p' = COMPLETE \<longleftrightarrow> is_complete_raw p'"
    using pm_ok_piece [OF d(2) p'(2)] p'(1) by (auto simp: piece_ok_def split: if_splits)
  have "get_piece_data pm' (int j) = Inr d" if "set gs = set (grid (blen d))"
    using that all st honest_complete [OF d(4)] honest_assemble [OF d(4)] p'
    by (simp add: get_piece_data_def py_get_def py_index_nonneg piece_data_def)
  with all st honest_complete [OF d(4)] d(1,3) p'(1) show ?thesis by auto
qed

lemma download_completes_witness:
  "\<exists>pm pm'. make_manager [sha1 [1, 2, 3]] 4 3 = Inr pm \<and>
     deliver [1, 2, 3] (int 0) pm [(0, 3), (0, 3)] = Inr pm' \<and> get_piece_data pm' (int 0) = Inr [1, 2, 3]"
proof -
  have g: "grid 3 = [(0, 3)]" by (simp add: grid_def missing_from.simps BLOCK_SIZE_def)
  obtain pm where pm: "make_manager [sha1 [1, 2, 3]] 4 3 = Inr pm" and
      p: "pm_pieces pm = [\<lparr>p_index = 0, p_length = 3, p_hash = sha1 [1, 2, 3], p_state = NEEDED, p_blocks = [], p_received = 0\<rparr>]"
    by (simp add: make_manager_def piece_length_at_def make_piece_def)
  from download_completes [OF make_manager_ok [OF pm], of 0 "[1, 2, 3]" "[(0, 3), (0, 3)]"] g p pm
  show ?thesis by auto
qed

text \<open>
  A corrupted piece is discarded: when the bytes are all there and their hash is wrong,
  \<open>add_block\<close> returns False and the piece is NEEDED, empty and no longer pending, so every
  block of its grid is requested again.
\<close>

theorem corrupt_piece_reset:
  assumes "pm_ok pm" "j < length (pm_pieces pm)"
    and "piece_add_block (pm_pieces pm ! j) off data = Inr p" "is_complete_raw p" "sha1 (assemble p) \<noteq> p_hash p"
  shows "\<exists>pm'. add_block (int j) off data pm = Inr (False, pm') \<and> pm_ok pm' \<and>
    p_state (pm_pieces pm' ! j) = NEEDED \<and> missing_blocks (pm_pieces pm' ! j) = grid (p_length (pm_pieces pm ! j)) \<and>
    int j \<notin> pm_pending pm' \<and> (\<forall>k. k \<noteq> j \<longrightarrow> pm_pieces pm' ! k = pm_pieces pm ! k)"
proof -
  let ?p' = "piece_reset (p\<lparr>p_state := FAILED\<rparr>)"
  let ?pm' = "(put_piece j ?p' pm)\<lparr>pm_pending := pm_pending pm - {int j}\<rparr>"
  have a: "add_block (int j) off data pm = Inr (False, ?pm')"
    using assms by (simp add: add_block_def py_index_nonneg piece_verify_def)
  have "missing_blocks ?p' = grid (p_length (pm_pieces pm ! j))"
    using piece_add_block_Inr [OF assms(3)] by (simp add: missing_blocks_filter piece_reset_def)
  with a add_block_ok [OF a _ assms(1)] assms(2) show ?thesis by (auto simp: put_piece_def)
qed

lemma corrupt_piece_reset_witness:
  "\<exists>pm pm'. make_manager [map ((+) 1) (sha1 [7])] 4 1 = Inr pm \<and>
     add_block (int 0) 0 [7] pm = Inr (False, pm') \<and> p_state (pm_pieces pm' ! 0) = NEEDED"
proof -
  have ne: "sha1 [7] \<noteq> map ((+) 1) (sha1 [7])"
    using length_sha1 [of "[7]"] by (cases "sha1 [7]") auto
  obtain pm where pm: "make_manager [map ((+) 1) (sha1 [7])] 4 1 = Inr pm" and
      p: "pm_pieces pm = [\<lparr>p_index = 0, p_length = 1, p_hash = map ((+) 1) (sha1 [7]), p_state = NEEDED, p_blocks = [], p_received = 0\<rparr>]"
    by (simp add: make_manager_def piece_length_at_def make_piece_def)
  from corrupt_piece_reset [OF make_manager_ok [OF pm], of 0 0 "[7]"] ne p pm
  show ?thesis by (auto simp: piece_add_block_def is_complete_raw_def assemble_def)
qed

subsection \<open>The states of a piece\<close>

text \<open>
  The state machine of one piece, by the call that drives it.  A piece leaves COMPLETE only by a
  further block for it whose bytes break the hash, or by \<open>mark_piece_failed\<close>.
\<close>

inductive piece_moves :: "pm_op \<Rightarrow> nat \<Rightarrow> piece_state \<Rightarrow> piece_state \<Rightarrow> bool" where
  select: "piece_moves (SelectPiece peer) j NEEDED PENDING"
| verified: "piece_moves (AddBlock (int j) off data) j s COMPLETE"
| corrupt: "piece_moves (AddBlock (int j) off data) j s NEEDED"
| failed: "piece_moves (MarkFailed (int j)) j s NEEDED"

inductive_simps piece_moves_simps: "piece_moves op j s s'"

lemma add_block_touches:
  assumes "add_block i off data pm = Inr (ok, pm')" "0 \<le> i" "pm_ok pm"
    and "p_state (pm_pieces pm' ! k) \<noteq> p_state (pm_pieces pm ! k)"
  shows "i = int k \<and> p_state (pm_pieces pm' ! k) \<in> {COMPLETE, NEEDED}"
proof -
  from add_block_Inr [OF assms(1,2)] obtain j p where j: "i = int j" "j < length (pm_pieces pm)"
      and p: "piece_add_block (pm_pieces pm ! j) off data = Inr p"
      and r: "if is_complete_raw p
       then \<exists>p'. piece_verify p = (ok, p') \<and> pm' = (put_piece j p' pm)\<lparr>pm_pending := pm_pending pm - {int j}\<rparr>
       else \<not> ok \<and> pm' = put_piece j p pm" by blast
  from r obtain p' where p': "pm_pieces pm' = (pm_pieces pm)[j := p']"
      "p_state p' = p_state (pm_pieces pm ! j) \<or> p_state p' \<in> {COMPLETE, NEEDED}"
    using piece_add_block_Inr [OF p] piece_verify_ok [OF pm_ok_piece [OF assms(3) j(2)] p]
    by (auto simp: put_piece_def split: if_splits)
  with assms(4) j show ?thesis by (cases "k = j") auto
qed

text \<open>
  C22. Every call moves every piece only along that machine: only a selection makes a piece
  PENDING, and only a NEEDED one; only a block makes it COMPLETE; availability messages change no
  piece.
\<close>

theorem piece_state_machine:
  assumes "pm_ok pm" "set_order itr" "pm_op_ok op" "pm_exec itr op pm = Inr pm'" "j < length (pm_pieces pm)"
    and "p_state (pm_pieces pm' ! j) \<noteq> p_state (pm_pieces pm ! j)"
  shows "piece_moves op j (p_state (pm_pieces pm ! j)) (p_state (pm_pieces pm' ! j))"
proof (cases op)
  case (SelectPiece peer)
  with assms(4) obtain r where sel: "select_piece itr peer pm = Inr (r, pm')" by (auto simp: res_simps)
  show ?thesis
  proof (cases r)
    case None
    with select_piece_None [OF sel [unfolded None] assms(2,1)] assms(6) show ?thesis by simp
  next
    case (Some i)
    with select_piece_Some [OF sel [unfolded Some] assms(2,1)] assms(5,6) SelectPiece show ?thesis
      by (auto simp: put_piece_def nth_list_update piece_moves_simps split: if_splits)
  qed
next
  case (AddBlock i off data)
  with assms(4) obtain ok where a: "add_block i off data pm = Inr (ok, pm')" by (auto simp: res_simps)
  with add_block_touches [OF a _ assms(1)] AddBlock assms(3,5,6) show ?thesis
    by (auto simp: piece_moves_simps)
next
  case (MarkFailed i)
  with assms mark_piece_failed_Inr [of i pm pm'] show ?thesis
    by (auto simp: put_piece_def nth_list_update piece_moves_simps split: if_splits)
qed (use assms in \<open>auto simp: on_peer_bitfield_def on_peer_have_def remove_peer_def\<close>)

lemma piece_state_machine_witness:
  "\<exists>pm pm'. make_manager [replicate 20 0] 4 3 = Inr pm \<and>
     pm_exec sorted_list_of_set (SelectPiece [9]) (on_peer_bitfield [9] [128] pm) = Inr pm' \<and>
     piece_moves (SelectPiece [9]) 0 NEEDED PENDING \<and> p_state (pm_pieces pm' ! 0) = PENDING"
proof -
  obtain pm where pm: "make_manager [replicate 20 0] 4 3 = Inr pm" and
      p: "pm_pieces pm = [\<lparr>p_index = 0, p_length = 3, p_hash = replicate 20 0, p_state = NEEDED, p_blocks = [], p_received = 0\<rparr>]"
        "pm_num_pieces pm = 1" "pm_pending pm = {}" "pm_peer_pieces pm = []"
    by (simp add: make_manager_def piece_length_at_def make_piece_def)
  let ?pm = "on_peer_bitfield [9] [128] pm"
  have ord: "set_order sorted_list_of_set" by (simp add: set_order_def)
  have bits: "bitfield_pieces 1 [128] = {0}"
    by (auto simp: mem_bitfield_pieces bit_numeral_rec)
  have s: "pm_exec sorted_list_of_set (SelectPiece [9]) ?pm =
      Inr ((put_piece 0 ((pm_pieces pm ! 0)\<lparr>p_state := PENDING\<rparr>) ?pm)\<lparr>pm_pending := {0}\<rparr>)"
    using p by (simp add: select_piece_def peer_set_def on_peer_bitfield_def bits py_get_def py_index_nonneg)
  have ok: "pm_ok ?pm" using make_manager_ok [OF pm] by (rule on_peer_bitfield_ok)
  from piece_state_machine [OF ok ord _ s, of 0] p s pm show ?thesis
    by (simp add: on_peer_bitfield_def put_piece_def)
qed

subsection \<open>The lengths of the pieces\<close>

lemma last_piece_length:
  fixes pl tot :: int
  assumes "0 < pl" "n = (tot + pl - 1) div pl"
  shows "(if tot mod pl > 0 then tot mod pl else pl) = tot - (n - 1) * pl"
proof -
  let ?q = "tot div pl" and ?r = "tot mod pl"
  have tot: "tot = ?q * pl + ?r" and r: "0 \<le> ?r" "?r < pl" using assms(1) by simp_all
  show ?thesis
  proof (cases "?r > 0")
    case True
    have "(tot + pl - 1) div pl = ((?r - 1) + (?q + 1) * pl) div pl" by (subst tot) (simp add: algebra_simps)
    also have "\<dots> = ?q + 1" using assms(1) r True by (subst div_mult_self1) simp_all
    finally have "n = ?q + 1" using assms(2) by simp
    with True tot show ?thesis by (simp add: algebra_simps)
  next
    case False
    then have r0: "?r = 0" using r by simp
    have "(tot + pl - 1) div pl = ((pl - 1) + ?q * pl) div pl" using tot r0 by (simp add: algebra_simps)
    also have "\<dots> = ?q" using assms(1) by (subst div_mult_self1) simp_all
    finally have "n = ?q" using assms(2) by simp
    with r0 tot show ?thesis by (simp add: algebra_simps)
  qed
qed

lemma sum_piece_lengths:
  "0 < n \<Longrightarrow> sum_list (map (\<lambda>j. if int j < int n - 1 then pl else tot - (int n - 1) * pl) [0..<n]) = (tot :: int)"
proof -
  assume "0 < n"
  then obtain m where n: "n = Suc m" by (cases n) auto
  have "map (\<lambda>j. if int j < int n - 1 then pl else tot - (int n - 1) * pl) [0..<m] = replicate m pl"
    by (rule nth_equalityI) (simp_all add: n)
  then have "sum_list (map (\<lambda>j. if int j < int n - 1 then pl else tot - (int n - 1) * pl) [0..<m]) = int m * pl"
    by (simp only: sum_list_replicate)
  then show ?thesis by (simp add: n)
qed

lemma manager_lengths:
  assumes "0 < pl" "0 < tot" "\<forall>h \<in> set hs. length h = 20" "blen hs = (tot + pl - 1) div pl"
  shows "\<exists>pm. make_manager hs pl tot = Inr pm \<and> sum_list (map p_length (pm_pieces pm)) = tot \<and>
    (\<forall>j < length hs. p_length (pm_pieces pm ! j) = (if int j < blen hs - 1 then pl else tot - (blen hs - 1) * pl)) \<and>
    (\<forall>p \<in> set (pm_pieces pm). 0 < p_length p \<and> p_length p \<le> pl)"
proof -
  let ?n = "blen hs"
  define f where "f j = (if int j < blen hs - 1 then pl else tot - (blen hs - 1) * pl)" for j
  have at: "piece_length_at ?n pl tot (int j) = Inr (f j)" for j
    using last_piece_length [OF assms(1,4)] assms(1) by (simp add: piece_length_at_def Let_def f_def)
  have last: "0 < tot - (?n - 1) * pl" "tot - (?n - 1) * pl \<le> pl"
    using last_piece_length [OF assms(1,4)] assms(1) by (smt (verit) pos_mod_bound)+
  then have rng: "0 < f j \<and> f j \<le> pl" for j using assms(1) by (simp add: f_def)
  have n: "0 < length hs" using pos_imp_zdiv_pos_iff [OF assms(1), of "tot + pl - 1"] assms(2,4) by linarith
  have mk: "make_piece (int j) (f j) h =
      Inr \<lparr>p_index = int j, p_length = f j, p_hash = h, p_state = NEEDED, p_blocks = [], p_received = 0\<rparr>"
    if "h \<in> set hs" for j h
    using rng [of j] assms(3) that by (simp add: make_piece_def not_le)
  obtain pm where pm: "make_manager hs pl tot = Inr pm"
      and ps: "pm_pieces pm = map (\<lambda>(j, h). \<lparr>p_index = int j, p_length = f j, p_hash = h, p_state = NEEDED,
                                       p_blocks = [], p_received = 0\<rparr>) (enumerate 0 hs)"
  proof -
    have "mapR (\<lambda>(i, h). bindR (piece_length_at ?n pl tot (int i)) (\<lambda>len. make_piece (int i) len h)) (enumerate 0 hs) =
      Inr (map (\<lambda>(j, h). \<lparr>p_index = int j, p_length = f j, p_hash = h, p_state = NEEDED,
                                       p_blocks = [], p_received = 0\<rparr>) (enumerate 0 hs))"
      using mk by (intro mapR_Inr) (auto simp: at in_set_enumerate_eq)
    then show ?thesis by (intro that) (simp add: make_manager_def, simp)
  qed
  have "map p_length (pm_pieces pm) = map f [0..<length hs]"
    by (rule nth_equalityI) (simp_all add: ps nth_enumerate_eq)
  with sum_piece_lengths [OF n, of pl tot] have "sum_list (map p_length (pm_pieces pm)) = tot"
    unfolding f_def by simp
  moreover have "\<forall>j < length hs. p_length (pm_pieces pm ! j) = f j" by (simp add: ps nth_enumerate_eq)
  moreover have "\<forall>p \<in> set (pm_pieces pm). 0 < p_length p \<and> p_length p \<le> pl" using rng by (auto simp: ps)
  ultimately show ?thesis using pm unfolding f_def by blast
qed

text \<open>
  C40. A manager for a well-formed torrent (20-byte hashes, as many as the total length needs)
  is always built, and its pieces partition the content: all but the last have the piece length,
  and together they have exactly the total length.
\<close>

theorem piece_lengths_partition:
  assumes "0 < pl" "0 < tot" "\<forall>h \<in> set hs. length h = 20" "blen hs = (tot + pl - 1) div pl"
  shows "\<exists>pm. make_manager hs pl tot = Inr pm \<and> sum_list (map p_length (pm_pieces pm)) = tot \<and>
    (\<forall>j < length hs. p_length (pm_pieces pm ! j) = (if int j < blen hs - 1 then pl else tot - (blen hs - 1) * pl)) \<and>
    (\<forall>p \<in> set (pm_pieces pm). 0 < p_length p \<and> p_length p \<le> pl)"
  using assms by (rule manager_lengths)

lemma piece_lengths_partition_witness:
  "\<exists>pm. make_manager [replicate 20 0, replicate 20 1] 4 6 = Inr pm \<and> sum_list (map p_length (pm_pieces pm)) = 6"
  using piece_lengths_partition [of 4 6 "[replicate 20 0, replicate 20 1]"] by auto

subsection \<open>Blocks that are not grid blocks\<close>

text \<open>
  \<open>Piece.add_block\<close> takes any block that lies inside the piece, whatever was requested.  A
  short (even an empty) block occupies its offset: nothing is missing any more, so nothing is
  requested, and yet the piece never becomes complete.
\<close>

lemma short_block_stalls:
  "\<exists>pm pm'. make_manager [replicate 20 0] 4 3 = Inr pm \<and> add_block 0 0 [] pm = Inr (False, pm') \<and>
     next_block_request pm' 0 = Inr None \<and> num_complete pm' = 0"
  by (simp add: make_manager_def piece_length_at_def make_piece_def add_block_def py_index_nonneg
      piece_add_block_def is_complete_raw_def put_piece_def next_block_request_def py_get_def
      missing_blocks_def missing_from.simps BLOCK_SIZE_def num_complete_def)

text \<open>
  And a block for a COMPLETE piece overwrites the verified bytes; when the hash then fails, the
  piece is NEEDED again.
\<close>

lemma complete_piece_lost:
  "\<exists>pm pm1 pm2. make_manager [sha1 [7]] 4 1 = Inr pm \<and> add_block 0 0 [7] pm = Inr (True, pm1) \<and> num_complete pm1 = 1 \<and>
     (sha1 [8] \<noteq> sha1 [7] \<longrightarrow> add_block 0 0 [8] pm1 = Inr (False, pm2) \<and> num_complete pm2 = 0)"
  by (simp add: make_manager_def piece_length_at_def make_piece_def add_block_def py_index_nonneg
      piece_add_block_def is_complete_raw_def put_piece_def piece_verify_def assemble_def piece_reset_def
      num_complete_def)

end
