(* ===== verification/TorrentFile.thy ===== *)
theory TorrentFile
  imports Bencode Sha1
begin

section \<open>Torrent files (client/modules/torrentFileParser.py)\<close>

text \<open>
  From the bytes of a .torrent file to the torrent: which fields are required, what each must
  be, and how the info hash is found.  A missing key reads as None (\<open>PyNone\<close>); the parser's
  own failures are TorrentParseError.
\<close>

record file_info =
  fi_path :: ustr
  fi_length :: int

record torrent =
  t_announce :: ustr
  t_info_hash :: bytes
  t_piece_hashes :: "bytes list"
  t_piece_length :: int
  t_files :: "file_info list"
  t_name :: bytes
  t_announce_list :: "ustr list list"
  t_comment :: "ustr option"
  t_created_by :: "ustr option"
  t_creation_date :: pyval
  t_is_private :: bool

definition total_length :: "torrent \<Rightarrow> int" where
  "total_length t = sum_list (map fi_length (t_files t))"

definition num_pieces :: "torrent \<Rightarrow> int" where
  "num_pieces t = blen (t_piece_hashes t)"

definition is_multi_file :: "torrent \<Rightarrow> bool" where
  "is_multi_file t \<longleftrightarrow> blen (t_files t) > 1"

abbreviation parse_error :: "string \<Rightarrow> 'a res" where
  "parse_error m \<equiv> Inl (TorrentParseError m)"

text \<open>\<open>_get\<close>: a required field.\<close>

definition get_required :: "(pykey \<times> pyval) list \<Rightarrow> string \<Rightarrow> pyval res" where
  "get_required d key =
     (let value = get_either d key
      in if value = PyNone then parse_error ''Missing required field'' else Inr value)"

text \<open>An optional text field: None stays None.\<close>

definition optional_text :: "pyval \<Rightarrow> ustr option res" where
  "optional_text v = (if v = PyNone then Inr None else bindR (as_text v) (\<lambda>s. Inr (Some s)))"

definition parse_announce_list :: "pyval \<Rightarrow> ustr list list res" where
  "parse_announce_list v =
     (case v of
        PyList tiers \<Rightarrow>
          foldR (\<lambda>acc tier. case tier of
                    PyList urls \<Rightarrow> bindR (mapR as_text urls) (\<lambda>us. Inr (acc @ [us]))
                  | _ \<Rightarrow> Inr acc) [] tiers
      | _ \<Rightarrow> Inr [])"

text \<open>The piece hashes: \<open>pieces_raw[i:i+20] for i in range(0, len(pieces_raw), 20)\<close>.\<close>

definition split_hashes :: "bytes \<Rightarrow> bytes list" where
  "split_hashes raw = map (\<lambda>k. slice (20 * k) (20 * k + 20) raw) [0..<(length raw + 19) div 20]"

definition parse_file_entry :: "ustr \<Rightarrow> pyval \<Rightarrow> file_info res" where
  "parse_file_entry root entry =
     (case entry of
        PyDict d \<Rightarrow>
          (case get_either d ''length'' of
             PyInt len \<Rightarrow>
               if len < 0 then parse_error ''Invalid or missing length in file entry''
               else (case get_either d ''path'' of
                  PyList parts \<Rightarrow>
                    if parts = [] then parse_error ''Invalid or missing path in file entry''
                    else bindR (mapR as_text parts) (\<lambda>path_parts.
                           Inr \<lparr>fi_path = join_with (ucs ''/'') (root # path_parts), fi_length = len\<rparr>)
                | _ \<Rightarrow> parse_error ''Invalid or missing path in file entry'')
           | _ \<Rightarrow> parse_error ''Invalid or missing length in file entry'')
      | _ \<Rightarrow> parse_error ''Each entry in info.files must be a dict'')"

definition parse_multi_file :: "pyval list \<Rightarrow> bytes \<Rightarrow> file_info list res" where
  "parse_multi_file files_raw torrent_name =
     mapR (parse_file_entry (utf8_decode torrent_name)) files_raw"

text \<open>
  \<open>_compute_info_hash\<close>: the first place where the bytes \<open>4:info\<close> occur, anywhere in the file,
  and the value that can be parsed behind it.  The parse may raise BencodeDecodeError.
\<close>

definition compute_info_hash :: "bytes \<Rightarrow> bytes res" where
  "compute_info_hash raw_meta_bytes =
     (case find_from (ascii ''4:info'') raw_meta_bytes 0 of
        None \<Rightarrow> parse_error ''Cannot locate info key in raw torrent bytes for hashing''
      | Some start \<Rightarrow>
          let info_value_start = start + length (ascii ''4:info'') in
          bindR (parse_next (drop info_value_start raw_meta_bytes) 0) (\<lambda>(v, index).
            Inr (sha1 (slice info_value_start (info_value_start + index) raw_meta_bytes))))"

definition parse_name :: "pyval \<Rightarrow> bytes res" where
  "parse_name v = (case v of PyBytes b \<Rightarrow> Inr b | _ \<Rightarrow> bindR (py_str v) utf8_encode)"

definition parse_files :: "(pykey \<times> pyval) list \<Rightarrow> bytes \<Rightarrow> file_info list res" where
  "parse_files info name =
     (let files_raw = get_either info ''files'' in
      if files_raw \<noteq> PyNone then
        (case files_raw of
           PyList entries \<Rightarrow> parse_multi_file entries name
         | _ \<Rightarrow> parse_error ''info.files must be a list'')
      else
        bindR (get_required info ''length'') (\<lambda>len.
          case len of
            PyInt n \<Rightarrow> if n < 0 then parse_error ''Invalid file length''
                       else Inr [\<lparr>fi_path = utf8_decode name, fi_length = n\<rparr>]
          | _ \<Rightarrow> parse_error ''Invalid file length''))"

text \<open>The info dictionary: piece length, piece hashes, name, private flag and files.\<close>

definition parse_info ::
  "(pykey \<times> pyval) list \<Rightarrow> (int \<times> bytes list \<times> bytes \<times> bool \<times> file_info list) res" where
  "parse_info info =
     bindR (get_required info ''piece length'') (\<lambda>pl.
       case pl of
         PyInt piece_length \<Rightarrow>
           if piece_length \<le> 0 then parse_error ''Invalid piece length''
           else
             bindR (get_required info ''pieces'') (\<lambda>pr.
               case pr of
                 PyBytes pieces_raw \<Rightarrow>
                   if length pieces_raw mod 20 \<noteq> 0
                   then parse_error ''info.pieces length is not a multiple of 20''
                   else
                     bindR (get_required info ''name'') (\<lambda>nr.
                       bindR (parse_name nr) (\<lambda>name.
                         bindR (parse_files info name) (\<lambda>files.
                           Inr (piece_length, split_hashes pieces_raw, name,
                                truthy (get_either info ''private''), files))))
               | _ \<Rightarrow> parse_error ''info.pieces must be a byte string'')
       | _ \<Rightarrow> parse_error ''Invalid piece length'')"

definition from_meta :: "(pykey \<times> pyval) list \<Rightarrow> bytes \<Rightarrow> torrent res" where
  "from_meta meta raw_meta_bytes =
     bindR (bindR (get_required meta ''announce'') as_text) (\<lambda>announce.
       bindR (parse_announce_list (get_either meta ''announce-list'')) (\<lambda>announce_list.
         bindR (optional_text (get_either meta ''comment'')) (\<lambda>comment.
           bindR (optional_text (get_either meta ''created by'')) (\<lambda>created_by.
             bindR (get_required meta ''info'') (\<lambda>info_raw.
               case info_raw of
                 PyDict info \<Rightarrow>
                   bindR (compute_info_hash raw_meta_bytes) (\<lambda>info_hash.
                     bindR (parse_info info) (\<lambda>(piece_length, piece_hashes, name, is_private, files).
                       Inr \<lparr>t_announce = announce, t_info_hash = info_hash, t_piece_hashes = piece_hashes,
                            t_piece_length = piece_length, t_files = files, t_name = name,
                            t_announce_list = announce_list, t_comment = comment, t_created_by = created_by,
                            t_creation_date = get_either meta ''creation date'', t_is_private = is_private\<rparr>))
               | _ \<Rightarrow> parse_error ''info field is not a dictionary'')))))"

definition from_bytes :: "bytes \<Rightarrow> torrent res" where
  "from_bytes data =
     (case decode_data data of
        Inl (BencodeDecodeError m) \<Rightarrow> parse_error ''Failed to bencode-decode torrent data''
      | Inl e \<Rightarrow> Inl e
      | Inr (PyDict meta) \<Rightarrow> from_meta meta data
      | Inr _ \<Rightarrow> parse_error ''Metainfo is not a bencoded dictionary'')"

text \<open>\<open>from_path\<close>: the same on the contents of a file; FileNotFoundError is an OSError.\<close>

definition from_path :: "bytes option \<Rightarrow> torrent res" where
  "from_path contents = (case contents of None \<Rightarrow> Inl OSError | Some raw \<Rightarrow> from_bytes raw)"

lemma get_required_Inr [res_simps]: "get_required d key = Inr v \<longleftrightarrow> get_either d key = v \<and> v \<noteq> PyNone"
  by (auto simp: get_required_def Let_def)

lemma get_required_Inl: "get_required d key = Inl e \<longleftrightarrow>
    get_either d key = PyNone \<and> e = TorrentParseError ''Missing required field''"
  by (auto simp: get_required_def Let_def)

subsection \<open>What the decoder made can be shown as text\<close>

lemma encodable_list_mem: "encode (PyList xs) = Inr bs \<Longrightarrow> x \<in> set xs \<Longrightarrow> \<exists>cs. encode x = Inr cs"
  by (force simp: bindR_Inr_iff mapR_Inr_iff list_all2_conv_all_nth in_set_conv_nth)

lemma list_all2_left: "list_all2 P xs ys \<Longrightarrow> x \<in> set xs \<Longrightarrow> \<exists>y \<in> set ys. P x y"
  by (induction rule: list_all2_induct) auto

lemma encodable_dict_mem:
  assumes "encode (PyDict kvs) = Inr bs" "(k, v) \<in> set kvs"
  shows "\<exists>cs. encode v = Inr cs"
proof -
  from encode_items_Inr [of encode kvs bs] assms(1) obtain parts where
    "list_all2 (\<lambda>(k, v) p. \<exists>h b. encode_bytes (key_bytes k) = Inr h \<and> encode v = Inr b \<and> p = h @ b)
      (sort_key (\<lambda>p. key_bytes (fst p)) kvs) parts" by auto
  from list_all2_left [OF this, of "(k, v)"] assms(2) show ?thesis by auto
qed

lemma rewritable_list_mem: "rewritable (PyList xs) \<Longrightarrow> x \<in> set xs \<Longrightarrow> rewritable x"
  using encodable_list_mem by (auto simp: rewritable_def encodable_def)

lemma rewritable_dict_mem: "rewritable (PyDict kvs) \<Longrightarrow> (k, v) \<in> set kvs \<Longrightarrow> rewritable v \<and> (\<exists>b. k = KBytes b)"
  using encodable_dict_mem by (fastforce simp: rewritable_def encodable_def)

lemma rewritable_repr: "rewritable v \<Longrightarrow> \<exists>s. py_repr v = Inr s"
proof (induction v)
  case (PyInt i)
  then show ?case by (auto simp: rewritable_def encodable_def bindR_Inr_iff)
next
  case (PyList xs)
  then have "\<forall>x \<in> set xs. \<exists>s. py_repr x = Inr s" using rewritable_list_mem by blast
  then have "\<exists>ps. mapR (\<lambda>r. r) (map py_repr xs) = Inr ps" by (intro mapR_exists) auto
  then show ?case by auto
next
  case (PyDict kvs)
  let ?f = "\<lambda>(k, r). bindR (key_repr k) (\<lambda>k'. bindR r (\<lambda>v. Inr (k' @ ucs '': '' @ v)))"
  have "\<exists>s. py_repr v = Inr s \<and> (\<exists>b. k = KBytes b)" if "(k, v) \<in> set kvs" for k v
    using PyDict.IH [OF that] rewritable_dict_mem [OF PyDict.prems that] by (simp add: prod_set_simps)
  then have "\<exists>ps. mapR ?f (map (map_prod (\<lambda>k. k) py_repr) kvs) = Inr ps"
    by (intro mapR_exists) (force simp: key_repr_def)
  then show ?case by auto
qed (auto simp: rewritable_def)

lemma rewritable_as_text: "rewritable v \<Longrightarrow> \<exists>s. as_text v = Inr s"
  using rewritable_repr [of v] by (auto simp: as_text_def py_str_def rewritable_def split: pyval.splits)

lemma get_either_rewritable:
  "rewritable (PyDict d) \<Longrightarrow> get_either d key = PyNone \<or> rewritable (get_either d key)"
  by (auto simp: get_either_def py_or_def py_lookup_def split: option.splits
      dest!: map_of_SomeD intro: conjunct1 [OF rewritable_dict_mem])

text \<open>A field that was found is truthy: the lookup passes over zero and empty values.\<close>

lemma get_either_truthy:
  assumes "rewritable (PyDict d)" "get_either d key \<noteq> PyNone"
  shows "truthy (get_either d key)"
proof -
  have "py_lookup d (KStr (ucs key)) = PyNone"
    using rewritable_dict_mem [OF assms(1)]
    by (auto simp: py_lookup_def split: option.splits dest!: map_of_SomeD)
  with assms(2) show ?thesis by (auto simp: get_either_def py_or_def split: if_splits)
qed

lemma decode_rewritable: "decode_data bs = Inr v \<Longrightarrow> rewritable v"
  using parse_rewritable(1) by (auto simp: decode_data_def bindR_Inr_iff split: if_splits)

subsection \<open>What a parsed torrent is like\<close>

lemma concat_slices:
  "concat (map (\<lambda>k. slice (20 * k) (20 * k + 20) raw) [0..<n]) = slice 0 (20 * n) raw"
proof (induction n)
  case (Suc n)
  then show ?case using slice_concat [of 0 "20 * n" "20 * n + 20" raw] by (simp add: add.commute)
qed (simp add: slice_def)

lemma split_hashes_spec:
  assumes "length raw mod 20 = 0"
  shows "concat (split_hashes raw) = raw \<and> (\<forall>h \<in> set (split_hashes raw). length h = 20) \<and>
    20 * length (split_hashes raw) = length raw"
proof -
  from assms obtain m where m: "length raw = 20 * m" by (auto simp: mod_eq_0_iff_dvd dvd_def)
  then have n: "(length raw + 19) div 20 = m" by simp
  have "length (slice (20 * k) (20 * k + 20) raw) = 20" if "k < m" for k using m that by simp
  with n m show ?thesis using concat_slices [of raw m] slice_whole [of raw] by (simp add: split_hashes_def)
qed

text \<open>The form of an info dictionary's fields, as the parser left them.\<close>

definition torrent_ok :: "torrent \<Rightarrow> bool" where
  "torrent_ok t \<longleftrightarrow> 0 < t_piece_length t \<and> t_piece_hashes t \<noteq> [] \<and> (\<forall>h \<in> set (t_piece_hashes t). length h = 20) \<and>
     t_files t \<noteq> [] \<and> (\<forall>f \<in> set (t_files t). 0 < fi_length f) \<and> length (t_info_hash t) = 20"

lemma parse_file_entry_Inr:
  assumes "parse_file_entry root entry = Inr f" "rewritable entry"
  shows "0 < fi_length f"
proof -
  from assms(1) obtain d n where d: "entry = PyDict d" and n: "get_either d ''length'' = PyInt n" "\<not> n < 0"
      and f: "fi_length f = n"
    by (auto simp: parse_file_entry_def res_simps)
  from get_either_truthy [of d "''length''"] assms(2) d n f show ?thesis by simp
qed

lemma parse_files_Inr:
  assumes "parse_files info name = Inr fs" "rewritable (PyDict info)"
  shows "fs \<noteq> [] \<and> (\<forall>f \<in> set fs. 0 < fi_length f)"
proof (cases "get_either info ''files'' = PyNone")
  case True
  with assms(1) obtain n where n: "get_either info ''length'' = PyInt n" "\<not> n < 0" and fs: "map fi_length fs = [n]"
    by (auto simp: parse_files_def Let_def res_simps)
  from get_either_truthy [OF assms(2), of "''length''"] n have "0 < n" by simp
  with fs show ?thesis by auto
next
  case False
  with assms(1) obtain es where es: "get_either info ''files'' = PyList es"
      and fs: "mapR (parse_file_entry (utf8_decode name)) es = Inr fs"
    by (auto simp: parse_files_def parse_multi_file_def Let_def res_simps simp del: mapR_Inr_iff)
  from get_either_truthy [OF assms(2), of "''files''"] es have "es \<noteq> []" by simp
  with fs have "fs \<noteq> []" by (auto simp: mapR_Inr_iff)
  moreover have "rewritable (PyList es)" using get_either_rewritable [OF assms(2), of "''files''"] es by simp
  then have "0 < fi_length f" if "f \<in> set fs" for f
    using mapR_mem [OF fs that] parse_file_entry_Inr rewritable_list_mem by blast
  ultimately show ?thesis by blast
qed

lemma parse_info_Inr:
  assumes "parse_info info = Inr (pl, hs, name, priv, fs)" "rewritable (PyDict info)"
  shows "0 < pl \<and> hs \<noteq> [] \<and> (\<forall>h \<in> set hs. length h = 20) \<and> fs \<noteq> [] \<and> (\<forall>f \<in> set fs. 0 < fi_length f) \<and>
    (\<exists>raw. get_either info ''pieces'' = PyBytes raw \<and> concat hs = raw)"
proof -
  from assms(1) obtain raw where pl: "0 < pl" and raw: "get_either info ''pieces'' = PyBytes raw"
      "length raw mod 20 = 0" "hs = split_hashes raw" and fs: "parse_files info name = Inr fs"
    by (auto simp: parse_info_def Let_def res_simps not_le)
  from get_either_truthy [OF assms(2), of "''pieces''"] raw have "raw \<noteq> []" by simp
  with split_hashes_spec [OF raw(2)] raw have "hs \<noteq> []" by auto
  with pl raw split_hashes_spec [OF raw(2)] parse_files_Inr [OF fs assms(2)] show ?thesis by simp
qed

lemma compute_info_hash_length: "compute_info_hash raw = Inr h \<Longrightarrow> length h = 20"
  by (auto simp: compute_info_hash_def Let_def bindR_Inr_iff length_sha1 split: option.splits)

lemma from_bytes_Inr:
  assumes "from_bytes data = Inr t"
  obtains meta info where "decode_data data = Inr (PyDict meta)" "rewritable (PyDict meta)"
    "get_either meta ''info'' = PyDict info" "rewritable (PyDict info)"
    "compute_info_hash data = Inr (t_info_hash t)"
    "parse_info info = Inr (t_piece_length t, t_piece_hashes t, t_name t, t_is_private t, t_files t)"
proof -
  from assms obtain meta where m: "decode_data data = Inr (PyDict meta)" and t: "from_meta meta data = Inr t"
    by (auto simp: from_bytes_def split: sum.splits exc.splits pyval.splits)
  note r = decode_rewritable [OF m]
  from t obtain info where i: "get_either meta ''info'' = PyDict info"
      and h: "compute_info_hash data = Inr (t_info_hash t)"
      and p: "parse_info info = Inr (t_piece_length t, t_piece_hashes t, t_name t, t_is_private t, t_files t)"
    by (auto simp: from_meta_def Let_def res_simps)
  have "rewritable (PyDict info)" using get_either_rewritable [OF r, of "''info''"] i by simp
  with m r i h p that show thesis by blast
qed

lemma from_bytes_ok:
  assumes "from_bytes data = Inr t"
  shows "torrent_ok t \<and> 0 < total_length t \<and> 0 < num_pieces t"
proof -
  from assms obtain info where "rewritable (PyDict info)" "compute_info_hash data = Inr (t_info_hash t)"
    "parse_info info = Inr (t_piece_length t, t_piece_hashes t, t_name t, t_is_private t, t_files t)"
    by (rule from_bytes_Inr)
  then have ok: "torrent_ok t" using parse_info_Inr compute_info_hash_length unfolding torrent_ok_def by blast
  then have "0 < sum_list (map fi_length (t_files t))"
  proof (cases "t_files t")
    case (Cons f fs)
    moreover have "0 \<le> sum_list (map fi_length fs)"
      using ok Cons by (intro sum_list_nonneg) (auto simp: torrent_ok_def)
    ultimately show ?thesis using ok by (simp add: torrent_ok_def)
  qed (simp add: torrent_ok_def)
  with ok show ?thesis by (simp add: total_length_def num_pieces_def torrent_ok_def)
qed

text \<open>
  C27. A torrent that parses is well-formed: the piece length is positive, there is at least one
  piece hash and each has 20 bytes, there is at least one file, no file is empty, and the info
  hash has 20 bytes.
\<close>

theorem parsed_torrent_ok:
  assumes "from_bytes data = Inr t"
  shows "torrent_ok t \<and> 0 < total_length t \<and> 0 < num_pieces t"
  using assms by (rule from_bytes_ok)

subsection \<open>How parsing fails\<close>

lemmas failure_simps = bindR_Inl_iff case_pyval_Inl_iff if_Inl_iff Let_def get_required_Inr get_required_Inl

text \<open>The failures of the parser: its own error, or one the second bencode parse raised.\<close>

definition own_failure :: "exc \<Rightarrow> bool" where
  "own_failure e \<longleftrightarrow> (\<exists>m. e = TorrentParseError m)"

lemma own_failure_simps [simp]: "own_failure (TorrentParseError m)"
  by (simp add: own_failure_def)

lemma texts_total: "rewritable (PyList xs) \<Longrightarrow> mapR as_text xs \<noteq> Inl e"
  using mapR_Inl [of as_text xs e] rewritable_as_text rewritable_list_mem by fastforce

lemma parse_file_entry_failure:
  assumes "parse_file_entry root entry = Inl e" "rewritable entry"
  shows "own_failure e"
proof -
  have "rewritable (PyList xs)" if "entry = PyDict d" "get_either d ''path'' = PyList xs" for d xs
    using get_either_rewritable [of d "''path''"] that assms(2) by simp
  with assms(1) show ?thesis by (auto simp: parse_file_entry_def failure_simps dest: texts_total)
qed

lemma parse_files_failure:
  assumes "parse_files info name = Inl e" "rewritable (PyDict info)"
  shows "own_failure e"
proof -
  have "own_failure e" if "parse_multi_file xs name = Inl e" "rewritable (PyList xs)" for xs
    using that mapR_Inl [of _ xs e] parse_file_entry_failure rewritable_list_mem
    unfolding parse_multi_file_def by blast
  moreover have "rewritable (PyList xs)" if "get_either info ''files'' = PyList xs" for xs
    using get_either_rewritable [OF assms(2), of "''files''"] that by simp
  ultimately show ?thesis
    using assms(1) by (auto simp: parse_files_def failure_simps)
qed

lemma parse_name_total:
  assumes "rewritable v"
  shows "\<exists>n. parse_name v = Inr n"
proof -
  have "utf8_encode s = Inr (map of_nat s)" if "py_str v = Inr s" "decoded v" for s
    using that ascii_text_repr [of v s] by (auto simp: py_str_def ascii_text_def utf8_encode_ascii split: pyval.splits)
  moreover obtain s where "as_text v = Inr s" using rewritable_as_text [OF assms] by blast
  ultimately show ?thesis using assms
    by (auto simp: parse_name_def as_text_def rewritable_def split: pyval.splits)
qed

lemma parse_info_failure:
  assumes "parse_info info = Inl e" "rewritable (PyDict info)"
  shows "own_failure e"
proof -
  have "parse_name (get_either info ''name'') \<noteq> Inl e'" if "get_either info ''name'' \<noteq> PyNone" for e'
    using parse_name_total [of "get_either info ''name''"] get_either_rewritable [OF assms(2), of "''name''"] that
    by auto
  with assms parse_files_failure show ?thesis
    by (auto simp: parse_info_def failure_simps)
qed

lemma compute_info_hash_failure:
  assumes "compute_info_hash raw = Inl e"
  shows "own_failure e \<or> (\<exists>m. e = BencodeDecodeError m)"
  using assms parse_failure(1)
  by (auto simp: compute_info_hash_def failure_simps decode_failure_def split: option.splits)

lemma optional_text_total: "v = PyNone \<or> rewritable v \<Longrightarrow> optional_text v \<noteq> Inl e"
  using rewritable_as_text [of v] by (auto simp: optional_text_def)

lemma parse_tiers_total:
  "\<forall>t \<in> set tiers. rewritable t \<Longrightarrow>
     foldR (\<lambda>acc tier. case tier of
                    PyList urls \<Rightarrow> bindR (mapR as_text urls) (\<lambda>us. Inr (acc @ [us]))
                  | _ \<Rightarrow> Inr acc) acc tiers \<noteq> Inl e"
  using texts_total
  by (induction tiers arbitrary: acc) (auto simp: failure_simps)

lemma parse_announce_list_total:
  "v = PyNone \<or> rewritable v \<Longrightarrow> parse_announce_list v \<noteq> Inl e"
  using parse_tiers_total rewritable_list_mem
  by (auto simp: parse_announce_list_def split: pyval.splits)


subsection \<open>The info hash\<close>

lemma compute_info_hash_at:
  assumes "data = pre @ ascii ''4:info'' @ bs @ post" "encode v = Inr bs" "distinct_keys v"
    and "\<forall>i < length pre. \<not> occurs_at (ascii ''4:info'') i data"
  shows "compute_info_hash data = Inr (sha1 bs)"
proof -
  let ?k = "ascii ''4:info''"
  have f: "find_from ?k data 0 = Some (length pre)"
    using assms(1,4) by (intro find_from_first) (auto simp: occurs_at_def)
  have "parse_next (bs @ post) 0 = Inr (wire v, length bs)"
    using parse_next_encode [OF assms(2,3), of 0 "bs @ post"] occurs_atI [of bs "[]" post] by simp
  moreover have "drop (length pre + length ?k) data = bs @ post" by (simp add: assms(1))
  moreover have "slice (length pre + length ?k) (length pre + length ?k + length bs) data = bs"
    using occurs_at_slice [OF occurs_atI [of bs "pre @ ?k" post]] by (simp add: assms(1))
  ultimately show ?thesis unfolding compute_info_hash_def Let_def f by simp
qed

text \<open>
  C30. The info hash is the SHA-1 of the bencoded info value, as long as the bytes \<open>4:info\<close> do
  not occur anywhere before the info key.
\<close>

theorem info_hash_correct:
  assumes "data = pre @ ascii ''4:info'' @ bs @ post" "encode v = Inr bs" "distinct_keys v"
    and "\<forall>i < length pre. \<not> occurs_at (ascii ''4:info'') i data"
  shows "compute_info_hash data = Inr (sha1 bs)"
  using assms by (rule compute_info_hash_at)

lemma info_hash_correct_witness:
  "compute_info_hash (ascii ''d1:ai1e4:infod1:xi2eee'') = Inr (sha1 (ascii ''d1:xi2ee''))"
proof (rule info_hash_correct [where pre = "ascii ''d1:ai1e''" and post = "ascii ''e''"
      and v = "PyDict [(KBytes (ascii ''x''), PyInt 2)]"])
  show "encode (PyDict [(KBytes (ascii ''x''), PyInt 2)]) = Inr (ascii ''d1:xi2ee'')"
    by (simp add: encode_items_def encode_eval)
  have "\<forall>i \<in> set [0..<7]. \<not> occurs_at (ascii ''4:info'') i (ascii ''d1:ai1e4:infod1:xi2eee'')"
    by code_simp
  then show "\<forall>i < length (ascii ''d1:ai1e''). \<not> occurs_at (ascii ''4:info'') i (ascii ''d1:ai1e4:infod1:xi2eee'')"
    by simp
qed simp_all

text \<open>
  Where that condition fails the hash is of something else.  A comment of 14 characters that
  starts with \<open>info\<close> is enough: its length prefix ends in 4, so the file contains
  \<open>4:info\<close> inside the comment, and what is hashed is the rest of that text.
\<close>

definition misleading_torrent :: bytes where
  "misleading_torrent =
     ascii ''d8:announce1:x7:comment14:infoi1e0000000'' @
     ascii ''4:infod6:lengthi1e4:name1:n12:piece lengthi1e6:pieces20:aaaaaaaaaaaaaaaaaaaaee''"

lemma info_hash_misled:
  "compute_info_hash misleading_torrent = Inr (sha1 (ascii ''i1e''))"
proof -
  have "find_from (ascii ''4:info'') misleading_torrent 0 = Some 24" by code_simp
  moreover have "parse_next (drop 30 misleading_torrent) 0 = Inr (PyInt 1, 3)" by code_simp
  moreover have "slice 30 33 misleading_torrent = ascii ''i1e''" by code_simp
  ultimately show ?thesis by (simp add: compute_info_hash_def)
qed

text \<open>The parser accepts that torrent, so the wrong hash is what the client announces.\<close>

lemma misleading_torrent_accepted:
  "\<exists>t. from_bytes misleading_torrent = Inr t \<and> t_info_hash t = sha1 (ascii ''i1e'')"
proof -
  obtain meta info where m: "decode_data misleading_torrent = Inr (PyDict meta)"
      and "meta = [(KBytes (ascii ''announce''), PyBytes (ascii ''x'')),
          (KBytes (ascii ''comment''), PyBytes (ascii ''infoi1e0000000'')), (KBytes (ascii ''info''), PyDict info)]"
      and "info = [(KBytes (ascii ''length''), PyInt 1), (KBytes (ascii ''name''), PyBytes (ascii ''n'')),
          (KBytes (ascii ''piece length''), PyInt 1), (KBytes (ascii ''pieces''), PyBytes (replicate 20 97))]"
  proof
    show "decode_data misleading_torrent = Inr (PyDict [(KBytes (ascii ''announce''), PyBytes (ascii ''x'')),
          (KBytes (ascii ''comment''), PyBytes (ascii ''infoi1e0000000'')), (KBytes (ascii ''info''), PyDict
          [(KBytes (ascii ''length''), PyInt 1), (KBytes (ascii ''name''), PyBytes (ascii ''n'')),
          (KBytes (ascii ''piece length''), PyInt 1), (KBytes (ascii ''pieces''), PyBytes (replicate 20 97))])])"
      by code_simp
  qed simp_all
  then show ?thesis
    by (simp add: from_bytes_def from_meta_def get_required_def get_either_def py_or_def py_lookup_def
        as_text_def parse_announce_list_def optional_text_def info_hash_misled parse_info_def parse_name_def
        parse_files_def)
qed

lemma parsed_torrent_ok_witness:
  "\<exists>t. from_bytes misleading_torrent = Inr t \<and> torrent_ok t \<and> 0 < total_length t \<and> 0 < num_pieces t"
  using misleading_torrent_accepted parsed_torrent_ok by blast


subsection \<open>Parsing inverts writing\<close>

text \<open>The metainfo of a single-file torrent, as the tools that make torrents write it.\<close>

definition single_info :: "bytes \<Rightarrow> int \<Rightarrow> bytes list \<Rightarrow> int \<Rightarrow> pyval" where
  "single_info nm pl hs n = PyDict [(KBytes (ascii ''length''), PyInt n), (KBytes (ascii ''name''), PyBytes nm),
     (KBytes (ascii ''piece length''), PyInt pl), (KBytes (ascii ''pieces''), PyBytes (concat hs))]"

definition single_meta :: "bytes \<Rightarrow> pyval \<Rightarrow> pyval" where
  "single_meta a info = PyDict [(KBytes (ascii ''announce''), PyBytes a), (KBytes (ascii ''info''), info)]"

lemma split_hashes_concat:
  assumes "\<forall>h \<in> set hs. length h = 20"
  shows "split_hashes (concat hs) = hs"
proof -
  have len: "length (concat hs) = 20 * length hs" using assms by (induction hs) auto
  have "slice (20 * k) (20 * k + 20) (concat hs) = hs ! k" if "k < length hs" for k
    using that assms
  proof (induction hs arbitrary: k)
    case (Cons h hs)
    then show ?case
      by (cases k) (auto simp: slice_def)
  qed simp
  then show ?thesis using len by (intro nth_equalityI) (simp_all add: split_hashes_def)
qed

lemma wire_single: "wire (single_meta a (single_info nm pl hs n)) = single_meta a (single_info nm pl hs n)"
  by (simp add: single_meta_def single_info_def key_bytes_def)

lemma distinct_single: "distinct_keys (single_meta a (single_info nm pl hs n))" "distinct_keys (single_info nm pl hs n)"
  by (simp_all add: single_meta_def single_info_def key_bytes_def)

lemma encode_single_meta:
  assumes "encode (single_meta a info) = Inr data" "encode info = Inr ibs"
  shows "\<exists>abs. encode_bytes a = Inr abs \<and> data = (ascii ''d8:announce'' @ abs) @ ascii ''4:info'' @ ibs @ ascii ''e''"
proof -
  have k: "encode_bytes (ascii ''announce'') = Inr (ascii ''8:announce'')" "encode_bytes (ascii ''info'') = Inr (ascii ''4:info'')"
    by (simp_all add: encode_eval)
  show ?thesis using assms k by (auto simp: single_meta_def encode_items_def bindR_Inr_iff)
qed

lemma from_bytes_single:
  assumes "encode (single_meta a (single_info nm pl hs n)) = Inr data" "encode (single_info nm pl hs n) = Inr ibs"
    and "a \<noteq> []" "nm \<noteq> []" "hs \<noteq> []" "\<forall>h \<in> set hs. length h = 20" "0 < pl" "0 < n"
    and "\<forall>i < length data - length ibs - 7. \<not> occurs_at (ascii ''4:info'') i data"
  shows "from_bytes data = Inr \<lparr>t_announce = utf8_decode a, t_info_hash = sha1 ibs, t_piece_hashes = hs,
    t_piece_length = pl, t_files = [\<lparr>fi_path = utf8_decode nm, fi_length = n\<rparr>], t_name = nm,
    t_announce_list = [], t_comment = None, t_created_by = None, t_creation_date = PyNone, t_is_private = False\<rparr>"
proof -
  let ?info = "single_info nm pl hs n"
  obtain abs where abs: "data = (ascii ''d8:announce'' @ abs) @ ascii ''4:info'' @ ibs @ ascii ''e''"
    using encode_single_meta [OF assms(1,2)] by blast
  have "length data - length ibs - 7 = length (ascii ''d8:announce'' @ abs)" by (simp add: abs)
  then have hash: "compute_info_hash data = Inr (sha1 ibs)"
    using compute_info_hash_at [OF abs assms(2) distinct_single(2)] assms(9) by simp
  have dec: "decode_data data = Inr (single_meta a ?info)"
    using decode_data_encode [OF assms(1) distinct_single(1)] by (simp add: wire_single)
  have len: "length (concat hs) = 20 * length hs" using assms(6) by (induction hs) auto
  have ne: "concat hs \<noteq> []" using len assms(5) by (metis length_0_conv mult_eq_0_iff zero_neq_numeral)
  show ?thesis
    using hash dec assms(3-8) ne len split_hashes_concat [OF assms(6)]
    by (simp add: from_bytes_def single_meta_def single_info_def from_meta_def get_required_def get_either_def
        py_or_def py_lookup_def as_text_def parse_announce_list_def optional_text_def parse_info_def parse_name_def
        parse_files_def del: concat_eq_Nil_conv)
qed

text \<open>
  C28. Parsing inverts writing: the metainfo of a single-file torrent, bencoded, parses to the
  torrent it describes, field by field, with the SHA-1 of its bencoded info dictionary as the
  info hash (where the tracker URL does not bring \<open>4:info\<close> before the info key).
\<close>

theorem parse_single_file:
  assumes "encode (single_meta a (single_info nm pl hs n)) = Inr data" "encode (single_info nm pl hs n) = Inr ibs"
    and "a \<noteq> []" "nm \<noteq> []" "hs \<noteq> []" "\<forall>h \<in> set hs. length h = 20" "0 < pl" "0 < n"
    and "\<forall>i < length data - length ibs - 7. \<not> occurs_at (ascii ''4:info'') i data"
  shows "from_bytes data = Inr \<lparr>t_announce = utf8_decode a, t_info_hash = sha1 ibs, t_piece_hashes = hs,
    t_piece_length = pl, t_files = [\<lparr>fi_path = utf8_decode nm, fi_length = n\<rparr>], t_name = nm,
    t_announce_list = [], t_comment = None, t_created_by = None, t_creation_date = PyNone, t_is_private = False\<rparr>"
  using assms by (rule from_bytes_single)

lemma parse_single_file_witness:
  "\<exists>data. encode (single_meta [104] (single_info [110] 4 [replicate 20 97] 3)) = Inr data \<and>
     from_bytes data = Inr \<lparr>t_announce = utf8_decode [104],
       t_info_hash = sha1 (ascii ''d6:lengthi3e4:name1:n12:piece lengthi4e6:pieces20:aaaaaaaaaaaaaaaaaaaae''),
       t_piece_hashes = [replicate 20 97], t_piece_length = 4,
       t_files = [\<lparr>fi_path = utf8_decode [110], fi_length = 3\<rparr>], t_name = [110],
       t_announce_list = [], t_comment = None, t_created_by = None, t_creation_date = PyNone, t_is_private = False\<rparr>"
proof -
  let ?ibs = "ascii ''d6:lengthi3e4:name1:n12:piece lengthi4e6:pieces20:aaaaaaaaaaaaaaaaaaaae''"
  let ?data = "ascii ''d8:announce1:h4:info'' @ ?ibs @ ascii ''e''"
  have r: "replicate 20 97 = ascii ''aaaaaaaaaaaaaaaaaaaa''" by (simp add: numeral_eq_Suc)
  have i: "encode (single_info [110] 4 [replicate 20 97] 3) = Inr ?ibs"
    unfolding r by (simp add: single_info_def encode_items_def encode_eval)
  have d: "encode (single_meta [104] (single_info [110] 4 [replicate 20 97] 3)) = Inr ?data"
    using i by (simp add: single_meta_def encode_items_def encode_eval)
  have "\<forall>i \<in> set [0..<14]. \<not> occurs_at (ascii ''4:info'') i ?data" by code_simp
  then have "\<forall>i < length ?data - length ?ibs - 7. \<not> occurs_at (ascii ''4:info'') i ?data" by simp
  from parse_single_file [OF d i _ _ _ _ _ _ this] d show ?thesis by auto
qed

end
