(* ===== verification/FileWriter.thy ===== *)
theory FileWriter
  imports TorrentFile
begin

section \<open>Writing pieces to files (client/modules/fileWriter.py)\<close>

text \<open>
  The files of a torrent lie one after another in one stream of bytes, and a piece is a range
  of that stream, cut up among the files it overlaps.  The disk maps files to their contents;
  which file a path names, or what the system raises when it cannot be opened, is the argument
  \<open>os\<close>.  The chunks of one piece are written by threads in no particular order: the order is
  the argument \<open>sched\<close>, any permutation.
\<close>

subsection \<open>State\<close>

type_synonym disk = "nat \<Rightarrow> bytes option"

record span =
  sp_info :: file_info
  sp_path :: ustr
  sp_start :: int
  sp_end :: int

record writer =
  fw_torrent :: torrent
  fw_spans :: "span list"
  fw_files :: "(ustr, nat) dict"
  fw_closed :: bool

text \<open>
  \<open>output_dir / path\<close> and its string form, as pathlib has it for POSIX paths: an absolute right
  operand wins, empty components and single dots go away, double dots stay.
\<close>

fun split_slash :: "ustr \<Rightarrow> ustr list" where
  "split_slash [] = [[]]"
| "split_slash (c # s) =
     (if c = 47 then [] # split_slash s
      else (case split_slash s of [] \<Rightarrow> [[c]] | p # ps \<Rightarrow> (c # p) # ps))"

definition path_join :: "ustr \<Rightarrow> ustr \<Rightarrow> ustr" where
  "path_join dir p =
     (let s = (if take 1 p = ucs ''/'' then p
               else if dir = [] \<or> last dir = 47 then dir @ p else dir @ ucs ''/'' @ p);
          root = (if take 2 s = ucs ''//'' \<and> take 3 s \<noteq> ucs ''///'' then ucs ''//'' else take 1 s)
      in root @ join_with (ucs ''/'') (filter (\<lambda>x. x \<noteq> [] \<and> x \<noteq> ucs ''.'') (split_slash s)))"

subsection \<open>Opening and closing\<close>

text \<open>The spans of \<open>__init__\<close>, from the current offset on.\<close>

fun make_spans :: "ustr \<Rightarrow> int \<Rightarrow> file_info list \<Rightarrow> span list" where
  "make_spans dir current_offset [] = []"
| "make_spans dir current_offset (f # fs) =
     \<lparr>sp_info = f, sp_path = path_join dir (fi_path f), sp_start = current_offset,
      sp_end = current_offset + fi_length f\<rparr> # make_spans dir (current_offset + fi_length f) fs"

definition open_one :: "(ustr \<Rightarrow> nat res) \<Rightarrow> (ustr, nat) dict \<times> disk \<Rightarrow> span \<Rightarrow> ((ustr, nat) dict \<times> disk) res" where
  "open_one os st span =
     (let key = sp_path span in
      if dict_get (fst st) key = None then
        bindR (os key) (\<lambda>h. Inr (dict_set key h (fst st),
                                 if snd st h = None then (snd st)(h \<mapsto> []) else snd st))
      else Inr st)"

definition open_files :: "(ustr \<Rightarrow> nat res) \<Rightarrow> writer \<Rightarrow> disk \<Rightarrow> (writer \<times> disk) res" where
  "open_files os w d =
     bindR (foldR (open_one os) (fw_files w, d) (fw_spans w)) (\<lambda>(files, d'). Inr (w\<lparr>fw_files := files\<rparr>, d'))"

definition make_writer :: "(ustr \<Rightarrow> nat res) \<Rightarrow> ustr \<Rightarrow> torrent \<Rightarrow> disk \<Rightarrow> (writer \<times> disk) res" where
  "make_writer os dir t d =
     open_files os \<lparr>fw_torrent = t, fw_spans = make_spans dir 0 (t_files t), fw_files = [], fw_closed = False\<rparr> d"

definition ensure_open :: "(ustr \<Rightarrow> nat res) \<Rightarrow> writer \<Rightarrow> disk \<Rightarrow> (writer \<times> disk) res" where
  "ensure_open os w d =
     (if fw_closed w then Inl RuntimeError
      else if fw_files w = [] \<and> fw_spans w \<noteq> [] then open_files os w d
      else Inr (w, d))"

definition close :: "writer \<Rightarrow> writer" where
  "close w = (if fw_closed w then w else w\<lparr>fw_closed := True, fw_files := []\<rparr>)"

text \<open>
  \<open>close_sync\<close>, the same without a thread, and the four context manager methods: entering opens
  the files if they are not open, leaving closes them.
\<close>

definition close_sync :: "writer \<Rightarrow> writer" where
  "close_sync w = (if fw_closed w then w else w\<lparr>fw_closed := True, fw_files := []\<rparr>)"

definition enter :: "(ustr \<Rightarrow> nat res) \<Rightarrow> writer \<Rightarrow> disk \<Rightarrow> (writer \<times> disk) res" where
  "enter os w d = ensure_open os w d"

definition exit_async :: "writer \<Rightarrow> writer" where
  "exit_async w = close w"

definition exit_sync :: "writer \<Rightarrow> writer" where
  "exit_sync w = close_sync w"

subsection \<open>Reading and writing\<close>

text \<open>Seek and write: a gap behind the end of the file fills with zeros.\<close>

definition write_chunk :: "int \<Rightarrow> bytes \<Rightarrow> bytes \<Rightarrow> bytes" where
  "write_chunk offset chunk c =
     (if chunk = [] then c
      else take (nat offset) (c @ replicate (nat offset - length c) 0) @ chunk @ drop (nat offset + length chunk) c)"

text \<open>Seek and read: short reads are padded with zeros.\<close>

definition read_chunk :: "bytes \<Rightarrow> int \<Rightarrow> int \<Rightarrow> bytes" where
  "read_chunk c offset nbytes =
     (let data = take (nat nbytes) (drop (nat offset) c)
      in if blen data < nbytes then data @ replicate (nat nbytes - length data) 0 else data)"

text \<open>The spans a range of the stream overlaps, with the overlap.\<close>

definition overlaps :: "span list \<Rightarrow> int \<Rightarrow> int \<Rightarrow> (span \<times> int \<times> int) list" where
  "overlaps spans a b =
     filter (\<lambda>(s, x, y). x < y) (map (\<lambda>s. (s, max a (sp_start s), min b (sp_end s))) spans)"

definition handle_of :: "writer \<Rightarrow> span \<Rightarrow> nat res" where
  "handle_of w span = (case dict_get (fw_files w) (sp_path span) of None \<Rightarrow> Inl KeyError | Some h \<Rightarrow> Inr h)"

definition write_task :: "nat \<times> int \<times> bytes \<Rightarrow> disk \<Rightarrow> disk" where
  "write_task task d = d(fst task := map_option (write_chunk (fst (snd task)) (snd (snd task))) (d (fst task)))"

definition write_tasks :: "writer \<Rightarrow> int \<Rightarrow> bytes \<Rightarrow> (nat \<times> int \<times> bytes) list res" where
  "write_tasks w piece_start data =
     mapR (\<lambda>(s, x, y). bindR (handle_of w s) (\<lambda>h.
             Inr (h, x - sp_start s, slice (nat (x - piece_start)) (nat (y - piece_start)) data)))
       (overlaps (fw_spans w) piece_start (piece_start + blen data))"

definition write_piece ::
  "(ustr \<Rightarrow> nat res) \<Rightarrow> ((nat \<times> int \<times> bytes) list \<Rightarrow> (nat \<times> int \<times> bytes) list) \<Rightarrow> int \<Rightarrow> bytes \<Rightarrow>
     writer \<times> disk \<Rightarrow> (writer \<times> disk) res" where
  "write_piece os sched piece_index data wd =
     bindR (ensure_open os (fst wd) (snd wd)) (\<lambda>(w, d).
       let t = fw_torrent w in
       if piece_index < 0 \<or> piece_index \<ge> num_pieces t then Inl IndexError
       else
         let piece_start = piece_index * t_piece_length t;
             piece_end = piece_start + blen data in
         if piece_end > total_length t then Inl ValueError
         else
           let expected_len = min (t_piece_length t) (total_length t - piece_start) in
           if blen data \<noteq> expected_len then Inl ValueError
           else bindR (write_tasks w piece_start data) (\<lambda>tasks. Inr (w, fold write_task (sched tasks) d)))"

definition read_tasks :: "writer \<Rightarrow> disk \<Rightarrow> int \<Rightarrow> int \<Rightarrow> (int \<times> bytes) list res" where
  "read_tasks w d piece_start piece_end =
     mapR (\<lambda>(s, x, y). bindR (handle_of w s) (\<lambda>h.
             case d h of None \<Rightarrow> Inl OSError
             | Some c \<Rightarrow> Inr (x - piece_start, read_chunk c (x - sp_start s) (y - x))))
       (overlaps (fw_spans w) piece_start piece_end)"

definition read_piece ::
  "(ustr \<Rightarrow> nat res) \<Rightarrow> int \<Rightarrow> int option \<Rightarrow> writer \<times> disk \<Rightarrow> (bytes \<times> writer \<times> disk) res" where
  "read_piece os piece_index len_arg wd =
     bindR (ensure_open os (fst wd) (snd wd)) (\<lambda>(w, d).
       let t = fw_torrent w in
       if piece_index < 0 \<or> piece_index \<ge> num_pieces t then Inl IndexError
       else
         let piece_start = piece_index * t_piece_length t;
             len = (case len_arg of None \<Rightarrow> min (t_piece_length t) (total_length t - piece_start) | Some n \<Rightarrow> n);
             piece_end = piece_start + len in
         if piece_end > total_length t then Inl ValueError
         else bindR (read_tasks w d piece_start piece_end) (\<lambda>chunks.
                Inr (concat (map snd (sort_key fst chunks)), w, d)))"

subsection \<open>Byte stores\<close>

text \<open>
  What the client relies on when it writes a range of bytes and reads one back: reading gives
  the bytes at the positions, and writing changes exactly the positions it covers.  A file is
  such a store, and so is the whole torrent on top of its files.
\<close>

definition seg :: "(int \<Rightarrow> 'a) \<Rightarrow> int \<Rightarrow> int \<Rightarrow> 'a list" where
  "seg f a b = map (\<lambda>k. f (a + int k)) [0..<nat (b - a)]"

lemma length_seg [simp]: "length (seg f a b) = nat (b - a)"
  by (simp add: seg_def)

lemma seg_empty [simp]: "b \<le> a \<Longrightarrow> seg f a b = []"
  by (simp add: seg_def)

lemma seg_cong: "(\<And>g. a \<le> g \<Longrightarrow> g < b \<Longrightarrow> f g = f' g) \<Longrightarrow> seg f a b = seg f' a b"
  by (simp add: seg_def)

lemma seg_append: "a \<le> b \<Longrightarrow> b \<le> c \<Longrightarrow> seg f a b @ seg f b c = seg f a c"
  by (rule nth_equalityI) (auto simp: seg_def nth_append nat_diff_distrib [symmetric] algebra_simps)

lemma seg_nth: "a \<le> b \<Longrightarrow> b \<le> blen xs \<Longrightarrow> 0 \<le> a \<Longrightarrow> seg (\<lambda>g. xs ! nat g) a b = slice (nat a) (nat b) xs"
  by (rule nth_equalityI) (auto simp: seg_def nth_slice nat_add_distrib nat_diff_distrib)

locale byte_store =
  fixes at :: "'s \<Rightarrow> int \<Rightarrow> byte"
    and put :: "int \<Rightarrow> bytes \<Rightarrow> 's \<Rightarrow> 's"
    and get :: "'s \<Rightarrow> int \<Rightarrow> int \<Rightarrow> bytes"
    and fits :: "'s \<Rightarrow> int \<Rightarrow> int \<Rightarrow> bool"
  assumes at_put: "fits s off (blen ch) \<Longrightarrow>
      at (put off ch s) k = (if off \<le> k \<and> k < off + blen ch then ch ! nat (k - off) else at s k)"
    and get_at: "fits s off n \<Longrightarrow> get s off n = seg (at s) off (off + n)"
    and fits_put: "fits s off (blen ch) \<Longrightarrow> fits (put off ch s) k n = fits s k n"
begin

lemma get_put: "fits s off (blen ch) \<Longrightarrow> get (put off ch s) off (blen ch) = ch"
  by (rule nth_equalityI) (auto simp: get_at fits_put seg_def at_put)

lemma get_put_other:
  assumes "fits s off (blen ch)" "fits s k n" "k + n \<le> off \<or> off + blen ch \<le> k"
  shows "get (put off ch s) k n = get s k n"
proof -
  have "seg (at (put off ch s)) k (k + n) = seg (at s) k (k + n)"
    using assms(3) by (intro seg_cong) (auto simp: at_put [OF assms(1)])
  with assms show ?thesis by (simp add: get_at fits_put)
qed

text \<open>Many writes that fit, one after another.\<close>

definition puts :: "(int \<times> bytes) list \<Rightarrow> 's \<Rightarrow> 's" where
  "puts ws s = fold (\<lambda>(off, ch). put off ch) ws s"

lemma fits_puts: "\<forall>(off, ch) \<in> set ws. fits s off (blen ch) \<Longrightarrow> fits (puts ws s) k n = fits s k n"
proof (induction ws arbitrary: s)
  case (Cons w ws)
  then have "\<forall>(off, ch) \<in> set ws. fits (put (fst w) (snd w) s) off (blen ch)" by (auto simp: fits_put)
  with Cons show ?case by (auto simp: puts_def fits_put)
qed (simp add: puts_def)

text \<open>If every write writes what \<open>content\<close> has at its place, so does the store afterwards.\<close>

lemma at_puts:
  assumes "\<forall>(off, ch) \<in> set ws. fits s off (blen ch) \<and> ch = seg content off (off + blen ch)"
  shows "at (puts ws s) k = (if \<exists>(off, ch) \<in> set ws. off \<le> k \<and> k < off + blen ch then content k else at s k)"
  using assms
proof (induction ws arbitrary: s)
  case (Cons w ws)
  obtain off ch where w: "w = (off, ch)" by (cases w)
  from Cons.prems w have f: "fits s off (blen ch)" and c: "ch = seg content off (off + blen ch)" by auto
  have "ch ! nat (k - off) = content k" if "off \<le> k" "k < off + blen ch"
  proof -
    have "nat (k - off) < length ch" using that by linarith
    with that show ?thesis by (subst c) (simp add: seg_def)
  qed
  moreover have "\<forall>(off', ch') \<in> set ws. fits (put off ch s) off' (blen ch') \<and> ch' = seg content off' (off' + blen ch')"
    using Cons.prems f by (auto simp: fits_put)
  ultimately show ?case using Cons.IH [of "put off ch s"] w f by (auto simp: puts_def at_put)
qed (simp add: puts_def)

lemma get_puts:
  assumes "\<forall>(off, ch) \<in> set ws. fits s off (blen ch) \<and> ch = seg content off (off + blen ch)"
    and "fits s a n" "\<And>k. a \<le> k \<Longrightarrow> k < a + n \<Longrightarrow> \<exists>(off, ch) \<in> set ws. off \<le> k \<and> k < off + blen ch"
  shows "get (puts ws s) a n = seg content a (a + n)"
proof -
  have "fits (puts ws s) a n" using fits_puts [of ws s a n] assms(1,2) by auto
  then have "get (puts ws s) a n = seg (at (puts ws s)) a (a + n)" by (rule get_at)
  also have "\<dots> = seg content a (a + n)" using assms(3) by (intro seg_cong) (simp add: at_puts [OF assms(1)])
  finally show ?thesis .
qed

end

subsection \<open>One file is a byte store\<close>

definition file_byte :: "bytes \<Rightarrow> int \<Rightarrow> byte" where
  "file_byte c k = (if 0 \<le> k \<and> k < blen c then c ! nat k else 0)"

lemma file_byte_write:
  assumes "0 \<le> off"
  shows "file_byte (write_chunk off ch c) k =
    (if off \<le> k \<and> k < off + blen ch then ch ! nat (k - off) else file_byte c k)"
proof (cases "ch = []")
  case True
  then show ?thesis by (auto simp: write_chunk_def)
next
  case False
  obtain o' where off: "off = int o'" using assms nonneg_int_cases by blast
  show ?thesis
  proof (cases "0 \<le> k")
    case True
    then obtain j where k: "k = int j" using nonneg_int_cases by blast
    have [simp]: "nat (int j - int o') = j - o'" by simp
    have [simp]: "min (length c) o' + (o' - length c) = o'" by (simp add: min_def)
    show ?thesis
      using False by (auto simp: off k file_byte_def write_chunk_def nth_append)
  qed (simp add: file_byte_def off)
qed

lemma read_chunk_seg: "0 \<le> off \<Longrightarrow> read_chunk c off n = seg (file_byte c) off (off + n)"
proof (rule nth_equalityI)
  show "length (read_chunk c off n) = length (seg (file_byte c) off (off + n))"
    by (auto simp: read_chunk_def Let_def)
next
  fix i assume off: "0 \<le> off" and "i < length (read_chunk c off n)"
  then have "i < nat n" by (auto simp: read_chunk_def Let_def split: if_splits)
  moreover from this have "i - (length c - nat off) < nat n - (length c - nat off)" if "\<not> i < length c - nat off"
    using that by linarith
  ultimately show "read_chunk c off n ! i = seg (file_byte c) off (off + n) ! i"
    using off by (auto simp: read_chunk_def Let_def seg_def file_byte_def nth_append nat_add_distrib)
qed

interpretation disk_file: byte_store file_byte write_chunk read_chunk "\<lambda>c off n. 0 \<le> off"
  by unfold_locales (simp_all add: file_byte_write read_chunk_seg)

subsection \<open>The whole torrent is a byte store\<close>

fun tiled :: "int \<Rightarrow> span list \<Rightarrow> int \<Rightarrow> bool" where
  "tiled a [] b \<longleftrightarrow> a = b"
| "tiled a (s # ss) b \<longleftrightarrow> sp_start s = a \<and> a \<le> sp_end s \<and> tiled (sp_end s) ss b"

text \<open>An open writer on a disk: the spans tile the stream, and each has a file of its own.\<close>

definition stored :: "writer \<Rightarrow> disk \<Rightarrow> bool" where
  "stored w d \<longleftrightarrow> tiled 0 (fw_spans w) (total_length (fw_torrent w)) \<and>
     (\<forall>s \<in> set (fw_spans w). \<exists>h c. dict_get (fw_files w) (sp_path s) = Some h \<and> d h = Some c) \<and>
     distinct (map (\<lambda>s. dict_get (fw_files w) (sp_path s)) (fw_spans w))"

definition content_of :: "writer \<Rightarrow> disk \<Rightarrow> span \<Rightarrow> bytes" where
  "content_of w d s = (case dict_get (fw_files w) (sp_path s) of None \<Rightarrow> []
     | Some h \<Rightarrow> (case d h of None \<Rightarrow> [] | Some c \<Rightarrow> c))"

text \<open>The stream of the torrent, byte by byte, and writing and reading a range of it.\<close>

definition span_at :: "writer \<Rightarrow> int \<Rightarrow> span option" where
  "span_at w g = find (\<lambda>s. sp_start s \<le> g \<and> g < sp_end s) (fw_spans w)"

definition stream_byte :: "writer \<Rightarrow> disk \<Rightarrow> int \<Rightarrow> byte" where
  "stream_byte w d g =
     (case span_at w g of None \<Rightarrow> 0 | Some s \<Rightarrow> file_byte (content_of w d s) (g - sp_start s))"

definition stream_put ::
  "writer \<Rightarrow> ((nat \<times> int \<times> bytes) list \<Rightarrow> (nat \<times> int \<times> bytes) list) \<Rightarrow> int \<Rightarrow> bytes \<Rightarrow> disk \<Rightarrow> disk" where
  "stream_put w sched off data d =
     (case write_tasks w off data of Inl e \<Rightarrow> d | Inr tasks \<Rightarrow> fold write_task (sched tasks) d)"

definition stream_get :: "writer \<Rightarrow> disk \<Rightarrow> int \<Rightarrow> int \<Rightarrow> bytes" where
  "stream_get w d off n =
     (case read_tasks w d off (off + n) of Inl e \<Rightarrow> [] | Inr chunks \<Rightarrow> concat (map snd (sort_key fst chunks)))"

definition any_order :: "('a list \<Rightarrow> 'a list) \<Rightarrow> bool" where
  "any_order sched \<longleftrightarrow> (\<forall>xs. mset (sched xs) = mset xs)"

definition stream_fits :: "writer \<Rightarrow> ('a list \<Rightarrow> 'a list) \<Rightarrow> disk \<Rightarrow> int \<Rightarrow> int \<Rightarrow> bool" where
  "stream_fits w sched d off n \<longleftrightarrow>
     stored w d \<and> any_order sched \<and> 0 \<le> off \<and> 0 \<le> n \<and> off + n \<le> total_length (fw_torrent w)"

lemma tiled_le: "tiled a ss b \<Longrightarrow> a \<le> b"
  by (induction a ss b rule: tiled.induct) auto

lemma tiled_mem: "tiled a ss b \<Longrightarrow> s \<in> set ss \<Longrightarrow> a \<le> sp_start s \<and> sp_start s \<le> sp_end s \<and> sp_end s \<le> b"
  by (induction a ss b rule: tiled.induct) (auto dest: tiled_le)

lemma tiled_find:
  "tiled a ss b \<Longrightarrow> s \<in> set ss \<Longrightarrow> sp_start s \<le> g \<Longrightarrow> g < sp_end s \<Longrightarrow>
     find (\<lambda>s. sp_start s \<le> g \<and> g < sp_end s) ss = Some s"
  by (induction a ss b rule: tiled.induct) (auto dest: tiled_mem)

lemma tiled_cover: "tiled a ss b \<Longrightarrow> a \<le> g \<Longrightarrow> g < b \<Longrightarrow> \<exists>s \<in> set ss. sp_start s \<le> g \<and> g < sp_end s"
  by (induction a ss b rule: tiled.induct) (auto, metis not_le)

lemma overlaps_simps:
  "overlaps [] p q = []"
  "overlaps (s # ss) p q =
     (if max p (sp_start s) < min q (sp_end s) then [(s, max p (sp_start s), min q (sp_end s))] else []) @ overlaps ss p q"
  by (simp_all add: overlaps_def)

lemma mem_overlaps: "(s, x, y) \<in> set (overlaps ss p q) \<longleftrightarrow>
    s \<in> set ss \<and> x = max p (sp_start s) \<and> y = min q (sp_end s) \<and> x < y"
  by (auto simp: overlaps_def)

lemma overlaps_concat:
  "tiled a ss b \<Longrightarrow> concat (map (\<lambda>(s, x, y). seg f x y) (overlaps ss p q)) = seg f (max a p) (min b q)"
proof (induction a ss b rule: tiled.induct)
  case (1 a b)
  then show ?case by (simp add: overlaps_simps)
next
  case (2 a s ss b)
  then have t: "sp_start s = a" "a \<le> sp_end s" "sp_end s \<le> b" by (auto dest: tiled_le)
  have "seg f (max p a) (min q (sp_end s)) @ seg f (max (sp_end s) p) (min b q) = seg f (max a p) (min b q)"
  proof (cases "p < sp_end s \<and> sp_end s < q \<and> p < q")
    case True
    then have "max p a \<le> sp_end s" "sp_end s \<le> min b q" using t by auto
    from seg_append [OF this, of f] True t show ?thesis by (simp add: max.absorb1 min.absorb2 max.commute)
  next
    case False
    with t show ?thesis by (cases "q = b") (auto simp: max_def min_def)
  qed
  with 2 t show ?case by (auto simp: overlaps_simps)
qed

lemma overlaps_sorted: "tiled a ss b \<Longrightarrow> sorted (map (\<lambda>(s, x, y). x - off) (overlaps ss p q))"
  by (induction a ss b rule: tiled.induct)
    (auto simp: overlaps_simps mem_overlaps dest!: tiled_mem)

lemma seg_shift: "seg f (a - k) (b - k) = seg (\<lambda>g. f (g - k)) a b"
  by (simp add: seg_def algebra_simps)

lemma fold_write_tasks:
  assumes "distinct (map fst tasks)"
  shows "fold write_task tasks d = (\<lambda>h. case dict_get tasks h of None \<Rightarrow> d h
    | Some (off, ch) \<Rightarrow> map_option (write_chunk off ch) (d h))"
  using assms
proof (induction tasks arbitrary: d)
  case (Cons t tasks)
  obtain a off ch where t: "t = (a, off, ch)" by (cases t)
  with Cons.prems have none: "dict_get tasks a = None" by (simp add: map_of_eq_None_iff)
  have "fold write_task (t # tasks) d = fold write_task tasks (write_task t d)" by simp
  also have "\<dots> = (\<lambda>h. case dict_get tasks h of None \<Rightarrow> write_task t d h
    | Some (off, ch) \<Rightarrow> map_option (write_chunk off ch) (write_task t d h))"
    using Cons by simp
  also have "\<dots> = (\<lambda>h. case dict_get (t # tasks) h of None \<Rightarrow> d h
    | Some (off, ch) \<Rightarrow> map_option (write_chunk off ch) (d h))"
    by (rule ext) (simp add: t none write_task_def split: option.splits)
  finally show ?case .
qed simp

lemma any_order_dict:
  assumes "any_order sched" "distinct (map fst tasks)"
  shows "distinct (map fst (sched tasks)) \<and> dict_get (sched tasks) = dict_get tasks"
proof -
  have m: "mset (sched tasks) = mset tasks" using assms(1) by (simp add: any_order_def)
  then have s: "set (sched tasks) = set tasks" by (rule mset_eq_setD)
  have "mset (map fst (sched tasks)) = mset (map fst tasks)" using m by simp
  then have "distinct (map fst (sched tasks))" using assms(2) mset_eq_imp_distinct_iff by blast
  with s assms(2) show ?thesis using map_of_inject_set by blast
qed

lemma handle_of_Some: "dict_get (fw_files w) (sp_path s) = Some h \<Longrightarrow> handle_of w s = Inr h"
  by (simp add: handle_of_def)

lemma write_tasks_stored:
  assumes "stored w d"
  shows "write_tasks w off data = Inr (map (\<lambda>(s, x, y). (the (dict_get (fw_files w) (sp_path s)), x - sp_start s,
      slice (nat (x - off)) (nat (y - off)) data)) (overlaps (fw_spans w) off (off + blen data)))"
  unfolding write_tasks_def using assms
  by (intro mapR_Inr) (force simp: mem_overlaps stored_def handle_of_def)

lemma stored_same_handle:
  assumes "stored w d" "s \<in> set (fw_spans w)" "s' \<in> set (fw_spans w)"
    "dict_get (fw_files w) (sp_path s) = dict_get (fw_files w) (sp_path s')"
  shows "s = s'"
  using assms by (auto simp: stored_def distinct_map inj_on_def)

lemma distinct_spans: "stored w d \<Longrightarrow> distinct (fw_spans w)"
  by (simp add: stored_def distinct_map)

lemma tasks_distinct:
  assumes "stored w d"
  shows "distinct (map (\<lambda>(s, x, y). the (dict_get (fw_files w) (sp_path s))) (overlaps (fw_spans w) p q))"
proof -
  have "inj_on (\<lambda>s. the (dict_get (fw_files w) (sp_path s))) (set (fw_spans w))"
  proof (rule inj_onI)
    fix s s' assume m: "s \<in> set (fw_spans w)" "s' \<in> set (fw_spans w)"
      and e: "the (dict_get (fw_files w) (sp_path s)) = the (dict_get (fw_files w) (sp_path s'))"
    from m assms obtain h h' where "dict_get (fw_files w) (sp_path s) = Some h"
        "dict_get (fw_files w) (sp_path s') = Some h'" unfolding stored_def by meson
    with e m stored_same_handle [OF assms] show "s = s'" by simp
  qed
  moreover have "distinct (map fst (overlaps ss p q))" if "distinct ss" for ss
    using that by (induction ss) (auto simp: overlaps_simps mem_overlaps)
  moreover have "fst ` set (overlaps (fw_spans w) p q) \<subseteq> set (fw_spans w)" by (auto simp: overlaps_def)
  ultimately have "distinct (map (\<lambda>s. the (dict_get (fw_files w) (sp_path s))) (map fst (overlaps (fw_spans w) p q)))"
    using distinct_spans [OF assms] inj_on_subset unfolding distinct_map set_map by blast
  then show ?thesis by (simp add: comp_def case_prod_unfold)
qed

text \<open>What one file holds after a range of the stream was written.\<close>

lemma stream_put_content:
  assumes "stored w d" "any_order sched" "s \<in> set (fw_spans w)"
  shows "content_of w (stream_put w sched off data d) s =
    (let x = max off (sp_start s); y = min (off + blen data) (sp_end s)
     in if x < y then write_chunk (x - sp_start s) (slice (nat (x - off)) (nat (y - off)) data) (content_of w d s)
        else content_of w d s)"
proof -
  let ?O = "overlaps (fw_spans w) off (off + blen data)"
  let ?hd = "\<lambda>s. the (dict_get (fw_files w) (sp_path s))"
  let ?task = "\<lambda>(s, x, y). (?hd s, x - sp_start s, slice (nat (x - off)) (nat (y - off)) data)"
  let ?T = "map ?task ?O"
  let ?x = "max off (sp_start s)" and ?y = "min (off + blen data) (sp_end s)"
  have dT: "distinct (map fst ?T)" using tasks_distinct [OF assms(1)] by (simp add: comp_def case_prod_unfold)
  note ord = any_order_dict [OF assms(2) dT]
  from assms(1,3) obtain h c where h: "dict_get (fw_files w) (sp_path s) = Some h" "d h = Some c"
    unfolding stored_def by meson
  have put: "stream_put w sched off data d h = (case dict_get ?T h of None \<Rightarrow> d h
      | Some (off, ch) \<Rightarrow> map_option (write_chunk off ch) (d h))"
    unfolding stream_put_def write_tasks_stored [OF assms(1)] using ord by (simp add: fold_write_tasks)
  have task: "dict_get ?T h = (if ?x < ?y then Some (?x - sp_start s, slice (nat (?x - off)) (nat (?y - off)) data) else None)"
  proof (cases "?x < ?y")
    case True
    then have "(s, ?x, ?y) \<in> set ?O" using assms(3) by (simp add: mem_overlaps)
    then have "?task (s, ?x, ?y) \<in> set ?T" unfolding set_map by (rule imageI)
    with dT True h(1) show ?thesis by (simp add: map_of_eq_Some_iff del: map_map)
  next
    case False
    have "h \<notin> fst ` set ?T"
    proof
      assume "h \<in> fst ` set ?T"
      then obtain s' x y where m: "(s', x, y) \<in> set ?O" and e: "h = ?hd s'" by auto
      then have s': "s' \<in> set (fw_spans w)" by (simp add: mem_overlaps)
      with assms(1) obtain h' where "dict_get (fw_files w) (sp_path s') = Some h'" unfolding stored_def by meson
      with e h(1) stored_same_handle [OF assms(1,3) s'] have "s' = s" by simp
      with m False show False unfolding mem_overlaps by blast
    qed
    then have "dict_get ?T h = None" by (simp add: map_of_eq_None_iff)
    with False show ?thesis by simp
  qed
  show ?thesis using put task h by (simp add: content_of_def Let_def)
qed

lemma stream_put_stored:
  assumes "stored w d" "any_order sched"
  shows "stored w (stream_put w sched off data d)"
proof -
  have "\<exists>c. stream_put w sched off data d h = Some c" if "d h = Some c" for h c
    using that any_order_dict [OF assms(2)] tasks_distinct [OF assms(1), of off "off + blen data"]
    by (auto simp: stream_put_def write_tasks_stored [OF assms(1)] fold_write_tasks comp_def case_prod_unfold
        split: option.splits)
  with assms(1) show ?thesis unfolding stored_def by meson
qed

lemma span_at_Some: "span_at w g = Some s \<Longrightarrow> s \<in> set (fw_spans w) \<and> sp_start s \<le> g \<and> g < sp_end s"
  by (auto simp: span_at_def find_Some_iff)

lemma span_at_None: "stored w d \<Longrightarrow> span_at w g = None \<Longrightarrow> g < 0 \<or> total_length (fw_torrent w) \<le> g"
proof (rule ccontr)
  assume st: "stored w d" and none: "span_at w g = None" and "\<not> (g < 0 \<or> total_length (fw_torrent w) \<le> g)"
  then have "\<exists>s \<in> set (fw_spans w). sp_start s \<le> g \<and> g < sp_end s"
    by (intro tiled_cover [of 0 _ "total_length (fw_torrent w)"]) (auto simp: stored_def)
  with none show False by (auto simp: span_at_def find_None_iff)
qed

lemma span_at_mem: "stored w d \<Longrightarrow> s \<in> set (fw_spans w) \<Longrightarrow> sp_start s \<le> g \<Longrightarrow> g < sp_end s \<Longrightarrow> span_at w g = Some s"
  unfolding span_at_def stored_def using tiled_find by blast

lemma stored_span: "stored w d \<Longrightarrow> s \<in> set (fw_spans w) \<Longrightarrow>
    0 \<le> sp_start s \<and> sp_start s \<le> sp_end s \<and> sp_end s \<le> total_length (fw_torrent w)"
  unfolding stored_def using tiled_mem by blast

lemma blen_slice_int: "0 \<le> a \<Longrightarrow> a \<le> b \<Longrightarrow> b \<le> blen xs \<Longrightarrow> blen (slice (nat a) (nat b) xs) = b - a"
  by simp

lemma part_nth:
  assumes "off \<le> x" "y \<le> off + blen ch" "x \<le> g" "g < y"
  shows "slice (nat (x - off)) (nat (y - off)) ch ! nat (g - x) = ch ! nat (g - off)"
proof -
  have "nat (g - x) < nat (y - off) - nat (x - off)" "nat (x - off) + nat (g - x) = nat (g - off)"
      "nat (g - off) < length ch"
    using assms by linarith+
  then show ?thesis by (simp add: nth_slice)
qed

lemma stream_at_put:
  assumes "stream_fits w sched d off (blen ch)"
  shows "stream_byte w (stream_put w sched off ch d) g =
    (if off \<le> g \<and> g < off + blen ch then ch ! nat (g - off) else stream_byte w d g)"
proof (cases "span_at w g")
  case None
  with assms span_at_None [of w d g] show ?thesis by (auto simp: stream_byte_def stream_fits_def)
next
  case (Some s)
  note m = span_at_Some [OF Some]
  let ?x = "max off (sp_start s)" and ?y = "min (off + blen ch) (sp_end s)"
  have st: "stored w d" "any_order sched" "0 \<le> off" using assms by (auto simp: stream_fits_def)
  note c = stream_put_content [OF st(1,2), of s off ch, unfolded Let_def]
  have s0: "0 \<le> sp_start s" using stored_span [OF st(1)] m by blast
  show ?thesis
  proof (cases "?x < ?y")
    case False
    then have "\<not> (off \<le> g \<and> g < off + blen ch)" using m by auto
    moreover have "content_of w (stream_put w sched off ch d) s = content_of w d s"
      using c m unfolding if_not_P [OF False] by blast
    ultimately show ?thesis using Some by (auto simp: stream_byte_def)
  next
    case True
    define x y where xy: "x = ?x" "y = ?y"
    define part where part: "part = slice (nat (x - off)) (nat (y - off)) ch"
    have b: "off \<le> x" "sp_start s \<le> x" "x < y" "y \<le> off + blen ch" using True by (simp_all add: xy)
    have l: "blen part = y - x" unfolding part using blen_slice_int [of "x - off" "y - off" ch] b by simp
    have v: "x \<le> g \<Longrightarrow> g < y \<Longrightarrow> part ! nat (g - x) = ch ! nat (g - off)"
      unfolding part by (rule part_nth [OF b(1,4)])
    have rng: "x \<le> g \<and> g < y \<longleftrightarrow> off \<le> g \<and> g < off + blen ch" using m by (auto simp: xy)
    have "stream_byte w (stream_put w sched off ch d) g = file_byte (write_chunk (x - sp_start s) part (content_of w d s)) (g - sp_start s)"
      using Some c m unfolding if_P [OF True] xy part by (simp add: stream_byte_def)
    also have "\<dots> = (if x \<le> g \<and> g < y then part ! nat (g - x) else file_byte (content_of w d s) (g - sp_start s))"
      using file_byte_write [of "x - sp_start s" part "content_of w d s" "g - sp_start s"] b l by simp
    also have "\<dots> = (if off \<le> g \<and> g < off + blen ch then ch ! nat (g - off) else stream_byte w d g)"
      using v Some unfolding rng [symmetric] by (simp add: stream_byte_def)
    finally show ?thesis .
  qed
qed

lemma read_tasks_stored:
  assumes "stored w d"
  shows "read_tasks w d a b = Inr (map (\<lambda>(s, x, y). (x - a, seg (stream_byte w d) x y)) (overlaps (fw_spans w) a b))"
proof -
  have "(case (s, x, y) of (s, x, y) \<Rightarrow> bindR (handle_of w s) (\<lambda>h. case d h of None \<Rightarrow> Inl OSError
      | Some c \<Rightarrow> Inr (x - a, read_chunk c (x - sp_start s) (y - x)))) = Inr (x - a, seg (stream_byte w d) x y)"
    if m: "(s, x, y) \<in> set (overlaps (fw_spans w) a b)" for s x y
  proof -
    from m have s: "s \<in> set (fw_spans w)" "sp_start s \<le> x" "y \<le> sp_end s" by (auto simp: mem_overlaps)
    with assms obtain h c where h: "dict_get (fw_files w) (sp_path s) = Some h" "d h = Some c" unfolding stored_def by meson
    have "read_chunk c (x - sp_start s) (y - x) = seg (file_byte c) (x - sp_start s) (y - sp_start s)"
      using s by (simp add: read_chunk_seg)
    also have "\<dots> = seg (\<lambda>g. file_byte c (g - sp_start s)) x y" by (rule seg_shift)
    also have "\<dots> = seg (stream_byte w d) x y"
      using s h by (intro seg_cong) (simp add: stream_byte_def span_at_mem [OF assms s(1)] content_of_def)
    finally show ?thesis using h by (simp add: handle_of_def)
  qed
  then show ?thesis unfolding read_tasks_def by (intro mapR_Inr) auto
qed

lemma stream_get_at:
  assumes "stream_fits w sched d off n"
  shows "stream_get w d off n = seg (stream_byte w d) off (off + n)"
proof -
  let ?O = "overlaps (fw_spans w) off (off + n)" and ?g = "\<lambda>(s, x, y). (x - off, seg (stream_byte w d) x y)"
  have st: "stored w d" "tiled 0 (fw_spans w) (total_length (fw_torrent w))"
    using assms by (auto simp: stream_fits_def stored_def)
  have "sorted (map fst (map ?g ?O))"
    using overlaps_sorted [OF st(2), of off off "off + n"] by (simp add: comp_def case_prod_unfold)
  then have "sort_key fst (map ?g ?O) = map ?g ?O" by (simp add: sorted_sort_id sort_key_id_if_sorted)
  then have "stream_get w d off n = concat (map snd (map ?g ?O))"
    unfolding stream_get_def read_tasks_stored [OF st(1)] by (simp only: sum.case)
  also have "\<dots> = concat (map (\<lambda>(s, x, y). seg (stream_byte w d) x y) ?O)"
    by (simp add: comp_def case_prod_unfold)
  also have "\<dots> = seg (stream_byte w d) off (off + n)"
    unfolding overlaps_concat [OF st(2)] using assms by (simp add: stream_fits_def)
  finally show ?thesis .
qed

interpretation stream: byte_store "stream_byte w" "stream_put w sched" "stream_get w" "stream_fits w sched" for w sched
proof unfold_locales
  show "stream_fits w sched (stream_put w sched off ch s) k n = stream_fits w sched s k n"
    if "stream_fits w sched s off (blen ch)" for s off ch k n
    using that stream_put_stored [of w s sched off ch] by (auto simp: stream_fits_def)
qed (simp_all add: stream_at_put stream_get_at)

subsection \<open>Pieces on disk\<close>

definition piece_start :: "torrent \<Rightarrow> int \<Rightarrow> int" where
  "piece_start t i = i * t_piece_length t"

definition piece_size :: "torrent \<Rightarrow> int \<Rightarrow> int" where
  "piece_size t i = min (t_piece_length t) (total_length t - piece_start t i)"

text \<open>An open writer of a torrent with positive piece length.\<close>

definition ready :: "writer \<Rightarrow> disk \<Rightarrow> bool" where
  "ready w d \<longleftrightarrow> stored w d \<and> \<not> fw_closed w \<and> 0 < t_piece_length (fw_torrent w)"

lemma ready_open: "ready w d \<Longrightarrow> ensure_open os w d = Inr (w, d)"
  by (cases "fw_spans w") (auto simp: ready_def stored_def ensure_open_def)

lemma write_piece_eq:
  assumes "ready w d"
  shows "write_piece os sched i data (w, d) =
    (if i < 0 \<or> num_pieces (fw_torrent w) \<le> i then Inl IndexError
     else if blen data \<noteq> piece_size (fw_torrent w) i then Inl ValueError
     else Inr (w, stream_put w sched (piece_start (fw_torrent w) i) data d))"
proof -
  have "stored w d" using assms by (simp add: ready_def)
  then show ?thesis
    by (auto simp: write_piece_def ready_open [OF assms] Let_def stream_put_def write_tasks_stored
        piece_start_def piece_size_def)
qed

lemma read_piece_eq:
  assumes "ready w d"
  shows "read_piece os i None (w, d) =
    (if i < 0 \<or> num_pieces (fw_torrent w) \<le> i then Inl IndexError
     else Inr (stream_get w d (piece_start (fw_torrent w) i) (piece_size (fw_torrent w) i), w, d))"
proof -
  have "stored w d" using assms by (simp add: ready_def)
  then show ?thesis
    by (auto simp: read_piece_def ready_open [OF assms] Let_def stream_get_def read_tasks_stored
        piece_start_def piece_size_def)
qed

lemma ready_put: "ready w d \<Longrightarrow> any_order sched \<Longrightarrow> ready w (stream_put w sched off data d)"
  by (simp add: ready_def stream_put_stored)

lemma piece_fits:
  assumes "ready w d" "any_order sched" "0 \<le> i" "0 \<le> piece_size (fw_torrent w) i"
  shows "stream_fits w sched d (piece_start (fw_torrent w) i) (piece_size (fw_torrent w) i)"
proof -
  have "0 \<le> piece_start (fw_torrent w) i" using assms(1,3) by (simp add: piece_start_def ready_def)
  moreover have "piece_start (fw_torrent w) i + piece_size (fw_torrent w) i \<le> total_length (fw_torrent w)"
    by (simp add: piece_size_def)
  ultimately show ?thesis using assms by (simp add: stream_fits_def ready_def)
qed

lemma read_after_write:
  assumes "ready w d" "any_order sched" "write_piece os sched i data (w, d) = Inr (w', d')"
  shows "read_piece os i None (w', d') = Inr (data, w', d')"
proof -
  let ?t = "fw_torrent w"
  from assms(1,3) have i: "0 \<le> i" "i < num_pieces ?t" and len: "blen data = piece_size ?t i" and w': "w' = w"
      and d': "d' = stream_put w sched (piece_start ?t i) data d"
    by (auto simp: write_piece_eq split: if_splits)
  have "stream_fits w sched d (piece_start ?t i) (blen data)"
    using piece_fits [OF assms(1,2) i(1)] len by (metis of_nat_0_le_iff)
  from stream.get_put [OF this] show ?thesis
    using ready_put [OF assms(1,2)] i len w' d' by (simp add: read_piece_eq)
qed

lemma read_other_after_write:
  assumes "ready w d" "any_order sched" "write_piece os sched i data (w, d) = Inr (w', d')"
    and "j \<noteq> i" "read_piece os j None (w, d) = Inr (r, w, d)"
  shows "read_piece os j None (w', d') = Inr (r, w', d')"
proof -
  let ?t = "fw_torrent w" and ?pl = "t_piece_length (fw_torrent w)"
  from assms(1,3) have i: "0 \<le> i" "i < num_pieces ?t" and len: "blen data = piece_size ?t i" and w': "w' = w"
      and d': "d' = stream_put w sched (piece_start ?t i) data d"
    by (auto simp: write_piece_eq split: if_splits)
  from assms(1,5) have j: "0 \<le> j" "j < num_pieces ?t"
      and r: "r = stream_get w d (piece_start ?t j) (piece_size ?t j)"
    by (auto simp: read_piece_eq split: if_splits)
  have fi: "stream_fits w sched d (piece_start ?t i) (blen data)"
    using piece_fits [OF assms(1,2) i(1)] len by (metis of_nat_0_le_iff)
  have "stream_get w d' (piece_start ?t j) (piece_size ?t j) = r"
  proof (cases "0 \<le> piece_size ?t j")
    case True
    note fj = piece_fits [OF assms(1,2) j(1) True]
    have "0 < ?pl" using assms(1) by (simp add: ready_def)
    then have "(j + 1) * ?pl \<le> i * ?pl \<or> (i + 1) * ?pl \<le> j * ?pl"
      using assms(4) by (cases "j < i") (auto intro!: mult_right_mono)
    then have "piece_start ?t j + piece_size ?t j \<le> piece_start ?t i \<or> piece_start ?t i + blen data \<le> piece_start ?t j"
      unfolding len piece_size_def piece_start_def by (auto simp: algebra_simps)
    from stream.get_put_other [OF fi fj this] show ?thesis by (simp add: r d')
  next
    case False
    have "overlaps (fw_spans w) a b = []" if "b \<le> a" for a b using that by (auto simp: overlaps_def filter_empty_conv)
    then have "stream_get w d'' (piece_start ?t j) (piece_size ?t j) = []" for d''
      using False by (simp add: stream_get_def read_tasks_def)
    then show ?thesis by (simp add: r)
  qed
  then show ?thesis using ready_put [OF assms(1,2)] j w' d' by (simp add: read_piece_eq)
qed

text \<open>
  What is written is read back: after a \<open>write_piece\<close> that succeeded, whatever the files it
  spans and in whatever order the threads wrote the chunks, \<open>read_piece\<close> of that piece gives the
  same bytes.
\<close>

theorem written_piece_read:
  assumes "ready w d" "any_order sched" "write_piece os sched i data (w, d) = Inr (w', d')"
  shows "read_piece os i None (w', d') = Inr (data, w', d')"
  using assms by (rule read_after_write)

text \<open>
  Writing one piece changes no other: every other piece reads as before.
\<close>

theorem write_piece_frame:
  assumes "ready w d" "any_order sched" "write_piece os sched i data (w, d) = Inr (w', d')"
    and "j \<noteq> i" "read_piece os j None (w, d) = Inr (r, w, d)"
  shows "read_piece os j None (w', d') = Inr (r, w', d')"
  using assms by (rule read_other_after_write)

text \<open>
  C24. \<open>write_piece\<close> refines the write to one flat byte array: of the whole stream exactly the
  bytes of the piece are replaced, by exactly the data.
\<close>

theorem write_piece_splice:
  assumes "ready w d" "any_order sched" "write_piece os sched i data (w, d) = Inr (w', d')"
  shows "seg (stream_byte w' d') 0 (total_length (fw_torrent w)) =
    (let s = seg (stream_byte w d) 0 (total_length (fw_torrent w)); k = nat (piece_start (fw_torrent w) i)
     in take k s @ data @ drop (k + length data) s)"
proof -
  let ?t = "fw_torrent w"
  let ?T = "total_length ?t" and ?k = "piece_start ?t i"
  from assms(1,3) have i: "0 \<le> i" "i < num_pieces ?t" and len: "blen data = piece_size ?t i" and w': "w' = w"
      and d': "d' = stream_put w sched ?k data d"
    by (auto simp: write_piece_eq split: if_splits)
  have f: "stream_fits w sched d ?k (blen data)"
    using piece_fits [OF assms(1,2) i(1)] len by (metis of_nat_0_le_iff)
  then have b: "0 \<le> ?k" "?k + blen data \<le> ?T" by (simp_all add: stream_fits_def)
  define n k where nk: "n = nat ?T" "k = nat ?k"
  have T: "?T = int n" and k: "?k = int k" and kn: "k + length data \<le> n" using b by (auto simp: nk)
  show ?thesis unfolding w' d' T k Let_def
  proof (rule nth_equalityI)
    fix m assume "m < length (seg (stream_byte w (stream_put w sched (int k) data d)) 0 (int n))"
    then have m: "m < n" by simp
    have [simp]: "nat (int m - int k) = m - k" by simp
    from m stream_at_put [OF f, of "int m"] kn
    show "seg (stream_byte w (stream_put w sched (int k) data d)) 0 (int n) ! m =
        (take (nat (int k)) (seg (stream_byte w d) 0 (int n)) @ data @
          drop (nat (int k) + length data) (seg (stream_byte w d) 0 (int n))) ! m"
      by (auto simp: seg_def nth_append k)
  qed (use kn in simp)
qed

text \<open>
  The result does not depend on the order in which the threads write the chunks of a piece.
\<close>

theorem write_order_irrelevant:
  assumes "ready w d" "any_order sched" "any_order sched'"
  shows "write_piece os sched i data (w, d) = write_piece os sched' i data (w, d)"
proof -
  have st: "stored w d" using assms(1) by (simp add: ready_def)
  have "stream_put w sched off data d = stream_put w sched' off data d" for off
    using any_order_dict [OF assms(2)] any_order_dict [OF assms(3)] tasks_distinct [OF st, of off "off + blen data"]
    by (simp add: stream_put_def write_tasks_stored [OF st] fold_write_tasks comp_def case_prod_unfold)
  then show ?thesis by (simp add: write_piece_eq [OF assms(1)])
qed

text \<open>
  C26. The refusals of \<open>write_piece\<close>: a closed writer raises RuntimeError; an open one raises
  IndexError exactly for a piece that does not exist and ValueError exactly for data that has not
  the length of the piece, and in no other case anything.
\<close>

theorem write_piece_errors:
  assumes "ready w d"
  shows "(write_piece os sched i data (w, d) = Inl e \<longleftrightarrow>
      (i < 0 \<or> num_pieces (fw_torrent w) \<le> i) \<and> e = IndexError \<or>
      0 \<le> i \<and> i < num_pieces (fw_torrent w) \<and> blen data \<noteq> piece_size (fw_torrent w) i \<and> e = ValueError) \<and>
    write_piece os sched i data (close w, d) = Inl RuntimeError"
proof -
  have "write_piece os sched i data (close w, d) = Inl RuntimeError"
    using assms by (simp add: write_piece_def ensure_open_def close_def ready_def)
  then show ?thesis by (auto simp: write_piece_eq [OF assms])
qed

text \<open>
  However it was closed, a writer is closed for good: no method opens it again, and closing it once
  more changes nothing.
\<close>

lemma closed_for_good:
  assumes "w' \<in> {close w, close_sync w, exit_async w, exit_sync w}"
  shows "enter os w' d = Inl RuntimeError" "write_piece os sched i data (w', d) = Inl RuntimeError"
    "read_piece os i n (w', d) = Inl RuntimeError" "close w' = w'" "close_sync w' = w'"
proof -
  from assms have "fw_closed w'" by (auto simp: close_def close_sync_def exit_async_def exit_sync_def)
  then show "enter os w' d = Inl RuntimeError" "write_piece os sched i data (w', d) = Inl RuntimeError"
    "read_piece os i n (w', d) = Inl RuntimeError" "close w' = w'" "close_sync w' = w'"
    by (simp_all add: enter_def ensure_open_def write_piece_def read_piece_def close_def close_sync_def)
qed

text \<open>Entering a writer that was constructed and is open gives it back as it is.\<close>

lemma enter_ready: "ready w d \<Longrightarrow> enter os w d = Inr (w, d)"
  by (simp add: enter_def ready_open)

subsection \<open>A sample\<close>

text \<open>Two files, of two and three bytes, in pieces of four bytes.\<close>

definition sample_torrent :: torrent where
  "sample_torrent = \<lparr>t_announce = [], t_info_hash = replicate 20 0, t_piece_hashes = [replicate 20 1, replicate 20 2],
     t_piece_length = 4, t_files = [\<lparr>fi_path = [97], fi_length = 2\<rparr>, \<lparr>fi_path = [98], fi_length = 3\<rparr>],
     t_name = [], t_announce_list = [], t_comment = None, t_created_by = None, t_creation_date = PyNone,
     t_is_private = False\<rparr>"

definition sample_writer :: writer where
  "sample_writer = \<lparr>fw_torrent = sample_torrent,
     fw_spans = [\<lparr>sp_info = \<lparr>fi_path = [97], fi_length = 2\<rparr>, sp_path = [47, 97], sp_start = 0, sp_end = 2\<rparr>,
                 \<lparr>sp_info = \<lparr>fi_path = [98], fi_length = 3\<rparr>, sp_path = [47, 98], sp_start = 2, sp_end = 5\<rparr>],
     fw_files = [([47, 97], 0), ([47, 98], 1)], fw_closed = False\<rparr>"

lemma sample_ready: "d 0 = Some a \<Longrightarrow> d 1 = Some b \<Longrightarrow> ready sample_writer d"
  by (simp add: ready_def stored_def sample_writer_def sample_torrent_def total_length_def)

lemma any_order_rev: "any_order rev"
  by (simp add: any_order_def)

definition no_os :: "ustr \<Rightarrow> nat res" where
  "no_os p = Inl OSError"

lemma sample_write:
  "write_piece no_os sched 0 [1, 2, 3, 4] (sample_writer, d) =
     (if ready sample_writer d then Inr (sample_writer, stream_put sample_writer sched 0 [1, 2, 3, 4] d)
      else write_piece no_os sched 0 [1, 2, 3, 4] (sample_writer, d))"
  by (simp add: write_piece_eq sample_writer_def sample_torrent_def num_pieces_def piece_size_def piece_start_def
      total_length_def)

lemma written_piece_read_witness:
  "\<exists>d'. write_piece no_os rev 0 [1, 2, 3, 4] (sample_writer, \<lambda>h. Some []) = Inr (sample_writer, d') \<and>
     read_piece no_os 0 None (sample_writer, d') = Inr ([1, 2, 3, 4], sample_writer, d')"
proof -
  have r: "ready sample_writer (\<lambda>h. Some [])" by (simp add: sample_ready)
  from sample_write r obtain d' where
    w: "write_piece no_os rev 0 [1, 2, 3, 4] (sample_writer, \<lambda>h. Some []) = Inr (sample_writer, d')" by (metis (no_types))
  from written_piece_read [OF r any_order_rev w] w show ?thesis by blast
qed

lemma write_piece_frame_witness:
  "\<exists>d'. write_piece no_os rev 0 [1, 2, 3, 4] (sample_writer, \<lambda>h. Some []) = Inr (sample_writer, d') \<and>
     (\<exists>r. read_piece no_os 1 None (sample_writer, d') = Inr (r, sample_writer, d'))"
proof -
  have r: "ready sample_writer (\<lambda>h. Some [])" by (simp add: sample_ready)
  from sample_write r obtain d' where
    w: "write_piece no_os rev 0 [1, 2, 3, 4] (sample_writer, \<lambda>h. Some []) = Inr (sample_writer, d')" by (metis (no_types))
  obtain x where x: "read_piece no_os 1 None (sample_writer, \<lambda>h. Some []) = Inr (x, sample_writer, \<lambda>h. Some [])"
    using read_piece_eq [OF r, of no_os 1] by (simp add: sample_writer_def sample_torrent_def num_pieces_def)
  from write_piece_frame [OF r any_order_rev w _ x] w show ?thesis by (metis zero_neq_one)
qed

lemma write_piece_splice_witness:
  "\<exists>d'. write_piece no_os rev 0 [1, 2, 3, 4] (sample_writer, \<lambda>h. Some []) = Inr (sample_writer, d') \<and>
     seg (stream_byte sample_writer d') 0 5 = [1, 2, 3, 4, 0]"
proof -
  have r: "ready sample_writer (\<lambda>h. Some [])" by (simp add: sample_ready)
  from sample_write r obtain d' where
    w: "write_piece no_os rev 0 [1, 2, 3, 4] (sample_writer, \<lambda>h. Some []) = Inr (sample_writer, d')" by (metis (no_types))
  have [simp]: "total_length (fw_torrent sample_writer) = 5" "piece_start (fw_torrent sample_writer) 0 = 0"
    by (simp_all add: sample_writer_def sample_torrent_def total_length_def piece_start_def)
  have "seg (stream_byte sample_writer (\<lambda>h. Some [])) 0 5 = [0, 0, 0, 0, 0]"
    by (simp add: seg_def upt_conv_Cons stream_byte_def span_at_def sample_writer_def content_of_def file_byte_def)
  with write_piece_splice [OF r any_order_rev w] w show ?thesis by (auto simp: Let_def)
qed

lemma write_order_irrelevant_witness:
  "write_piece no_os rev 0 [1, 2, 3, 4] (sample_writer, \<lambda>h. Some []) =
   write_piece no_os (\<lambda>xs. xs) 0 [1, 2, 3, 4] (sample_writer, \<lambda>h. Some [])"
  by (rule write_order_irrelevant) (simp_all add: sample_ready any_order_def)

lemma write_piece_errors_witness:
  "write_piece no_os rev 2 [1] (sample_writer, \<lambda>h. Some []) = Inl IndexError \<and>
   write_piece no_os rev 1 [1, 2] (sample_writer, \<lambda>h. Some []) = Inl ValueError \<and>
   write_piece no_os rev 0 [] (close sample_writer, \<lambda>h. Some []) = Inl RuntimeError"
proof -
  have r: "ready sample_writer (\<lambda>h. Some [])" by (simp add: sample_ready)
  show ?thesis
    using write_piece_errors [OF r, of no_os rev 2 "[1]" IndexError] write_piece_errors [OF r, of no_os rev 1 "[1, 2]" ValueError]
      write_piece_errors [OF r, of no_os rev 0 "[]" IndexError]
    by (simp add: sample_writer_def sample_torrent_def num_pieces_def piece_size_def piece_start_def total_length_def)
qed

end
