(* ===== verification/FileStore.thy ===== *)
theory FileStore
  imports FileWriter
begin

section \<open>Opening the files and filling them\<close>

text \<open>
  The writer over its life: \<open>__init__\<close> opens one file for each path, and once every piece has
  been written the files hold the content of the torrent.
\<close>

subsection \<open>Opening\<close>

lemma make_spans_tiled:
  "\<forall>f \<in> set fs. 0 \<le> fi_length f \<Longrightarrow> tiled a (make_spans dir a fs) (a + sum_list (map fi_length fs))"
  by (induction dir a fs rule: make_spans.induct) (auto simp: add.assoc [symmetric])

lemma make_spans_paths: "map sp_path (make_spans dir a fs) = map (\<lambda>f. path_join dir (fi_path f)) fs"
  by (induction dir a fs rule: make_spans.induct) auto

text \<open>Every open file is the one the system gives for its path, and is on the disk.\<close>

lemma open_one_handles:
  assumes "open_one os (files, d) s = Inr (files1, d1)"
    and "\<And>k h. dict_get files k = Some h \<Longrightarrow> os k = Inr h \<and> d h \<noteq> None"
    and "dict_get files1 k = Some h"
  shows "os k = Inr h \<and> d1 h \<noteq> None"
proof (cases "dict_get files (sp_path s)")
  case None
  with assms(1) obtain g where g: "os (sp_path s) = Inr g" "files1 = dict_set (sp_path s) g files"
      "d1 = (if d g = None then d(g \<mapsto> []) else d)"
    by (auto simp: open_one_def Let_def res_simps)
  with assms(2) [of k h] assms(3) show ?thesis by (auto simp: dict_simps split: if_splits)
qed (use assms in \<open>auto simp: open_one_def\<close>)

text \<open>What opening does: every key gets the file the system has for it; files are created, never changed.\<close>

lemma open_all:
  assumes "foldR (open_one os) (files, d) spans = Inr (files', d')"
    and "\<And>k h. dict_get files k = Some h \<Longrightarrow> os k = Inr h \<and> d h \<noteq> None"
  shows "(\<forall>s \<in> set spans. \<exists>h. dict_get files' (sp_path s) = Some h) \<and>
    (\<forall>k h. dict_get files' k = Some h \<longrightarrow> os k = Inr h \<and> d' h \<noteq> None) \<and>
    (\<forall>k h. dict_get files k = Some h \<longrightarrow> dict_get files' k = Some h) \<and>
    (\<forall>h. d' h = d h \<or> d h = None \<and> d' h = Some [])"
  using assms
proof (induction spans arbitrary: files d)
  case (Cons s spans)
  show ?case
  proof (cases "dict_get files (sp_path s)")
    case (Some h)
    then have "open_one os (files, d) s = Inr (files, d)" by (simp add: open_one_def)
    with Cons.prems(1) have "foldR (open_one os) (files, d) spans = Inr (files', d')" by simp
    from Cons.IH [OF this Cons.prems(2)] Some show ?thesis by auto
  next
    case None
    then have o1: "open_one os (files, d) s =
        bindR (os (sp_path s)) (\<lambda>h. Inr (dict_set (sp_path s) h files, if d h = None then d(h \<mapsto> []) else d))"
      by (simp add: open_one_def Let_def cong: if_cong)
    from Cons.prems(1) obtain h where h: "os (sp_path s) = Inr h"
        and r: "foldR (open_one os) (dict_set (sp_path s) h files, if d h = None then d(h \<mapsto> []) else d) spans = Inr (files', d')"
      unfolding foldR.simps o1 bindR_Inr_iff by blast
    let ?files = "dict_set (sp_path s) h files" and ?d = "if d h = None then d(h \<mapsto> []) else d"
    have "open_one os (files, d) s = Inr (?files, ?d)" using h unfolding o1 by simp
    note IH = Cons.IH [OF r open_one_handles [OF this Cons.prems(2)]]
    have "dict_get ?files (sp_path s) = Some h" by (simp add: dict_simps)
    moreover have "dict_get ?files k = Some h'" if "dict_get files k = Some h'" for k h'
      using that None by (auto simp: dict_simps)
    moreover have "d' ha = d ha \<or> d ha = None \<and> d' ha = Some []" for ha
    proof -
      from IH have "d' ha = ?d ha \<or> ?d ha = None \<and> d' ha = Some []" by blast
      then show ?thesis by (cases "ha = h") (auto split: if_splits)
    qed
    ultimately show ?thesis using IH by simp
  qed
qed simp

lemma make_writer_opens:
  assumes "torrent_ok t" "\<forall>f \<in> set (t_files t). \<exists>h. os (path_join dir (fi_path f)) = Inr h"
    and "distinct (map (\<lambda>f. os (path_join dir (fi_path f))) (t_files t))"
  shows "\<exists>w d'. make_writer os dir t d = Inr (w, d') \<and> ready w d' \<and> fw_torrent w = t \<and>
    (\<forall>h. d' h = d h \<or> d h = None \<and> d' h = Some [])"
proof -
  let ?ss = "make_spans dir 0 (t_files t)"
  have paths: "sp_path ` set ?ss = (\<lambda>f. path_join dir (fi_path f)) ` set (t_files t)"
    using make_spans_paths [of dir 0 "t_files t"] by (metis list.set_map)
  have "\<exists>files' d'. foldR (open_one os) (files, d) ss = Inr (files', d')"
    if "\<forall>s \<in> set ss. \<exists>h. os (sp_path s) = Inr h" for files d ss
    using that by (induction ss arbitrary: files d) (auto simp: open_one_def Let_def)
  moreover have "\<forall>s \<in> set ?ss. \<exists>h. os (sp_path s) = Inr h" using assms(2) paths by (metis (no_types, lifting) imageE image_eqI)
  ultimately obtain files' d' where o: "foldR (open_one os) ([], d) ?ss = Inr (files', d')" by blast
  let ?w = "\<lparr>fw_torrent = t, fw_spans = ?ss, fw_files = files', fw_closed = False\<rparr>"
  have w: "make_writer os dir t d = Inr (?w, d')" by (simp add: make_writer_def open_files_def o)
  note a = open_all [OF o]
  have t: "tiled 0 ?ss (total_length t)"
  proof -
    have "\<forall>f \<in> set (t_files t). 0 \<le> fi_length f" using assms(1) by (auto simp: torrent_ok_def intro: less_imp_le)
    from make_spans_tiled [OF this, of 0 dir] show ?thesis by (simp add: total_length_def)
  qed
  have h: "map Inr (map (\<lambda>s. the (dict_get files' (sp_path s))) ?ss) = map (\<lambda>f. os (path_join dir (fi_path f))) (t_files t)"
  proof -
    have "map (\<lambda>s. Inr (the (dict_get files' (sp_path s)))) ?ss = map (\<lambda>s. os (sp_path s)) ?ss"
      using a by (intro map_cong) force+
    also have "\<dots> = map os (map sp_path ?ss)" by simp
    also have "\<dots> = map (\<lambda>f. os (path_join dir (fi_path f))) (t_files t)" unfolding make_spans_paths by simp
    finally show ?thesis by (simp add: comp_def)
  qed
  then have "distinct (map (\<lambda>s. the (dict_get files' (sp_path s))) ?ss)"
    using assms(3) by (metis distinct_map)
  then have "distinct (map the (map (\<lambda>s. dict_get files' (sp_path s)) ?ss))" by (simp add: comp_def)
  then have "distinct (map (\<lambda>s. dict_get files' (sp_path s)) ?ss)" unfolding distinct_map by blast
  with a t assms(1) have "ready ?w d'" by (fastforce simp: ready_def stored_def torrent_ok_def)
  with w a show ?thesis by auto
qed

text \<open>
  Opening a writer: if the system opens every path, and to files that are all different,
  the writer is ready, its files are there, files that existed keep their contents and the others
  are empty.
\<close>

theorem make_writer_ready:
  assumes "torrent_ok t" "\<forall>f \<in> set (t_files t). \<exists>h. os (path_join dir (fi_path f)) = Inr h"
    and "distinct (map (\<lambda>f. os (path_join dir (fi_path f))) (t_files t))"
  shows "\<exists>w d'. make_writer os dir t d = Inr (w, d') \<and> ready w d' \<and> fw_torrent w = t \<and>
    (\<forall>h. d' h = d h \<or> d h = None \<and> d' h = Some [])"
  using assms by (rule make_writer_opens)

lemma make_writer_ready_witness:
  "\<exists>w d'. make_writer (\<lambda>p. Inr (length p)) [47] (sample_torrent\<lparr>t_files := [\<lparr>fi_path = [97], fi_length = 2\<rparr>,
     \<lparr>fi_path = [98, 98], fi_length = 3\<rparr>]\<rparr>) (\<lambda>h. None) = Inr (w, d') \<and> ready w d'"
proof -
  let ?t = "sample_torrent\<lparr>t_files := [\<lparr>fi_path = [97], fi_length = 2\<rparr>, \<lparr>fi_path = [98, 98], fi_length = 3\<rparr>]\<rparr>"
  have p: "path_join [47] [97] = [47, 97]" "path_join [47] [98, 98] = [47, 98, 98]" by code_simp+
  have "torrent_ok ?t" by (simp add: torrent_ok_def sample_torrent_def)
  from make_writer_ready [OF this, of "\<lambda>p. Inr (length p)" "[47]" "\<lambda>h. None"] p show ?thesis
    by auto
qed

text \<open>
  Opening again, with the same paths, when the files are there: the same handles, and no file is
  changed.
\<close>

lemma open_all_again:
  assumes "foldR (open_one os) (files, d) spans = Inr (files', d')"
    and "\<And>k h. dict_get files k = Some h \<Longrightarrow> os k = Inr h \<and> d h \<noteq> None"
    and "\<forall>s \<in> set spans. \<forall>h. dict_get files' (sp_path s) = Some h \<longrightarrow> e h \<noteq> None"
  shows "foldR (open_one os) (files, e) spans = Inr (files', e)"
  using assms
proof (induction spans arbitrary: files d)
  case (Cons s spans)
  from Cons.prems(1) obtain f1 d1 where o: "open_one os (files, d) s = Inr (f1, d1)"
    and r: "foldR (open_one os) (f1, d1) spans = Inr (files', d')" by (auto simp: res_simps)
  note inv = open_one_handles [OF o Cons.prems(2)]
  have "open_one os (files, e) s = Inr (f1, e)"
  proof (cases "dict_get files (sp_path s)")
    case None
    with o obtain h where h: "os (sp_path s) = Inr h" "f1 = dict_set (sp_path s) h files"
      by (auto simp: open_one_def Let_def res_simps)
    then have "dict_get f1 (sp_path s) = Some h" by (simp add: dict_simps)
    with open_all [OF r inv] Cons.prems(3) have "e h \<noteq> None" by simp
    with None h show ?thesis by (auto simp add: open_one_def Let_def)
  qed (use o in \<open>simp add: open_one_def\<close>)
  moreover have "foldR (open_one os) (f1, e) spans = Inr (files', e)"
    using Cons.IH [OF r inv] Cons.prems(3) by simp
  ultimately show ?case by simp
qed (simp add: assms)

lemma reopen:
  assumes "make_writer os dir t d = Inr (w, d1)" "ready w d2"
  shows "make_writer os dir t d2 = Inr (w, d2)"
proof -
  from assms(1) obtain files' where o: "foldR (open_one os) ([], d) (make_spans dir 0 (t_files t)) = Inr (files', d1)"
    and w: "w = \<lparr>fw_torrent = t, fw_spans = make_spans dir 0 (t_files t), fw_files = files', fw_closed = False\<rparr>"
    by (auto simp: make_writer_def open_files_def res_simps)
  have "\<forall>s \<in> set (make_spans dir 0 (t_files t)). \<forall>h. dict_get files' (sp_path s) = Some h \<longrightarrow> d2 h \<noteq> None"
    using assms(2) by (fastforce simp: ready_def stored_def w)
  from open_all_again [OF o _ this] show ?thesis by (simp add: make_writer_def open_files_def w)
qed

subsection \<open>The complete download\<close>

text \<open>Writing the pieces \<open>js\<close> of a content, one after another.\<close>

definition content_piece :: "torrent \<Rightarrow> bytes \<Rightarrow> int \<Rightarrow> bytes" where
  "content_piece t content i =
     slice (nat (piece_start t i)) (nat (piece_start t i + piece_size t i)) content"

definition write_pieces ::
  "(ustr \<Rightarrow> nat res) \<Rightarrow> ((nat \<times> int \<times> bytes) list \<Rightarrow> (nat \<times> int \<times> bytes) list) \<Rightarrow> bytes \<Rightarrow> int list \<Rightarrow>
     writer \<times> disk \<Rightarrow> (writer \<times> disk) res" where
  "write_pieces os sched content js wd =
     foldR (\<lambda>wd j. write_piece os sched j (content_piece (fw_torrent (fst wd)) content j) wd) wd js"

lemma content_piece_seg:
  assumes "0 < t_piece_length t" "0 \<le> i" "0 \<le> piece_size t i" "total_length t = blen content"
  shows "content_piece t content i = seg (\<lambda>g. content ! nat g) (piece_start t i) (piece_start t i + piece_size t i)"
proof -
  have "0 \<le> piece_start t i" "piece_start t i + piece_size t i \<le> blen content"
    using assms by (simp_all add: piece_start_def piece_size_def)
  with assms(3) show ?thesis
    unfolding content_piece_def by (subst seg_nth) simp_all
qed

lemma write_pieces_puts:
  assumes "ready w d" "any_order sched" "total_length (fw_torrent w) = blen content"
    and "\<forall>j \<in> set js. 0 \<le> j \<and> j < num_pieces (fw_torrent w) \<and> 0 \<le> piece_size (fw_torrent w) j"
  shows "write_pieces os sched content js (w, d) =
    Inr (w, stream.puts w sched (map (\<lambda>j. (piece_start (fw_torrent w) j, content_piece (fw_torrent w) content j)) js) d)"
  using assms(1,4)
proof (induction js arbitrary: d)
  case Nil
  then show ?case by (simp add: write_pieces_def stream.puts_def)
next
  case (Cons j js)
  let ?t = "fw_torrent w"
  let ?d = "stream_put w sched (piece_start ?t j) (content_piece ?t content j) d"
  have "0 < t_piece_length ?t" using assms(1) by (simp add: ready_def)
  then have "blen (content_piece ?t content j) = piece_size ?t j"
    using Cons.prems(2) assms(3) by (simp add: content_piece_seg)
  then have "write_piece os sched j (content_piece ?t content j) (w, d) = Inr (w, ?d)"
    using Cons.prems write_piece_eq [OF Cons.prems(1)] by simp
  moreover have "write_pieces os sched content js (w, ?d) =
    Inr (w, stream.puts w sched (map (\<lambda>j. (piece_start ?t j, content_piece ?t content j)) js) ?d)"
    using Cons.IH [of ?d] ready_put [OF Cons.prems(1) assms(2)] Cons.prems(2) by simp
  ultimately show ?case by (simp add: write_pieces_def stream.puts_def)
qed

lemma pieces_cover:
  assumes "0 < t_piece_length t" "total_length t = blen content"
    and "blen content \<le> num_pieces t * t_piece_length t" "0 \<le> k" "k < blen content"
  shows "\<exists>j. 0 \<le> j \<and> j < num_pieces t \<and> piece_start t j \<le> k \<and> k < piece_start t j + piece_size t j"
proof (intro exI conjI)
  let ?pl = "t_piece_length t" and ?j = "k div t_piece_length t"
  have j: "0 \<le> ?j" "?j * ?pl \<le> k" "k < ?j * ?pl + ?pl"
    using assms(1,4) by (simp_all add: pos_imp_zdiv_nonneg_iff)
      (use pos_mod_bound [OF assms(1), of k] in \<open>simp_all add: minus_mod_eq_div_mult [symmetric]\<close>)
  then show "0 \<le> ?j" "piece_start t ?j \<le> k" "k < piece_start t ?j + piece_size t ?j"
    using assms(2,5) by (simp_all add: piece_start_def piece_size_def)
  show "?j < num_pieces t" using assms(1,3,5) j(2) by (smt (verit) mult_less_cancel_right)
qed

lemma file_is_stream:
  assumes "stored w d" "s \<in> set (fw_spans w)"
  shows "read_chunk (content_of w d s) 0 (sp_end s - sp_start s) = seg (stream_byte w d) (sp_start s) (sp_end s)"
proof -
  have "read_chunk (content_of w d s) 0 (sp_end s - sp_start s) =
      seg (file_byte (content_of w d s)) (sp_start s - sp_start s) (sp_end s - sp_start s)"
    by (simp add: read_chunk_seg)
  also have "\<dots> = seg (\<lambda>g. file_byte (content_of w d s) (g - sp_start s)) (sp_start s) (sp_end s)" by (rule seg_shift)
  also have "\<dots> = seg (stream_byte w d) (sp_start s) (sp_end s)"
    by (intro seg_cong) (simp add: stream_byte_def span_at_mem [OF assms])
  finally show ?thesis .
qed



text \<open>
  A path of the torrent is not confined to the output directory: an absolute path replaces it
  and double dots climb out of it.
\<close>

lemma path_escapes:
  "path_join (ucs ''/out'') (ucs ''name/../../etc/x'') = ucs ''/out/name/../../etc/x''"
  "path_join (ucs ''/out'') (ucs ''/etc/x'') = ucs ''/etc/x''"
  by code_simp+

text \<open>
  Two entries with the same path share one file: the second piece overwrites the first, and what
  was written does not read back.
\<close>

lemma same_path_corrupts:
  "let t = sample_torrent\<lparr>t_files := [\<lparr>fi_path = [97], fi_length = 4\<rparr>, \<lparr>fi_path = [97], fi_length = 1\<rparr>]\<rparr> in
   \<exists>w d d1 d2. make_writer (\<lambda>p. Inr 0) [47] t (\<lambda>h. None) = Inr (w, d) \<and>
     write_piece no_os (\<lambda>xs. xs) 0 [1, 2, 3, 4] (w, d) = Inr (w, d1) \<and>
     write_piece no_os (\<lambda>xs. xs) 1 [9] (w, d1) = Inr (w, d2) \<and>
     read_piece no_os 0 None (w, d2) = Inr ([9, 2, 3, 4], w, d2)"
proof -
  have p: "path_join [47] [97] = [47, 97]" by code_simp
  show ?thesis
    by (simp add: make_writer_def open_files_def open_one_def p sample_torrent_def write_piece_def ensure_open_def
        num_pieces_def total_length_def write_tasks_def overlaps_def handle_of_def write_task_def write_chunk_def
        slice_def read_piece_def read_tasks_def read_chunk_def)
qed

end
