(* ===== verification/Tracker.thy ===== *)
theory Tracker
  imports TorrentFile PyStruct
begin

section \<open>Trackers (client/modules/trackCommunication.py)\<close>

text \<open>
  The client asks its trackers, over HTTP or UDP, for peers.  What the network answers is a
  parameter: a function from what was sent to a reply or a failure.  The random numbers the UDP
  client draws are parameters too.
\<close>

unbundle bit_operations_syntax

subsection \<open>Responses\<close>

record peer_info =
  pi_ip :: ustr
  pi_port :: int

record tracker_response =
  tr_interval :: int
  tr_peers :: "peer_info list"
  tr_min_interval :: "int option"
  tr_seeders :: "int option"
  tr_leechers :: "int option"
  tr_tracker_id :: "bytes option"
  tr_warning :: "ustr option"

abbreviation tracker_error :: "string \<Rightarrow> 'a res" where
  "tracker_error m \<equiv> Inl (TrackerError m)"

text \<open>\<open>_b\<close>: the value under the bytes key if it is there, else under the text key, else None.\<close>

definition get_first :: "(pykey \<times> pyval) list \<Rightarrow> string \<Rightarrow> pyval" where
  "get_first d key =
     (case dict_get d (KBytes (ascii key)) of Some v \<Rightarrow> v | None \<Rightarrow> py_lookup d (KStr (ucs key)))"

text \<open>\<open>int(v)\<close> on what the decoder makes.\<close>

definition py_int_of :: "pyval \<Rightarrow> int res" where
  "py_int_of v = (case v of PyInt i \<Rightarrow> Inr i | PyBool b \<Rightarrow> Inr (if b then 1 else 0)
     | PyBytes b \<Rightarrow> py_int b | _ \<Rightarrow> Inl TypeError)"

definition optional_int :: "pyval \<Rightarrow> int option res" where
  "optional_int v = (if v = PyNone then Inr None else bindR (py_int_of v) (\<lambda>i. Inr (Some i)))"

text \<open>\<open>str(ipaddress.IPv4Address(n))\<close>: the four bytes in decimal, with dots.\<close>

definition dotted :: "int \<Rightarrow> ustr" where
  "dotted n = join_with (ucs ''.'') (map (\<lambda>b. map unat (dec_nat (unat b))) (be_bytes 4 n))"

text \<open>The loop over groups of six bytes.\<close>

fun compact_peers :: "bytes \<Rightarrow> peer_info list" where
  "compact_peers (a # b # c # d # e # f # rest) =
     \<lparr>pi_ip = dotted (be_value [a, b, c, d]), pi_port = be_value [e, f]\<rparr> # compact_peers rest"
| "compact_peers _ = []"

definition parse_compact_peers :: "bytes \<Rightarrow> peer_info list res" where
  "parse_compact_peers data =
     (if length data mod 6 \<noteq> 0 then tracker_error ''Compact peers length is not a multiple of 6''
      else Inr (compact_peers data))"

definition parse_dict_peer :: "pyval \<Rightarrow> peer_info res" where
  "parse_dict_peer entry =
     (case entry of
        PyDict d \<Rightarrow>
          (let ip_raw = get_either d ''ip''; port_raw = get_either d ''port''
           in if ip_raw = PyNone \<or> port_raw = PyNone then tracker_error ''Peer entry missing ip or port''
              else bindR (as_text ip_raw) (\<lambda>ip. bindR (py_int_of port_raw) (\<lambda>port.
                     Inr \<lparr>pi_ip = ip, pi_port = port\<rparr>)))
      | _ \<Rightarrow> tracker_error ''Non-compact peer entry is not a dict'')"

definition parse_peers :: "pyval \<Rightarrow> peer_info list res" where
  "parse_peers v =
     (case v of
        PyBytes b \<Rightarrow> parse_compact_peers b
      | PyList entries \<Rightarrow> mapR parse_dict_peer entries
      | _ \<Rightarrow> tracker_error ''Unexpected peers type'')"

definition from_bencode :: "(pykey \<times> pyval) list \<Rightarrow> tracker_response res" where
  "from_bencode data =
     (let failure = get_first data ''failure reason'' in
      if failure \<noteq> PyNone then bindR (as_text failure) (\<lambda>reason. tracker_error ''Tracker failure'')
      else
        bindR (optional_text (get_first data ''warning message'')) (\<lambda>warning.
          let interval = get_first data ''interval'' in
          if interval = PyNone then tracker_error ''Tracker response missing interval''
          else
            let peers_raw = get_first data ''peers''; tracker_id = get_first data ''tracker id'' in
            if peers_raw = PyNone then tracker_error ''Tracker response missing peers''
            else
              bindR (parse_peers peers_raw) (\<lambda>peers.
                bindR (py_int_of interval) (\<lambda>iv.
                  bindR (optional_int (get_first data ''min interval'')) (\<lambda>min_interval.
                    bindR (optional_int (get_first data ''complete'')) (\<lambda>seeders.
                      bindR (optional_int (get_first data ''incomplete'')) (\<lambda>leechers.
                        Inr \<lparr>tr_interval = iv, tr_peers = peers, tr_min_interval = min_interval,
                             tr_seeders = seeders, tr_leechers = leechers,
                             tr_tracker_id = (case tracker_id of PyBytes b \<Rightarrow> Some b | _ \<Rightarrow> None),
                             tr_warning = warning\<rparr>)))))))"

subsection \<open>UDP trackers (BEP 15)\<close>

datatype event = Started | Stopped | Completed

definition event_id :: "event option \<Rightarrow> int" where
  "event_id e = (case e of None \<Rightarrow> 0 | Some Completed \<Rightarrow> 1 | Some Started \<Rightarrow> 2 | Some Stopped \<Rightarrow> 3)"

definition MAGIC_CONNECTION_ID :: int where "MAGIC_CONNECTION_ID = 0x41727101980"

record request =
  rq_info_hash :: bytes
  rq_peer_id :: bytes
  rq_port :: int
  rq_uploaded :: int
  rq_downloaded :: int
  rq_left :: int
  rq_event :: "event option"
  rq_compact :: int
  rq_numwant :: int

text \<open>
  What one announce meets: the target that \<open>urlparse\<close> finds (None without a host or a port), the
  outcome of the name lookup, the three random numbers, and the answers to the two packets.
\<close>

record udp_world =
  uw_target :: "(ustr \<times> int) option res"
  uw_lookup :: "unit res"
  uw_connect_tx :: int
  uw_announce_tx :: int
  uw_key :: int
  uw_connect_reply :: "bytes \<Rightarrow> bytes res"
  uw_announce_reply :: "bytes \<Rightarrow> bytes res"

definition connect_packet :: "int \<Rightarrow> bytes res" where
  "connect_packet tx = pack_all [pack_uint 8 MAGIC_CONNECTION_ID, pack_uint 4 0, pack_uint 4 tx]"

definition parse_connect_reply :: "int \<Rightarrow> bytes \<Rightarrow> int res" where
  "parse_connect_reply connect_tx_id resp =
     (if length resp < 16 then tracker_error ''UDP connect response too short''
      else let action = be_value (slice 0 4 resp); tx_id = be_value (slice 4 8 resp) in
        if action = 3 then tracker_error ''UDP tracker error on connect''
        else if tx_id \<noteq> connect_tx_id then tracker_error ''UDP transaction ID mismatch on connect''
        else Inr (be_value (slice 8 16 resp)))"

definition announce_packet :: "int \<Rightarrow> int \<Rightarrow> int \<Rightarrow> request \<Rightarrow> bytes res" where
  "announce_packet connection_id tx key rq =
     pack_all [pack_uint 8 connection_id, pack_uint 4 1, pack_uint 4 tx,
       Inr (pack_bytes 20 (rq_info_hash rq)), Inr (pack_bytes 20 (rq_peer_id rq)),
       pack_uint 8 (rq_downloaded rq), pack_uint 8 (rq_left rq), pack_uint 8 (rq_uploaded rq),
       pack_uint 4 (event_id (rq_event rq)), pack_uint 4 0, pack_uint 4 key,
       pack_sint4 (rq_numwant rq), pack_uint 2 (rq_port rq)]"

definition parse_announce_reply :: "int \<Rightarrow> bytes \<Rightarrow> tracker_response res" where
  "parse_announce_reply announce_tx_id resp =
     (if length resp < 20 then tracker_error ''UDP announce response too short''
      else let action = be_value (slice 0 4 resp); tx_id = be_value (slice 4 8 resp);
               interval = be_value (slice 8 12 resp); leechers = be_value (slice 12 16 resp);
               seeders = be_value (slice 16 20 resp) in
        if action = 3 then tracker_error ''UDP tracker error on announce''
        else if tx_id \<noteq> announce_tx_id then tracker_error ''UDP transaction ID mismatch on announce''
        else bindR (parse_compact_peers (drop 20 resp)) (\<lambda>peers.
               Inr \<lparr>tr_interval = interval, tr_peers = peers, tr_min_interval = None,
                    tr_seeders = Some seeders, tr_leechers = Some leechers, tr_tracker_id = None,
                    tr_warning = None\<rparr>))"

text \<open>The \<open>except\<close> clauses around the exchange: timeouts and socket errors become TrackerError.\<close>

definition socket_errors :: "'a res \<Rightarrow> 'a res" where
  "socket_errors r =
     (case r of Inl TimeoutError \<Rightarrow> tracker_error ''Timeout reaching UDP tracker''
      | Inl OSError \<Rightarrow> tracker_error ''Socket error contacting UDP tracker''
      | Inl ConnectionResetError \<Rightarrow> tracker_error ''Socket error contacting UDP tracker''
      | _ \<Rightarrow> r)"

definition udp_announce :: "udp_world \<Rightarrow> request \<Rightarrow> tracker_response res" where
  "udp_announce uw rq =
     bindR (uw_target uw) (\<lambda>target.
       if target = None then tracker_error ''Invalid UDP tracker URL''
       else case uw_lookup uw of
         Inl e \<Rightarrow> tracker_error ''DNS resolution failed''
       | Inr u \<Rightarrow>
           socket_errors
             (bindR (connect_packet (uw_connect_tx uw)) (\<lambda>connect_pkt.
               bindR (uw_connect_reply uw connect_pkt) (\<lambda>resp1.
                 bindR (parse_connect_reply (uw_connect_tx uw) (take 2048 resp1)) (\<lambda>connection_id.
                   bindR (announce_packet connection_id (uw_announce_tx uw) (uw_key uw) rq) (\<lambda>announce_pkt.
                     bindR (uw_announce_reply uw announce_pkt) (\<lambda>resp2.
                       parse_announce_reply (uw_announce_tx uw) (take 4096 resp2))))))))"

subsection \<open>HTTP trackers (BEP 3)\<close>

text \<open>\<open>quote_from_bytes(bs, safe="")\<close>: letters, digits and \<open>_.-~\<close> stay, the rest becomes \<open>%XX\<close>.\<close>

definition unreserved :: "byte \<Rightarrow> bool" where
  "unreserved b \<longleftrightarrow> 48 \<le> b \<and> b \<le> 57 \<or> 65 \<le> b \<and> b \<le> 90 \<or> 97 \<le> b \<and> b \<le> 122 \<or> b = 95 \<or> b = 46 \<or> b = 45 \<or> b = 126"

definition upper_hex :: "nat \<Rightarrow> byte" where
  "upper_hex n = of_nat (if n < 10 then 48 + n else 55 + n)"

definition quote_byte :: "byte \<Rightarrow> bytes" where
  "quote_byte b = (if unreserved b then [b] else [37, upper_hex (unat b div 16), upper_hex (unat b mod 16)])"

definition quote_from_bytes :: "bytes \<Rightarrow> bytes" where
  "quote_from_bytes bs = concat (map quote_byte bs)"

definition event_name :: "event \<Rightarrow> bytes" where
  "event_name e = (case e of Started \<Rightarrow> ascii ''started'' | Stopped \<Rightarrow> ascii ''stopped'' | Completed \<Rightarrow> ascii ''completed'')"

text \<open>
  \<open>_build_params\<close>: the dictionary of the parameters.  Its values are raw bytes, text that is
  percent-encoded already, numbers, and the event.
\<close>

datatype param = RawBytes bytes | Quoted bytes | Number int | EventName event

definition build_params :: "request \<Rightarrow> (string \<times> param) list" where
  "build_params rq =
     [(''_info_hash_raw'', RawBytes (rq_info_hash rq)), (''_peer_id_raw'', RawBytes (rq_peer_id rq)),
      (''info_hash'', Quoted (quote_from_bytes (rq_info_hash rq))), (''peer_id'', Quoted (quote_from_bytes (rq_peer_id rq))),
      (''port'', Number (rq_port rq)), (''uploaded'', Number (rq_uploaded rq)), (''downloaded'', Number (rq_downloaded rq)),
      (''left'', Number (rq_left rq)), (''compact'', Number (rq_compact rq)), (''numwant'', Number (rq_numwant rq))] @
     (case rq_event rq of None \<Rightarrow> [] | Some e \<Rightarrow> [(''event'', EventName e)])"

text \<open>
  \<open>urlencode\<close> of the parameters that are left: keys and values of plain letters and digits stay as
  they are, bytes are quoted.
\<close>

definition plain_params :: "(string \<times> param) list \<Rightarrow> (string \<times> param) list" where
  "plain_params params =
     filter (\<lambda>(k, v). k \<notin> set [''info_hash'', ''peer_id'', ''_info_hash_raw'', ''_peer_id_raw'']) params"

definition param_text :: "param \<Rightarrow> bytes res" where
  "param_text v = (case v of RawBytes b \<Rightarrow> Inr (quote_from_bytes b) | Quoted b \<Rightarrow> Inr (quote_from_bytes b)
     | Number n \<Rightarrow> py_dec n | EventName e \<Rightarrow> Inr (event_name e))"

definition urlencode :: "(string \<times> param) list \<Rightarrow> bytes res" where
  "urlencode params =
     bindR (mapR (\<lambda>(k, v). bindR (param_text v) (\<lambda>t. Inr (ascii k @ ascii ''='' @ t))) params)
       (\<lambda>ps. Inr (join_with (ascii ''&'') ps))"

definition quoted_param :: "(string \<times> param) list \<Rightarrow> string \<Rightarrow> bytes res" where
  "quoted_param params key = (case map_of params key of None \<Rightarrow> Inl KeyError | Some (Quoted b) \<Rightarrow> Inr b | Some _ \<Rightarrow> Inl TypeError)"

definition query_string :: "(string \<times> param) list \<Rightarrow> bytes res" where
  "query_string params =
     bindR (quoted_param params ''info_hash'') (\<lambda>info_hash_encoded.
     bindR (quoted_param params ''peer_id'') (\<lambda>peer_id_encoded.
     bindR (urlencode (plain_params params)) (\<lambda>qs.
       Inr (qs @ ascii ''&info_hash='' @ info_hash_encoded @ ascii ''&peer_id='' @ peer_id_encoded))))"

datatype http_reply = Reply int bytes | ClientError | HttpTimeout | OtherError exc

definition http_url :: "ustr \<Rightarrow> request \<Rightarrow> ustr res" where
  "http_url base_url rq = bindR (query_string (build_params rq)) (\<lambda>qs. Inr (base_url @ ucs ''?'' @ map unat qs))"

lemmas query_eval = query_string_def quoted_param_def urlencode_def plain_params_def build_params_def param_text_def

definition do_announce :: "(ustr \<Rightarrow> http_reply) \<Rightarrow> ustr \<Rightarrow> request \<Rightarrow> tracker_response res" where
  "do_announce http base_url rq =
     bindR (http_url base_url rq) (\<lambda>full_url.
       case http full_url of
         ClientError \<Rightarrow> tracker_error ''HTTP error''
       | HttpTimeout \<Rightarrow> tracker_error ''Timeout reaching tracker''
       | OtherError e \<Rightarrow> Inl e
       | Reply status raw_body \<Rightarrow>
           if status \<noteq> 200 then tracker_error ''Tracker returned an HTTP error status''
           else (case decode_data raw_body of
               Inl (BencodeDecodeError m) \<Rightarrow> tracker_error ''Tracker response is not valid bencode''
             | Inl e \<Rightarrow> Inl e
             | Inr (PyDict data) \<Rightarrow> from_bencode data
             | Inr _ \<Rightarrow> tracker_error ''Tracker response is not a dict''))"

subsection \<open>Which trackers, in which order\<close>

definition starts_with_text :: "string \<Rightarrow> ustr \<Rightarrow> bool" where
  "starts_with_text p s \<longleftrightarrow> take (length p) s = ucs p"

definition supported_url :: "ustr \<Rightarrow> bool" where
  "supported_url url \<longleftrightarrow> url \<noteq> [] \<and>
     (starts_with_text ''http://'' url \<or> starts_with_text ''https://'' url \<or> starts_with_text ''udp://'' url)"

text \<open>\<open>_add\<close>; \<open>seen\<close> and \<open>urls\<close> always hold the same URLs, so one list is both.\<close>

definition add_url :: "ustr \<Rightarrow> ustr list \<Rightarrow> ustr list" where
  "add_url url urls = (if supported_url url \<and> url \<notin> set urls then urls @ [url] else urls)"

definition build_url_list :: "torrent \<Rightarrow> ustr list" where
  "build_url_list t = fold (\<lambda>tier urls. fold add_url tier urls) (t_announce_list t) (add_url (t_announce t) [])"

fun try_urls :: "(ustr \<Rightarrow> tracker_response res) \<Rightarrow> exc \<Rightarrow> ustr list \<Rightarrow> tracker_response res" where
  "try_urls ask last_error [] = Inl last_error"
| "try_urls ask last_error (url # urls) =
     (case ask url of
        Inr r \<Rightarrow> Inr r
      | Inl (TrackerError m) \<Rightarrow> try_urls ask (TrackerError m) urls
      | Inl e \<Rightarrow> try_urls ask (TrackerError ''Request failed'') urls)"

definition announce ::
  "(ustr \<Rightarrow> udp_world) \<Rightarrow> (ustr \<Rightarrow> http_reply) \<Rightarrow> torrent \<Rightarrow> request \<Rightarrow> tracker_response res" where
  "announce udp http t rq =
     (let rq' = rq\<lparr>rq_info_hash := t_info_hash t\<rparr>;
          urls = build_url_list t in
      if urls = [] then tracker_error ''No HTTP/HTTPS or UDP trackers found for this torrent''
      else try_urls (\<lambda>url. if starts_with_text ''udp://'' url then udp_announce (udp url) rq'
                           else do_announce http url rq')
             (TrackerError ''No tracker URLs available'') urls)"

subsection \<open>Peer lists\<close>

text \<open>The compact form of a peer list, as BEP 23 has it.\<close>

definition compact_form :: "(int \<times> int) list \<Rightarrow> bytes" where
  "compact_form ps = concat (map (\<lambda>(ip, port). be_bytes 4 ip @ be_bytes 2 port) ps)"

lemma compact_peers_step:
  assumes "length xs = 4" "length ys = 2"
  shows "compact_peers (xs @ ys @ rest) = \<lparr>pi_ip = dotted (be_value xs), pi_port = be_value ys\<rparr> # compact_peers rest"
proof -
  from assms obtain a b c d e f where "xs = [a, b, c, d]" "ys = [e, f]"
    by (auto simp: numeral_eq_Suc length_Suc_conv)
  then show ?thesis by simp
qed

lemma length_compact_form: "length (compact_form ps) = 6 * length ps"
  by (induction ps) (auto simp: compact_form_def)

lemma compact_peers_form:
  "\<forall>(ip, port) \<in> set ps. 0 \<le> ip \<and> ip < 2 ^ 32 \<and> 0 \<le> port \<and> port < 2 ^ 16 \<Longrightarrow>
     compact_peers (compact_form ps) = map (\<lambda>(ip, port). \<lparr>pi_ip = dotted ip, pi_port = port\<rparr>) ps"
proof (induction ps)
  case (Cons p ps)
  obtain ip port where p: "p = (ip, port)" by (cases p)
  have "compact_peers (be_bytes 4 ip @ be_bytes 2 port @ compact_form ps) =
      \<lparr>pi_ip = dotted (be_value (be_bytes 4 ip)), pi_port = be_value (be_bytes 2 port)\<rparr> # compact_peers (compact_form ps)"
    by (rule compact_peers_step) simp_all
  moreover have "be_value (be_bytes 4 ip) = ip" "be_value (be_bytes 2 port) = port"
    using Cons.prems p by (simp_all add: be_value_be_bytes)
  ultimately show ?case using Cons p by (simp add: compact_form_def)
qed (simp add: compact_form_def)

text \<open>
  A compact peer list is read back peer by peer: addresses and ports in network byte order,
  six bytes each, whatever their number; a list of any other length is refused.
\<close>

theorem compact_peers_roundtrip:
  assumes "\<forall>(ip, port) \<in> set ps. 0 \<le> ip \<and> ip < 2 ^ 32 \<and> 0 \<le> port \<and> port < 2 ^ 16"
  shows "parse_compact_peers (compact_form ps) = Inr (map (\<lambda>(ip, port). \<lparr>pi_ip = dotted ip, pi_port = port\<rparr>) ps) \<and>
    (0 < length extra \<and> length extra < 6 \<longrightarrow>
       parse_compact_peers (compact_form ps @ extra) = Inl (TrackerError ''Compact peers length is not a multiple of 6''))"
  using compact_peers_form [OF assms] by (simp add: parse_compact_peers_def length_compact_form)

lemma compact_peers_roundtrip_witness:
  "parse_compact_peers [127, 0, 0, 1, 26, 225] = Inr [\<lparr>pi_ip = dotted 2130706433, pi_port = 6881\<rparr>] \<and>
   parse_compact_peers [127, 0, 0, 1, 26, 225, 9] = Inl (TrackerError ''Compact peers length is not a multiple of 6'')"
proof -
  have "compact_form [(2130706433, 6881)] = [127, 0, 0, 1, 26, 225]"
    by (simp add: compact_form_def be_bytes_numeral)
  with compact_peers_roundtrip [of "[(2130706433, 6881)]" "[9]"] show ?thesis by simp
qed

lemma dotted_localhost: "dotted 2130706433 = ucs ''127.0.0.1''"
  by (simp add: dotted_def be_bytes_numeral dec_nat.simps)

subsection \<open>The UDP exchange\<close>

lemma pack_uint_eq: "0 \<le> x \<Longrightarrow> x < 256 ^ k \<Longrightarrow> pack_uint k x = Inr (be_bytes k x)"
  by (simp add: pack_uint_def)

lemma be_field: "0 \<le> x \<Longrightarrow> x < 256 ^ k \<Longrightarrow> be_value (be_bytes k x) = x"
  by (simp add: be_value_be_bytes)

text \<open>The numbers that fit the fields of the announce packet.\<close>

definition announce_fits :: "int \<Rightarrow> int \<Rightarrow> int \<Rightarrow> request \<Rightarrow> bool" where
  "announce_fits cid tx key rq \<longleftrightarrow> 0 \<le> cid \<and> cid < 256 ^ 8 \<and> 0 \<le> tx \<and> tx < 256 ^ 4 \<and> 0 \<le> key \<and> key < 256 ^ 4 \<and>
     length (rq_info_hash rq) = 20 \<and> length (rq_peer_id rq) = 20 \<and>
     0 \<le> rq_downloaded rq \<and> rq_downloaded rq < 256 ^ 8 \<and> 0 \<le> rq_left rq \<and> rq_left rq < 256 ^ 8 \<and>
     0 \<le> rq_uploaded rq \<and> rq_uploaded rq < 256 ^ 8 \<and> - 2147483648 \<le> rq_numwant rq \<and> rq_numwant rq < 2147483648 \<and>
     0 \<le> rq_port rq \<and> rq_port rq < 256 ^ 2"

lemma event_id_range: "0 \<le> event_id e \<and> event_id e < 256 ^ 4"
  by (auto simp: event_id_def split: option.splits event.splits)

lemma announce_packet_eq:
  assumes "announce_fits cid tx key rq"
  shows "announce_packet cid tx key rq = Inr (be_bytes 8 cid @ be_bytes 4 1 @ be_bytes 4 tx @ rq_info_hash rq @ rq_peer_id rq @
    be_bytes 8 (rq_downloaded rq) @ be_bytes 8 (rq_left rq) @ be_bytes 8 (rq_uploaded rq) @
    be_bytes 4 (event_id (rq_event rq)) @ be_bytes 4 0 @ be_bytes 4 key @
    be_bytes 4 (rq_numwant rq mod 4294967296) @ be_bytes 2 (rq_port rq))"
  using assms event_id_range [of "rq_event rq"]
  by (simp add: announce_packet_def announce_fits_def pack_uint_eq pack_bytes_exact pack_sint4_def)

text \<open>
  The announce packet: when the numbers fit their fields it has 98 bytes, and each field is
  where BEP 15 puts it.
\<close>

theorem announce_packet_layout:
  assumes "announce_fits cid tx key rq"
  shows "\<exists>p. announce_packet cid tx key rq = Inr p \<and> length p = 98 \<and>
    be_value (slice 0 8 p) = cid \<and> be_value (slice 8 12 p) = 1 \<and> be_value (slice 12 16 p) = tx \<and>
    slice 16 36 p = rq_info_hash rq \<and> slice 36 56 p = rq_peer_id rq \<and>
    be_value (slice 56 64 p) = rq_downloaded rq \<and> be_value (slice 64 72 p) = rq_left rq \<and>
    be_value (slice 72 80 p) = rq_uploaded rq \<and> be_value (slice 80 84 p) = event_id (rq_event rq) \<and>
    be_value (slice 84 88 p) = 0 \<and> be_value (slice 88 92 p) = key \<and>
    be_value (slice 92 96 p) = rq_numwant rq mod 4294967296 \<and> be_value (slice 96 98 p) = rq_port rq"
  using assms event_id_range [of "rq_event rq"]
  by (simp add: announce_packet_eq announce_fits_def slice_def be_field)

definition sample_request :: request where
  "sample_request = \<lparr>rq_info_hash = replicate 20 1, rq_peer_id = replicate 20 2, rq_port = 6881, rq_uploaded = 0,
     rq_downloaded = 0, rq_left = 100, rq_event = Some Started, rq_compact = 1, rq_numwant = 50\<rparr>"

lemma sample_fits: "0 \<le> cid \<Longrightarrow> cid < 256 ^ 8 \<Longrightarrow> 0 \<le> tx \<Longrightarrow> tx < 256 ^ 4 \<Longrightarrow> announce_fits cid tx 7 sample_request"
  by (simp add: announce_fits_def sample_request_def)

lemma announce_packet_layout_witness:
  "\<exists>p. announce_packet 5 6 7 sample_request = Inr p \<and> length p = 98 \<and> be_value (slice 12 16 p) = 6"
  using announce_packet_layout [OF sample_fits [of 5 6]] by auto

text \<open>A tracker that follows BEP 15: its answers to the two packets.\<close>

definition bep15_connect :: "int \<Rightarrow> bytes \<Rightarrow> bytes res" where
  "bep15_connect cid pkt = Inr (be_bytes 4 0 @ slice 12 16 pkt @ be_bytes 8 cid)"

definition bep15_announce :: "int \<Rightarrow> int \<Rightarrow> int \<Rightarrow> (int \<times> int) list \<Rightarrow> bytes \<Rightarrow> bytes res" where
  "bep15_announce interval leechers seeders ps pkt =
     Inr (be_bytes 4 1 @ slice 12 16 pkt @ be_bytes 4 interval @ be_bytes 4 leechers @ be_bytes 4 seeders @ compact_form ps)"

lemma connect_reply_ok:
  assumes "0 \<le> cid" "cid < 256 ^ 8" "0 \<le> tx" "tx < 256 ^ 4"
  shows "parse_connect_reply tx (be_bytes 4 0 @ be_bytes 4 tx @ be_bytes 8 cid) = Inr cid"
  using assms by (simp add: parse_connect_reply_def slice_def be_field)

lemma announce_reply_ok:
  assumes "0 \<le> tx" "tx < 256 ^ 4" "0 \<le> iv" "iv < 256 ^ 4" "0 \<le> l" "l < 256 ^ 4" "0 \<le> s" "s < 256 ^ 4"
    and "\<forall>(ip, port) \<in> set ps. 0 \<le> ip \<and> ip < 2 ^ 32 \<and> 0 \<le> port \<and> port < 2 ^ 16"
  shows "parse_announce_reply tx (be_bytes 4 1 @ be_bytes 4 tx @ be_bytes 4 iv @ be_bytes 4 l @ be_bytes 4 s @ compact_form ps) =
    Inr \<lparr>tr_interval = iv, tr_peers = map (\<lambda>(ip, port). \<lparr>pi_ip = dotted ip, pi_port = port\<rparr>) ps,
         tr_min_interval = None, tr_seeders = Some s, tr_leechers = Some l, tr_tracker_id = None, tr_warning = None\<rparr>"
  using assms compact_peers_form [OF assms(9)]
  by (simp add: parse_announce_reply_def slice_def be_field parse_compact_peers_def length_compact_form)


definition sample_world :: udp_world where
  "sample_world = \<lparr>uw_target = Inr (Some (ucs ''tracker'', 80)), uw_lookup = Inr (), uw_connect_tx = 3, uw_announce_tx = 4,
     uw_key = 7, uw_connect_reply = bep15_connect 99, uw_announce_reply = bep15_announce 1800 2 3 [(2130706433, 6881)]\<rparr>"


text \<open>
  An accepted announce answer carries the transaction number of the request, is no error
  message, and is twenty bytes followed by whole peer entries; every other datagram is refused with
  TrackerError.
\<close>

theorem announce_reply_checked:
  "(parse_announce_reply tx resp = Inr r \<longleftrightarrow>
     20 \<le> length resp \<and> (length resp - 20) mod 6 = 0 \<and> be_value (slice 4 8 resp) = tx \<and> be_value (slice 0 4 resp) \<noteq> 3 \<and>
     r = \<lparr>tr_interval = be_value (slice 8 12 resp), tr_peers = compact_peers (drop 20 resp), tr_min_interval = None,
          tr_seeders = Some (be_value (slice 16 20 resp)), tr_leechers = Some (be_value (slice 12 16 resp)),
          tr_tracker_id = None, tr_warning = None\<rparr>) \<and>
   ((\<nexists>r. parse_announce_reply tx resp = Inr r) \<longleftrightarrow> (\<exists>m. parse_announce_reply tx resp = Inl (TrackerError m)))"
  by (auto simp: parse_announce_reply_def parse_compact_peers_def Let_def not_less split: if_splits)

text \<open>
  The kind of the answer is looked at only to find errors: a connect answer, or any other action
  number, passes as an announce answer.
\<close>

lemma announce_action_unchecked:
  "\<exists>r. parse_announce_reply 4 (be_bytes 4 77 @ be_bytes 4 4 @ replicate 12 0) = Inr r"
  by (simp add: parse_announce_reply_def slice_def be_field parse_compact_peers_def)

text \<open>And an error message of less than twenty bytes is lost: it is reported as too short.\<close>

lemma short_error_lost:
  "parse_announce_reply 4 (be_bytes 4 3 @ be_bytes 4 4 @ ascii ''banned'') =
     Inl (TrackerError ''UDP announce response too short'')"
  by (simp add: parse_announce_reply_def)

subsection \<open>The list of trackers\<close>

fun first_occurrences :: "'a list \<Rightarrow> 'a list \<Rightarrow> 'a list" where
  "first_occurrences seen [] = []"
| "first_occurrences seen (x # xs) =
     (if x \<in> set seen then first_occurrences seen xs else x # first_occurrences (seen @ [x]) xs)"

lemma fold_add_url: "fold add_url us urls = urls @ first_occurrences urls (filter supported_url us)"
  by (induction us arbitrary: urls) (auto simp: add_url_def)

lemma fold_tiers: "fold (\<lambda>tier urls. fold add_url tier urls) tiers urls = fold add_url (concat tiers) urls"
  by (induction tiers arbitrary: urls) auto

lemma build_url_list_eq:
  "build_url_list t = first_occurrences [] (filter supported_url (t_announce t # concat (t_announce_list t)))"
proof -
  have "build_url_list t = fold add_url (t_announce t # concat (t_announce_list t)) []"
    by (simp add: build_url_list_def fold_tiers)
  then show ?thesis unfolding fold_add_url by simp
qed

lemma first_occurrences_props:
  "distinct (first_occurrences seen xs) \<and> set (first_occurrences seen xs) = set xs - set seen"
proof (induction seen xs rule: first_occurrences.induct)
  case (2 seen x xs)
  then show ?case by (cases "x \<in> set seen") auto
qed simp

lemma first_occurrences_prefix:
  "first_occurrences seen (xs @ ys) = first_occurrences seen xs @ first_occurrences (seen @ first_occurrences seen xs) ys"
  by (induction seen xs rule: first_occurrences.induct) auto

text \<open>
  C35. The trackers to ask are the supported URLs of the torrent, each once, the primary one
  first and the others in the order of their first mention: whatever comes earlier in the torrent
  is never asked later.
\<close>

theorem url_list_correct:
  "distinct (build_url_list t) \<and>
   set (build_url_list t) = {u \<in> insert (t_announce t) (\<Union> (set ` set (t_announce_list t))). supported_url u} \<and>
   (supported_url (t_announce t) \<longrightarrow> hd (build_url_list t) = t_announce t) \<and>
   (\<forall>us vs. t_announce t # concat (t_announce_list t) = us @ vs \<longrightarrow>
      (\<exists>rest. build_url_list t = first_occurrences [] (filter supported_url us) @ rest \<and>
         set rest = {v \<in> set vs. supported_url v \<and> v \<notin> set us}))"
proof -
  let ?all = "t_announce t # concat (t_announce_list t)"
  have "\<exists>rest. build_url_list t = first_occurrences [] (filter supported_url us) @ rest \<and>
         set rest = {v \<in> set vs. supported_url v \<and> v \<notin> set us}" if "?all = us @ vs" for us vs
  proof -
    have "build_url_list t = first_occurrences [] (filter supported_url us) @
        first_occurrences ([] @ first_occurrences [] (filter supported_url us)) (filter supported_url vs)"
      unfolding build_url_list_eq that filter_append by (rule first_occurrences_prefix)
    moreover have "set (first_occurrences ([] @ first_occurrences [] (filter supported_url us)) (filter supported_url vs)) =
        {v \<in> set vs. supported_url v \<and> v \<notin> set us}"
      by (auto simp: first_occurrences_props)
    ultimately show ?thesis by blast
  qed
  moreover have "hd (build_url_list t) = t_announce t" if "supported_url (t_announce t)"
    using that by (simp add: build_url_list_eq)
  ultimately show ?thesis
    using first_occurrences_props [of "[]" "filter supported_url ?all"] unfolding build_url_list_eq [symmetric] by auto
qed

definition sample_tiers :: torrent where
  "sample_tiers = \<lparr>t_announce = ucs ''udp://a'', t_info_hash = [], t_piece_hashes = [], t_piece_length = 1, t_files = [],
     t_name = [], t_announce_list = [[ucs ''udp://a'', ucs ''wss://x''], [ucs ''http://b'']], t_comment = None,
     t_created_by = None, t_creation_date = PyNone, t_is_private = False\<rparr>"

lemma url_list_correct_witness:
  "supported_url (t_announce sample_tiers) \<and> hd (build_url_list sample_tiers) = ucs ''udp://a'' \<and>
   ucs ''wss://x'' \<notin> set (build_url_list sample_tiers)"
proof -
  have "supported_url (ucs ''udp://a'')" "\<not> supported_url (ucs ''wss://x'')"
    by (simp_all add: supported_url_def starts_with_text_def)
  with url_list_correct [of sample_tiers] show ?thesis by (simp add: sample_tiers_def)
qed

lemma first_split_Cons:
  "(\<exists>us u vs. x # xs = us @ u # vs \<and> P u \<and> (\<forall>v \<in> set us. Q v)) \<longleftrightarrow>
     P x \<or> Q x \<and> (\<exists>us u vs. xs = us @ u # vs \<and> P u \<and> (\<forall>v \<in> set us. Q v))" (is "?L \<longleftrightarrow> ?R")
proof
  assume ?L
  then obtain us u vs where s: "x # xs = us @ u # vs" "P u" "\<forall>v \<in> set us. Q v" by blast
  then show ?R by (cases us) auto
next
  assume ?R
  then show ?L
  proof
    assume "P x"
    then show ?L by (intro exI [of _ "[]"] exI [of _ x] exI [of _ xs]) simp
  next
    assume "Q x \<and> (\<exists>us u vs. xs = us @ u # vs \<and> P u \<and> (\<forall>v \<in> set us. Q v))"
    then obtain us u vs where "Q x" "xs = us @ u # vs" "P u" "\<forall>v \<in> set us. Q v" by blast
    then show ?L by (intro exI [of _ "x # us"] exI [of _ u] exI [of _ vs]) simp
  qed
qed

lemma try_urls_Inr:
  "try_urls ask e urls = Inr r \<longleftrightarrow>
     (\<exists>us u vs. urls = us @ u # vs \<and> ask u = Inr r \<and> (\<forall>v \<in> set us. \<exists>e. ask v = Inl e))"
proof (induction urls arbitrary: e)
  case (Cons url urls)
  have "try_urls ask e (url # urls) = Inr r \<longleftrightarrow>
      ask url = Inr r \<or> (\<exists>e. ask url = Inl e) \<and> (\<exists>e'. try_urls ask e' urls = Inr r)"
  proof (cases "ask url")
    case (Inl e')
    then obtain e'' where "try_urls ask e (url # urls) = try_urls ask e'' urls" by (cases e') auto
    moreover have "try_urls ask e'' urls = Inr r \<longleftrightarrow> (\<exists>e'. try_urls ask e' urls = Inr r)"
      unfolding Cons.IH by simp
    ultimately show ?thesis using Inl by (simp only: sum.distinct sum.inject) blast
  qed auto
  then show ?case unfolding first_split_Cons Cons.IH by simp
qed simp

lemma try_urls_Inl:
  "try_urls ask (TrackerError m) urls = Inl e \<Longrightarrow> (\<exists>m. e = TrackerError m) \<and> (\<forall>u \<in> set urls. \<exists>e. ask u = Inl e)"
proof (induction urls arbitrary: m)
  case (Cons url urls)
  then obtain e' where e': "ask url = Inl e'" by (cases "ask url") auto
  then obtain m' where "try_urls ask (TrackerError m) (url # urls) = try_urls ask (TrackerError m') urls"
    by (cases e') auto
  with Cons e' show ?case by auto
qed auto

text \<open>What asking one tracker of the list means.\<close>

definition ask_tracker :: "(ustr \<Rightarrow> udp_world) \<Rightarrow> (ustr \<Rightarrow> http_reply) \<Rightarrow> request \<Rightarrow> ustr \<Rightarrow> tracker_response res" where
  "ask_tracker udp http rq url =
     (if starts_with_text ''udp://'' url then udp_announce (udp url) rq else do_announce http url rq)"

lemma announce_eq:
  "announce udp http t rq =
     (if build_url_list t = [] then tracker_error ''No HTTP/HTTPS or UDP trackers found for this torrent''
      else try_urls (ask_tracker udp http (rq\<lparr>rq_info_hash := t_info_hash t\<rparr>))
             (TrackerError ''No tracker URLs available'') (build_url_list t))"
  by (simp add: announce_def ask_tracker_def [abs_def] Let_def)

lemma announce_Inl: "announce udp http t rq = Inl e \<Longrightarrow> \<exists>m. e = TrackerError m"
  unfolding announce_eq using try_urls_Inl by (fastforce split: if_splits)

text \<open>
  C34. Failover: \<open>announce\<close> gives the answer of the first tracker, in list order, that answers, and
  asks no further; it fails only when every tracker failed, and then always with TrackerError.
\<close>

theorem announce_failover:
  "(announce udp http t rq = Inr r \<longleftrightarrow>
      (\<exists>us u vs. build_url_list t = us @ u # vs \<and>
         ask_tracker udp http (rq\<lparr>rq_info_hash := t_info_hash t\<rparr>) u = Inr r \<and>
         (\<forall>v \<in> set us. \<exists>e. ask_tracker udp http (rq\<lparr>rq_info_hash := t_info_hash t\<rparr>) v = Inl e))) \<and>
   (announce udp http t rq = Inl e \<longrightarrow>
      (\<exists>m. e = TrackerError m) \<and>
      (\<forall>u \<in> set (build_url_list t). \<exists>e. ask_tracker udp http (rq\<lparr>rq_info_hash := t_info_hash t\<rparr>) u = Inl e))"
  unfolding announce_eq using try_urls_Inr try_urls_Inl by auto

lemma announce_failover_witness:
  "\<exists>m. announce (\<lambda>u. sample_world\<lparr>uw_target := Inr None\<rparr>) (\<lambda>u. HttpTimeout) sample_tiers sample_request = Inl (TrackerError m)"
proof (cases "announce (\<lambda>u. sample_world\<lparr>uw_target := Inr None\<rparr>) (\<lambda>u. HttpTimeout) sample_tiers sample_request")
  case (Inl e)
  then show ?thesis using announce_failover by blast
next
  case (Inr r)
  then obtain u where "ask_tracker (\<lambda>u. sample_world\<lparr>uw_target := Inr None\<rparr>) (\<lambda>u. HttpTimeout)
      (sample_request\<lparr>rq_info_hash := t_info_hash sample_tiers\<rparr>) u = Inr r"
    using announce_failover by blast
  then have False
    by (auto simp: ask_tracker_def udp_announce_def sample_world_def do_announce_def bindR_Inr_iff split: if_splits)
  then show ?thesis ..
qed

subsection \<open>The query string\<close>

text \<open>How a server reads a percent-encoded value.\<close>

definition hex_value :: "byte \<Rightarrow> nat" where
  "hex_value b = (if b \<le> 57 then unat b - 48 else unat b - 55)"

fun unquote :: "bytes \<Rightarrow> bytes" where
  "unquote (p # h # l # bs) =
     (if p = 37 then of_nat (16 * hex_value h + hex_value l) # unquote bs else p # unquote (h # l # bs))"
| "unquote bs = bs"

lemma unquote_plain: "p \<noteq> 37 \<Longrightarrow> unquote (p # bs) = p # unquote bs"
  by (cases bs rule: list.exhaust; cases "tl bs") auto

lemma hex_value_upper: "n < 16 \<Longrightarrow> hex_value (upper_hex n) = n"
  by (auto simp: hex_value_def upper_hex_def word_le_nat_alt unat_of_nat)

lemma unquote_byte: "unquote (quote_byte b @ bs) = b # unquote bs"
proof (cases "unreserved b")
  case True
  then have "b \<noteq> 37" by (auto simp: unreserved_def)
  with True show ?thesis by (simp add: quote_byte_def unquote_plain)
next
  case False
  have "unat b < 2 ^ LENGTH(8)" by (rule unsigned_less)
  then have "hex_value (upper_hex (unat b div 16)) = unat b div 16" "hex_value (upper_hex (unat b mod 16)) = unat b mod 16"
    by (simp_all add: hex_value_upper less_mult_imp_div_less)
  with False show ?thesis by (simp add: quote_byte_def)
qed

lemma quote_byte_safe: "c \<in> set (quote_byte b) \<Longrightarrow> unreserved c \<or> c = 37"
proof -
  have u: "unreserved (upper_hex n)" if "n < 16" for n
    using that by (auto simp: unreserved_def upper_hex_def word_le_nat_alt unat_of_nat)
  have "unat b < 2 ^ LENGTH(8)" by (rule unsigned_less)
  then have "unreserved (upper_hex (unat b div 16))" "unreserved (upper_hex (unat b mod 16))"
    by (auto intro!: u simp: less_mult_imp_div_less)
  then show "c \<in> set (quote_byte b) \<Longrightarrow> unreserved c \<or> c = 37" by (auto simp: quote_byte_def split: if_splits)
qed

text \<open>
  The info hash and the peer id reach the tracker intact: percent-decoding gives every byte
  string back, and the encoded form has no character that would end or split the parameter.
\<close>

theorem quote_roundtrip:
  "unquote (quote_from_bytes bs) = bs \<and> (\<forall>c \<in> set (quote_from_bytes bs). unreserved c \<or> c = 37)"
proof -
  have "unquote (quote_from_bytes bs) = bs"
    by (induction bs) (simp_all add: quote_from_bytes_def unquote_byte)
  then show ?thesis using quote_byte_safe by (auto simp: quote_from_bytes_def)
qed

lemma quote_roundtrip_witness: "unquote (quote_from_bytes [0, 255, 97]) = [0, 255, 97]"
  using quote_roundtrip [of "[0, 255, 97]"] by (rule conjunct1)

text \<open>
  A tracker URL that has a query of its own gets a second question mark, so its last parameter
  swallows the port.
\<close>

lemma second_question_mark:
  "\<exists>url. http_url (ucs ''http://t/announce?key=1'') sample_request = Inr url \<and>
     take 33 url = ucs ''http://t/announce?key=1?port=6881''"
  by (simp add: http_url_def query_eval sample_request_def py_dec_def max_str_digits_def dec_nat.simps)

end
