(* ===== verification/TrackerQuery.thy ===== *)
theory TrackerQuery
  imports Tracker
begin

section \<open>What an HTTP tracker reads\<close>

text \<open>
  The other end of an HTTP announce: a server splits the query at the ampersands and each
  parameter at its first equals sign, and percent-decodes the value.  The theorem: it reads back
  every parameter as it was meant, the binary info hash and peer id included, although the
  client pastes the query together by hand.
\<close>

subsection \<open>The server's side\<close>

fun split_on :: "byte \<Rightarrow> bytes \<Rightarrow> bytes list" where
  "split_on c [] = [[]]"
| "split_on c (b # bs) =
     (if b = c then [] # split_on c bs
      else (case split_on c bs of [] \<Rightarrow> [[b]] | p # ps \<Rightarrow> (b # p) # ps))"

definition parse_param :: "bytes \<Rightarrow> bytes \<times> bytes" where
  "parse_param p = (takeWhile (\<lambda>b. b \<noteq> 61) p, unquote (tl (dropWhile (\<lambda>b. b \<noteq> 61) p)))"

definition parse_query :: "bytes \<Rightarrow> (bytes \<times> bytes) list" where
  "parse_query q = map parse_param (split_on 38 q)"

definition decimal :: "int \<Rightarrow> bytes" where
  "decimal i = (case py_dec i of Inl _ \<Rightarrow> [] | Inr d \<Rightarrow> d)"

text \<open>What the tracker is to read.\<close>

definition announced :: "request \<Rightarrow> (bytes \<times> bytes) list" where
  "announced rq =
     map (\<lambda>(k, n). (ascii k, decimal n))
       [(''port'', rq_port rq), (''uploaded'', rq_uploaded rq), (''downloaded'', rq_downloaded rq),
        (''left'', rq_left rq), (''compact'', rq_compact rq), (''numwant'', rq_numwant rq)] @
     (case rq_event rq of None \<Rightarrow> [] | Some e \<Rightarrow> [(ascii ''event'', event_name e)]) @
     [(ascii ''info_hash'', rq_info_hash rq), (ascii ''peer_id'', rq_peer_id rq)]"

subsection \<open>Splitting what was joined\<close>

lemma split_on_nonempty: "split_on c bs \<noteq> []"
  by (induction bs) (auto split: list.split)

lemma split_on_plain: "c \<notin> set p \<Longrightarrow> split_on c p = [p]"
  by (induction p) auto

lemma split_on_append: "c \<notin> set p \<Longrightarrow> split_on c (p @ c # q) = p # split_on c q"
  by (induction p) auto

lemma split_on_join: "ps \<noteq> [] \<Longrightarrow> \<forall>p \<in> set ps. c \<notin> set p \<Longrightarrow> split_on c (join_with [c] ps) = ps"
proof (induction "[c]" ps rule: join_with.induct)
  case (3 x y zs)
  then show ?case by (simp add: split_on_append)
qed (simp_all add: split_on_plain)

lemma join_with_snoc: "ps \<noteq> [] \<Longrightarrow> join_with sep (ps @ [p]) = join_with sep ps @ sep @ p"
  by (induction sep ps rule: join_with.induct) simp_all

lemma join_with_two: "ps \<noteq> [] \<Longrightarrow> join_with sep (ps @ [p, q]) = join_with sep ps @ sep @ p @ sep @ q"
  using join_with_snoc [of ps sep p] join_with_snoc [of "ps @ [p]" sep q] by simp

subsection \<open>One parameter\<close>

lemma unquote_id: "37 \<notin> set bs \<Longrightarrow> unquote bs = bs"
  by (induction bs) (simp_all add: unquote_plain)

lemma decimal_chars: "b \<in> set (decimal n) \<Longrightarrow> b = 45 \<or> is_digit b"
  using dec_nat_digits [of "nat \<bar>n\<bar>"] by (auto simp: decimal_def py_dec_def Let_def split: if_splits)

lemma decimal_plain: "37 \<notin> set (decimal n)" "38 \<notin> set (decimal n)"
  using decimal_chars [of 37 n] decimal_chars [of 38 n] by (auto simp: is_digit_def)

lemma event_name_plain: "37 \<notin> set (event_name e)" "38 \<notin> set (event_name e)"
  by (cases e; simp add: event_name_def)+

lemma quoted_plain: "38 \<notin> set (quote_from_bytes bs)"
  using quote_byte_safe [of 38] by (auto simp: quote_from_bytes_def unreserved_def)

lemma unquote_quoted: "unquote (quote_from_bytes bs) = bs"
  by (induction bs) (simp_all add: quote_from_bytes_def unquote_byte)

subsection \<open>The whole query\<close>

definition query_fields :: "request \<Rightarrow> (string \<times> bytes) list" where
  "query_fields rq =
     [(''port'', decimal (rq_port rq)), (''uploaded'', decimal (rq_uploaded rq)), (''downloaded'', decimal (rq_downloaded rq)),
      (''left'', decimal (rq_left rq)), (''compact'', decimal (rq_compact rq)), (''numwant'', decimal (rq_numwant rq))] @
     (case rq_event rq of None \<Rightarrow> [] | Some e \<Rightarrow> [(''event'', event_name e)])"

definition field :: "string \<times> bytes \<Rightarrow> bytes" where
  "field p = ascii (fst p) @ 61 # snd p"

definition numbers_fit :: "request \<Rightarrow> bool" where
  "numbers_fit rq \<longleftrightarrow>
     (\<forall>n \<in> {rq_port rq, rq_uploaded rq, rq_downloaded rq, rq_left rq, rq_compact rq, rq_numwant rq}. \<bar>n\<bar> < 10 ^ max_str_digits)"

lemma query_string_fields:
  assumes "numbers_fit rq"
  shows "query_string (build_params rq) = Inr (join_with [38]
    (map field (query_fields rq @ [(''info_hash'', quote_from_bytes (rq_info_hash rq)), (''peer_id'', quote_from_bytes (rq_peer_id rq))])))"
proof -
  have d: "py_dec n = Inr (decimal n)"
    if "n \<in> {rq_port rq, rq_uploaded rq, rq_downloaded rq, rq_left rq, rq_compact rq, rq_numwant rq}" for n
    using that assms py_dec_total [of n] by (auto simp: decimal_def numbers_fit_def)
  have "urlencode (plain_params (build_params rq)) = Inr (join_with [38] (map field (query_fields rq)))"
    using d by (cases "rq_event rq") (simp_all add: urlencode_def plain_params_def build_params_def param_text_def query_fields_def field_def)
  moreover have "map field (query_fields rq) \<noteq> []" by (simp add: query_fields_def)
  ultimately have "urlencode (plain_params (build_params rq)) = Inr (join_with [38] (map field (query_fields rq)))"
    "join_with [38] (map field (query_fields rq) @ [p, q]) = join_with [38] (map field (query_fields rq)) @ [38] @ p @ [38] @ q" for p q
    by (simp_all add: join_with_two)
  moreover have "quoted_param (build_params rq) ''info_hash'' = Inr (quote_from_bytes (rq_info_hash rq))"
    "quoted_param (build_params rq) ''peer_id'' = Inr (quote_from_bytes (rq_peer_id rq))"
    by (simp_all add: quoted_param_def build_params_def)
  ultimately show ?thesis by (simp add: query_string_def field_def)
qed

lemma query_read_back:
  assumes "numbers_fit rq"
  shows "\<exists>q. query_string (build_params rq) = Inr q \<and> parse_query q = announced rq"
proof -
  let ?fs = "query_fields rq @ [(''info_hash'', quote_from_bytes (rq_info_hash rq)), (''peer_id'', quote_from_bytes (rq_peer_id rq))]"
  have "\<forall>p \<in> set (map field ?fs). 38 \<notin> set p"
    by (auto simp: query_fields_def field_def decimal_plain event_name_plain quoted_plain split: option.splits)
  then have "split_on 38 (join_with [38] (map field ?fs)) = map field ?fs" by (intro split_on_join) simp_all
  then have "parse_query (join_with [38] (map field ?fs)) = map (\<lambda>f. parse_param (field f)) ?fs"
    by (simp add: parse_query_def)
  also have "\<dots> = announced rq"
    by (cases "rq_event rq")
      (simp_all add: query_fields_def field_def announced_def parse_param_def unquote_id decimal_plain event_name_plain unquote_quoted)
  finally show ?thesis using query_string_fields [OF assms] by blast
qed

text \<open>
  C33. An HTTP tracker reads what the client meant: for numbers of at most 4300 digits the query
  string is built, and splitting it at the ampersands and the first equals signs and decoding the
  percent escapes gives the port, the counters, the event if there is one, and the exact bytes of
  the info hash and of the peer id, in this order and nothing else.
\<close>

theorem query_roundtrip:
  assumes "numbers_fit rq"
  shows "\<exists>q. query_string (build_params rq) = Inr q \<and> parse_query q =
    map (\<lambda>(k, n). (ascii k, decimal n))
       [(''port'', rq_port rq), (''uploaded'', rq_uploaded rq), (''downloaded'', rq_downloaded rq),
        (''left'', rq_left rq), (''compact'', rq_compact rq), (''numwant'', rq_numwant rq)] @
     (case rq_event rq of None \<Rightarrow> [] | Some e \<Rightarrow> [(ascii ''event'', event_name e)]) @
     [(ascii ''info_hash'', rq_info_hash rq), (ascii ''peer_id'', rq_peer_id rq)]"
  using query_read_back [OF assms] by (simp only: announced_def)

lemma query_roundtrip_witness:
  "\<exists>q. query_string (build_params (sample_request\<lparr>rq_info_hash := [38, 61, 37, 0, 97]\<rparr>)) = Inr q \<and>
     parse_query q =
       [(ascii ''port'', ascii ''6881''), (ascii ''uploaded'', ascii ''0''), (ascii ''downloaded'', ascii ''0''),
        (ascii ''left'', ascii ''100''), (ascii ''compact'', ascii ''1''), (ascii ''numwant'', ascii ''50''),
        (ascii ''event'', ascii ''started''), (ascii ''info_hash'', [38, 61, 37, 0, 97]), (ascii ''peer_id'', replicate 20 2)]"
proof -
  have p: "(10 :: int) ^ 4 \<le> 10 ^ max_str_digits" by (rule power_increasing) (simp_all add: max_str_digits_def)
  have "numbers_fit (sample_request\<lparr>rq_info_hash := [38, 61, 37, 0, 97]\<rparr>)"
    using p unfolding numbers_fit_def by (simp add: sample_request_def)
  from query_roundtrip [OF this] show ?thesis
    by (simp add: sample_request_def decimal_def py_dec_def max_str_digits_def dec_nat.simps event_name_def)
qed

end
