(* ===== verification/PyFloat.thy ===== *)
theory PyFloat
  imports PyValue "HOL-Library.Log_Nat"
begin

section \<open>Python numbers for display: floats and their formats\<close>

text \<open>
  A Python float is an IEEE 754 double.  The client's floats are never NaN and never minus
  infinity, so a float is a rational number or infinity; \<open>to_float\<close> rounds a rational number to
  the nearest double, ties to even, with the subnormals and the overflow of the format.  An integer
  that is too large for a double raises OverflowError where it is converted, while the result of a
  float operation that is too large is infinity.

  Formats: \<open>f"{x:.kf}"\<close> is the decimal number with \<open>k\<close> places that is nearest to the exact value of
  the double, ties to even; \<open>{n:,}\<close> groups the digits by three.

  The lemmas: the value of the exponent, that small integers are exact, that a number below
  2^1023 does not overflow, how far rounding goes.
\<close>

subsection \<open>Rounding\<close>

definition round_even :: "rat \<Rightarrow> int" where
  "round_even x =
     (let f = \<lfloor>x\<rfloor>; r = x - of_int f in if r < 1 / 2 \<or> r = 1 / 2 \<and> even f then f else f + 1)"

lemma round_even_of_int [simp]: "round_even (of_int i) = i"
  by (simp add: round_even_def)

lemma round_even_numeral [simp]:
  "round_even 0 = 0" "round_even 1 = 1" "round_even (numeral n) = numeral n"
  using round_even_of_int [of 0] round_even_of_int [of 1] round_even_of_int [of "numeral n"] by simp_all

lemma round_even_error: "\<bar>of_int (round_even x) - x\<bar> \<le> 1 / 2"
proof -
  have "of_int \<lfloor>x\<rfloor> \<le> x" "x < of_int \<lfloor>x\<rfloor> + 1" by linarith+
  then show ?thesis by (auto simp: round_even_def Let_def)
qed

lemma round_even_le: "x \<le> of_int n \<Longrightarrow> round_even x \<le> n"
  using round_even_error [of x] round_even_of_int [of n] by (cases "x = of_int n") (auto simp: round_even_def Let_def, linarith+)

lemma round_even_ge: "of_int n \<le> x \<Longrightarrow> n \<le> round_even x"
  using le_floor_iff [of n x] by (auto simp: round_even_def Let_def)

lemma round_even_abs: "\<bar>x\<bar> \<le> of_int n \<Longrightarrow> \<bar>round_even x\<bar> \<le> n"
  using round_even_le [of x n] round_even_ge [of "- n" x] by (simp add: abs_le_iff)

text \<open>The exponent of a number: \<open>2 ^ e \<le> \<bar>x\<bar> < 2 ^ (e + 1)\<close>.\<close>

definition exponent :: "rat \<Rightarrow> int" where
  "exponent x =
     (case quotient_of x of (a, b) \<Rightarrow>
        let e = int (floorlog 2 (nat \<bar>a\<bar>)) - int (floorlog 2 (nat b)) in
        if \<bar>x\<bar> < 2 powi e then e - 1 else e)"

lemma floorlog_range:
  assumes "0 < n"
  shows "2 powi (int (floorlog 2 (nat n)) - 1) \<le> (of_int n :: rat)" "(of_int n :: rat) < 2 powi (int (floorlog 2 (nat n)))"
proof -
  let ?l = "floorlog 2 (nat n)"
  have b: "2 ^ (?l - 1) \<le> nat n" "nat n < 2 ^ ?l" using floorlog_bounds [of "nat n" 2] assms by simp_all
  then have "?l \<noteq> 0" using assms by (intro notI) simp
  then have l: "int ?l - 1 = int (?l - 1)" by simp
  have "int (2 ^ (?l - 1)) \<le> n" "n < int (2 ^ ?l)" using b assms by linarith+
  then have "(of_int (int (2 ^ (?l - 1))) :: rat) \<le> of_int n" "(of_int n :: rat) < of_int (int (2 ^ ?l))"
    by (simp_all only: of_int_le_iff of_int_less_iff)
  then show "2 powi (int ?l - 1) \<le> (of_int n :: rat)" "(of_int n :: rat) < 2 powi (int ?l)"
    unfolding l power_int_of_nat by simp_all
qed

lemma powi_add: "(2 :: rat) powi (a + b) = 2 powi a * 2 powi b"
  by (simp add: power_int_add)

lemma powi_mono: "a \<le> b \<Longrightarrow> (2 :: rat) powi a \<le> 2 powi b"
  by (simp add: power_int_increasing)

lemma exponent_bounds:
  assumes "x \<noteq> 0"
  shows "2 powi exponent x \<le> \<bar>x\<bar>" "\<bar>x\<bar> < 2 powi (exponent x + 1)"
proof -
  obtain a b where q: "quotient_of x = (a, b)" by (cases "quotient_of x")
  then have b: "0 < b" and x: "x = of_int a / of_int b" using quotient_of_denom_pos quotient_of_div by auto
  with assms have a: "0 < \<bar>a\<bar>" by auto
  let ?la = "int (floorlog 2 (nat \<bar>a\<bar>))" and ?lb = "int (floorlog 2 (nat b))"
  note A = floorlog_range [OF a] and B = floorlog_range [OF b]
  have x': "\<bar>x\<bar> = of_int \<bar>a\<bar> / of_int b" using b by (simp add: x)
  have lo: "2 powi (?la - ?lb - 1) \<le> \<bar>x\<bar>"
  proof -
    have "2 powi (?la - ?lb - 1) * of_int b \<le> (2 powi (?la - ?lb - 1) * 2 powi ?lb :: rat)"
      using B(2) by (intro mult_left_mono) simp_all
    also have "\<dots> = 2 powi (?la - ?lb - 1 + ?lb)" by (rule powi_add [symmetric])
    finally have "2 powi (?la - ?lb - 1) * of_int b \<le> (2 powi (?la - 1) :: rat)" by simp
    also note A(1)
    finally show ?thesis using b by (simp add: x' le_divide_eq)
  qed
  have hi: "\<bar>x\<bar> < 2 powi (?la - ?lb + 1)"
  proof -
    have "of_int \<bar>a\<bar> < (2 powi (?la - ?lb + 1 + (?lb - 1)) :: rat)" using A(2) by simp
    also have "\<dots> = 2 powi (?la - ?lb + 1) * 2 powi (?lb - 1)" by (rule powi_add)
    also have "\<dots> \<le> 2 powi (?la - ?lb + 1) * of_int b" using B(1) by (intro mult_left_mono) simp_all
    finally show ?thesis using b by (simp add: x' divide_less_eq)
  qed
  show "2 powi exponent x \<le> \<bar>x\<bar>" "\<bar>x\<bar> < 2 powi (exponent x + 1)"
    using lo hi by (auto simp: exponent_def q Let_def)
qed

lemma exponent_unique:
  assumes "2 powi e \<le> \<bar>x\<bar>" "\<bar>x\<bar> < 2 powi (e + 1)"
  shows "exponent x = e"
proof -
  have "(0 :: rat) < 2 powi e" by simp
  with assms(1) have "x \<noteq> 0" by (metis abs_zero not_less)
  note b = exponent_bounds [OF this]
  have "\<not> exponent x + 1 \<le> e" using powi_mono [of "exponent x + 1" e] b assms by linarith
  moreover have "\<not> e + 1 \<le> exponent x" using powi_mono [of "e + 1" "exponent x"] b assms by linarith
  ultimately show ?thesis by linarith
qed

subsection \<open>Doubles\<close>

datatype pyfloat = Fin rat | Inf

text \<open>The weight of the last bit: 53 bits of precision, and not below 2^-1074.\<close>

definition ulp :: "rat \<Rightarrow> rat" where
  "ulp x = 2 powi (max (exponent x - 52) (- 1074))"

definition to_float :: "rat \<Rightarrow> pyfloat" where
  "to_float x =
     (if x = 0 then Fin 0
      else let y = of_int (round_even (x / ulp x)) * ulp x in if \<bar>y\<bar> < 2 ^ 1024 then Fin y else Inf)"

definition int_float :: "int \<Rightarrow> rat res" where
  "int_float i = (case to_float (of_int i) of Fin y \<Rightarrow> Inr y | Inf \<Rightarrow> Inl OverflowError)"

text \<open>True division of two integers.\<close>

definition int_div :: "int \<Rightarrow> int \<Rightarrow> rat res" where
  "int_div a b =
     (if b = 0 then Inl ZeroDivisionError
      else case to_float (of_int a / of_int b) of Fin y \<Rightarrow> Inr y | Inf \<Rightarrow> Inl OverflowError)"

lemma ulp_pos [simp]: "0 < ulp x" "ulp x \<noteq> 0" "\<bar>ulp x\<bar> = ulp x"
  by (simp_all add: ulp_def)

lemma powi_int: "0 \<le> k \<Longrightarrow> (2 :: rat) powi k = of_int (2 ^ nat k)"
  by (simp add: power_int_def)

lemma to_float_finite:
  assumes "\<bar>x\<bar> < 2 powi k" "- 1022 \<le> k" "k \<le> 1023"
  shows "\<exists>y. to_float x = Fin y \<and> \<bar>y\<bar> \<le> 2 powi k"
proof (cases "x = 0")
  case False
  let ?u = "ulp x" and ?e = "max (exponent x - 52) (- 1074)"
  have "exponent x < k"
  proof (rule ccontr)
    assume "\<not> exponent x < k"
    then have "(2 :: rat) powi k \<le> 2 powi exponent x" by (intro powi_mono) simp
    with exponent_bounds(1) [OF False] assms(1) show False by linarith
  qed
  then have e: "?e \<le> k - 52" using assms(2) by simp
  have kp: "2 powi k = 2 powi (k - ?e) * ?u" by (simp add: ulp_def flip: powi_add)
  have n: "(2 :: rat) powi (k - ?e) = of_int (2 ^ nat (k - ?e))" using e by (intro powi_int) simp
  have "\<bar>x / ?u\<bar> \<le> 2 powi (k - ?e)"
    using assms(1) ulp_pos(1) [of x] unfolding kp by (simp add: abs_divide divide_le_eq)
  then have "\<bar>round_even (x / ?u)\<bar> \<le> 2 ^ nat (k - ?e)" unfolding n by (rule round_even_abs)
  then have "(of_int \<bar>round_even (x / ?u)\<bar> :: rat) \<le> 2 powi (k - ?e)" unfolding n by (simp only: of_int_le_iff)
  then have y: "\<bar>of_int (round_even (x / ?u)) * ?u\<bar> \<le> 2 powi k"
    unfolding kp by (simp add: abs_mult mult_right_mono)
  also have "(2 :: rat) powi k \<le> 2 powi 1023" using assms(3) by (rule powi_mono)
  also have "(2 :: rat) powi 1023 < 2 ^ 1024" by simp
  finally show ?thesis using y False by (simp add: to_float_def Let_def)
qed (simp add: to_float_def)

text \<open>A number with at most 53 bits is a double itself.\<close>

lemma exponent_le:
  assumes "x \<noteq> 0" "\<bar>x\<bar> \<le> 2 powi n"
  shows "exponent x \<le> n"
proof (rule ccontr)
  assume "\<not> exponent x \<le> n"
  then have "(2 :: rat) powi (n + 1) \<le> 2 powi exponent x" by (intro powi_mono) simp
  moreover have "(2 :: rat) powi n < 2 powi (n + 1)" by (simp add: power_int_strict_increasing)
  ultimately show False using exponent_bounds(1) [OF assms(1)] assms(2) by linarith
qed

lemma to_float_exact:
  assumes "x = of_int i * 2 powi k" "\<bar>i\<bar> \<le> 2 ^ 53" "- 1022 \<le> k" "k \<le> 900"
  shows "to_float x = Fin x"
proof (cases "x = 0")
  case False
  let ?e = "max (exponent x - 52) (- 1074)"
  have top: "\<bar>x\<bar> \<le> 2 powi (53 + k)"
  proof -
    have "(of_int \<bar>i\<bar> :: rat) \<le> of_int (2 ^ 53)" using assms(2) by (simp only: of_int_le_iff)
    then show ?thesis by (simp add: assms(1) abs_mult powi_add)
  qed
  note ex = exponent_le [OF False top]
  have "\<exists>m. x / ulp x = of_int m"
  proof (cases "?e \<le> k")
    case True
    have "x = of_int i * 2 powi (k - ?e + ?e)" using assms(1) by simp
    also have "\<dots> = of_int i * 2 powi (k - ?e) * ulp x" unfolding powi_add by (simp add: ulp_def)
    finally have "x / ulp x = of_int i * 2 powi (k - ?e)" using ulp_pos [of x] by (metis nonzero_mult_div_cancel_right)
    also have "\<dots> = of_int (i * 2 ^ nat (k - ?e))" using True by (subst powi_int) simp_all
    finally show ?thesis by blast
  next
    case False
    with ex assms(3) have e: "exponent x = 53 + k" by simp
    then have "(2 :: rat) powi (53 + k) \<le> \<bar>x\<bar>" using exponent_bounds(1) [OF \<open>x \<noteq> 0\<close>] by simp
    with top have "\<bar>x\<bar> = 2 powi (53 + k)" by simp
    moreover have "(2 :: rat) powi (53 + k) = 2 ^ 52 * ulp x"
      using e assms(3) by (simp add: ulp_def powi_add power_int_diff max_def)
    ultimately have "x / ulp x = of_int (2 ^ 52) \<or> x / ulp x = of_int (- (2 ^ 52))"
      using ulp_pos [of x] by (auto simp: abs_if field_simps split: if_splits)
    then show ?thesis by blast
  qed
  then obtain m where m: "x / ulp x = of_int m" by blast
  then have "of_int m * ulp x = x" using ulp_pos [of x] by (simp add: field_simps)
  moreover have "\<bar>x\<bar> < 2 ^ 1024"
  proof -
    have "(2 :: rat) powi (53 + k) \<le> 2 powi 1000" using assms(4) by (intro powi_mono) simp
    also have "(2 :: rat) powi 1000 < 2 ^ 1024" by simp
    finally show ?thesis using top by linarith
  qed
  ultimately show ?thesis using False by (simp add: to_float_def Let_def m)
qed (simp add: to_float_def)

lemma to_float_int: "\<bar>i\<bar> \<le> 2 ^ 53 \<Longrightarrow> to_float (of_int i) = Fin (of_int i)"
  by (rule to_float_exact [where k = 0]) simp_all

lemma int_float_small: "\<bar>i\<bar> \<le> 2 ^ 53 \<Longrightarrow> int_float i = Inr (of_int i)"
  by (simp add: int_float_def to_float_int)

lemma int_float_total:
  assumes "\<bar>i\<bar> < 2 ^ 1023"
  shows "\<exists>y. int_float i = Inr y \<and> \<bar>y\<bar> \<le> 2 powi 1023"
proof -
  have "(of_int \<bar>i\<bar> :: rat) < of_int (2 ^ 1023)" using assms by (simp only: of_int_less_iff)
  then have "\<bar>of_int i :: rat\<bar> < 2 powi 1023" by simp
  from to_float_finite [OF this] show ?thesis by (auto simp: int_float_def)
qed

lemma to_float_overflow:
  assumes "2 ^ 1024 \<le> x"
  shows "to_float x = Inf"
proof -
  have "(2 :: rat) ^ 1024 = 2 powi 1024" by simp
  with assms have x: "2 powi 1024 \<le> x" by (simp only:)
  then have pos: "0 < x" by (rule less_le_trans [rotated]) simp
  then have e: "2 powi exponent x \<le> x" "x < 2 powi (exponent x + 1)" using exponent_bounds [of x] by simp_all
  have "1024 \<le> exponent x"
  proof (rule ccontr)
    assume "\<not> 1024 \<le> exponent x"
    then have "(2 :: rat) powi (exponent x + 1) \<le> 2 powi 1024" by (intro powi_mono) simp
    with e(2) x show False by linarith
  qed
  then have u: "2 powi exponent x = of_int (2 ^ 52) * ulp x" by (simp add: ulp_def power_int_diff max_def)
  have m: "(2 :: rat) powi 1024 \<le> 2 powi exponent x" using \<open>1024 \<le> exponent x\<close> by (rule powi_mono)
  have "of_int (2 ^ 52) \<le> x / ulp x" using e(1) ulp_pos(1) [of x] unfolding u by (simp add: le_divide_eq)
  from round_even_ge [OF this] have "(of_int (2 ^ 52) :: rat) \<le> of_int (round_even (x / ulp x))" by (simp only: of_int_le_iff)
  then have "2 powi exponent x \<le> of_int (round_even (x / ulp x)) * ulp x"
    unfolding u by (intro mult_right_mono) (simp_all add: less_imp_le)
  with m have "2 powi 1024 \<le> \<bar>of_int (round_even (x / ulp x)) * ulp x\<bar>" by linarith
  then have "\<not> \<bar>of_int (round_even (x / ulp x)) * ulp x\<bar> < 2 ^ 1024" unfolding \<open>2 ^ 1024 = 2 powi 1024\<close> by (simp only: not_less)
  with pos show ?thesis by (simp only: to_float_def Let_def if_False less_irrefl split: if_split) blast
qed

lemma int_float_overflow:
  assumes "2 ^ 1024 \<le> i"
  shows "int_float i = Inl OverflowError"
proof -
  have "(of_int (2 ^ 1024) :: rat) \<le> of_int i" using assms by (simp only: of_int_le_iff)
  then have "2 ^ 1024 \<le> (of_int i :: rat)" by (simp only: of_int_power of_int_numeral)
  from to_float_overflow [OF this] show ?thesis by (simp add: int_float_def)
qed

subsection \<open>Sums and quotients of floats\<close>

definition to_option :: "pyfloat \<Rightarrow> rat option" where
  "to_option x = (case x of Fin r \<Rightarrow> Some r | Inf \<Rightarrow> None)"

text \<open>
  \<open>sum\<close> of a list of floats, as Python 3.12 and later have it: \<open>c\<close> collects the rounding errors
  (Neumaier), and is added at the end if it is finite.  A sum that becomes infinite stays so.
\<close>

fun float_sum :: "rat \<Rightarrow> rat option \<Rightarrow> pyfloat list \<Rightarrow> pyfloat" where
  "float_sum s c [] = (case c of None \<Rightarrow> Fin s | Some r \<Rightarrow> if r = 0 then Fin s else to_float (s + r))"
| "float_sum s c (Inf # xs) = Inf"
| "float_sum s c (Fin x # xs) =
     (case to_float (s + x) of
        Inf \<Rightarrow> Inf
      | Fin t \<Rightarrow>
         float_sum t
           (Option.bind c (\<lambda>c.
            Option.bind (to_option (if \<bar>s\<bar> \<ge> \<bar>x\<bar> then to_float (s - t) else to_float (x - t))) (\<lambda>d.
            Option.bind (to_option (to_float (d + (if \<bar>s\<bar> \<ge> \<bar>x\<bar> then x else s)))) (\<lambda>e.
              to_option (to_float (c + e))))))
           xs)"

definition py_sum :: "pyfloat list \<Rightarrow> pyfloat" where
  "py_sum xs = float_sum 0 (Some 0) xs"

text \<open>\<open>x / r\<close> for a float \<open>r\<close> that is finite and not zero, and \<open>i / x\<close> for an integer.\<close>

definition float_div :: "pyfloat \<Rightarrow> rat \<Rightarrow> pyfloat" where
  "float_div x r = (case x of Inf \<Rightarrow> Inf | Fin y \<Rightarrow> to_float (y / r))"

definition int_over_float :: "int \<Rightarrow> pyfloat \<Rightarrow> pyfloat res" where
  "int_over_float i x =
     bindR (int_float i) (\<lambda>y. case x of Inf \<Rightarrow> Inr (Fin 0) | Fin r \<Rightarrow> if r = 0 then Inl ZeroDivisionError else Inr (to_float (y / r)))"

subsection \<open>Formats\<close>

definition text_nat :: "nat \<Rightarrow> ustr" where
  "text_nat n = map unat (dec_nat n)"

definition pad_left :: "nat \<Rightarrow> nat \<Rightarrow> ustr \<Rightarrow> ustr" where
  "pad_left w c s = replicate (w - length s) c @ s"

text \<open>\<open>f"{x:.kf}"\<close>, for \<open>k > 0\<close>.\<close>

definition format_fixed :: "nat \<Rightarrow> rat \<Rightarrow> ustr" where
  "format_fixed k x =
     (let n = nat (round_even (\<bar>x\<bar> * 10 ^ k)) in
      (if x < 0 then ucs ''-'' else []) @ text_nat (n div 10 ^ k) @ ucs ''.'' @ pad_left k 48 (text_nat (n mod 10 ^ k)))"

definition format_float :: "nat \<Rightarrow> pyfloat \<Rightarrow> ustr" where
  "format_float k x = (case x of Inf \<Rightarrow> ucs ''inf'' | Fin r \<Rightarrow> format_fixed k r)"

text \<open>\<open>f"{n:,}"\<close>, for \<open>n\<close> not negative.\<close>

fun group_digits :: "nat \<Rightarrow> ustr" where
  "group_digits n =
     (if n < 1000 then text_nat n else group_digits (n div 1000) @ ucs '','' @ pad_left 3 48 (text_nat (n mod 1000)))"

declare group_digits.simps [simp del]

text \<open>What a row of digits says.\<close>

definition text_value :: "ustr \<Rightarrow> int" where
  "text_value s = foldl (\<lambda>n c. 10 * n + (int c - 48)) 0 s"

lemma text_value_simps [simp]: "text_value [] = 0" "text_value (s @ [c]) = 10 * text_value s + (int c - 48)"
  by (simp_all add: text_value_def)

lemma text_value_append: "text_value (s @ t) = text_value s * 10 ^ length t + text_value t"
proof (induction t rule: rev_induct)
  case (snoc c t)
  then show ?case unfolding append_assoc [symmetric] text_value_simps by simp
qed simp

lemma text_value_nat [simp]: "text_value (text_nat n) = int n"
proof -
  have "text_value (map unat ds) = digits_value ds" for ds
    by (induction ds rule: rev_induct) simp_all
  then show ?thesis by (simp add: text_nat_def)
qed

lemma text_value_pad [simp]: "text_value (pad_left w 48 s) = text_value s"
proof -
  have "text_value (replicate k 48) = 0" for k
    by (induction k) (use text_value_append [of "[48]"] in \<open>simp_all add: text_value_def\<close>)
  then show ?thesis by (simp add: pad_left_def text_value_append)
qed

lemma text_nat_digits: "c \<in> set (text_nat n) \<Longrightarrow> 48 \<le> c \<and> c \<le> 57"
  using dec_nat_digits [of n] by (auto simp: text_nat_def is_digit_def word_le_nat_alt)

lemma length_text_nat: "n < 10 ^ k \<Longrightarrow> 0 < k \<Longrightarrow> length (text_nat n) \<le> k"
  by (simp add: text_nat_def length_dec_nat)

lemma length_pad_left: "length (pad_left w c s) = max w (length s)"
  by (simp add: pad_left_def)

text \<open>
  A number printed with \<open>k\<close> places: without the point it is the number of units of the last place,
  so what is shown is at most half a unit off.
\<close>

lemma format_fixed_value:
  assumes "0 \<le> x" "0 < k"
  shows "text_value (filter (\<lambda>c. c \<noteq> 46) (format_fixed k x)) = round_even (x * 10 ^ k)"
    and "\<bar>of_int (text_value (filter (\<lambda>c. c \<noteq> 46) (format_fixed k x))) / 10 ^ k - x\<bar> \<le> 1 / (2 * 10 ^ k)"
proof -
  let ?r = "round_even (x * 10 ^ k)" and ?n = "nat (round_even (x * 10 ^ k))"
  have digits: "filter (\<lambda>c. c \<noteq> 46) (text_nat m) = text_nat m" for m
    using text_nat_digits [of 46 m] by (auto simp: filter_id_conv)
  have "length (text_nat (?n mod 10 ^ k)) \<le> k" using assms(2) by (intro length_text_nat) simp_all
  then have l: "length (pad_left k 48 (text_nat (?n mod 10 ^ k))) = k" by (simp add: length_pad_left)
  have "0 \<le> ?r" using assms(1) round_even_ge [of 0 "x * 10 ^ k"] by simp
  then have "int (?n div 10 ^ k) * 10 ^ k + int (?n mod 10 ^ k) = ?r"
    using arg_cong [OF div_mult_mod_eq [of ?n "10 ^ k"], of int] by simp
  moreover have "filter (\<lambda>c. c \<noteq> 46) (format_fixed k x) = text_nat (?n div 10 ^ k) @ pad_left k 48 (text_nat (?n mod 10 ^ k))"
    using assms(1) by (simp add: format_fixed_def Let_def digits) (simp add: pad_left_def digits)
  ultimately show v: "text_value (filter (\<lambda>c. c \<noteq> 46) (format_fixed k x)) = ?r"
    by (simp add: text_value_append l)
  have "\<bar>of_int ?r - x * 10 ^ k\<bar> \<le> 1 / 2" by (rule round_even_error)
  then have "\<bar>of_int ?r - x * 10 ^ k\<bar> / 10 ^ k \<le> 1 / 2 / 10 ^ k" by (intro divide_right_mono) simp_all
  moreover have "of_int ?r / 10 ^ k - x = (of_int ?r - x * 10 ^ k) / 10 ^ k" by (simp add: diff_divide_distrib)
  ultimately show "\<bar>of_int (text_value (filter (\<lambda>c. c \<noteq> 46) (format_fixed k x))) / 10 ^ k - x\<bar> \<le> 1 / (2 * 10 ^ k)"
    unfolding v by (simp add: abs_divide)
qed

end
