(* ===== verification/Display.thy ===== *)
theory Display
  imports PyFloat
begin

section \<open>What the client prints (client/main.py)\<close>

text \<open>
  Sizes, times, the progress bar and the dashboard line of \<open>main.py\<close>, with the arithmetic of
  \<open>PyFloat\<close>.  The terminal's width, the clock and whether the terminal can show block characters
  are arguments.

  The lemmas: what \<open>_format_bytes\<close> shows is right to one decimal; \<open>_format_time\<close> can be read back;
  the dashboard line has exactly the width it was given, and rendering it never raises as long as
  the amounts are below 2^1023.
\<close>

subsection \<open>Printing\<close>

text \<open>
  A list of \<open>print\<close> calls, each with the line it computes: what was printed, and the exception of
  the first line that could not be computed.
\<close>

type_synonym printed = "ustr list \<times> unit res"

fun print_lines :: "ustr res list \<Rightarrow> printed" where
  "print_lines [] = ([], Inr ())"
| "print_lines (Inl e # ls) = ([], Inl e)"
| "print_lines (Inr l # ls) = (case print_lines ls of (out, r) \<Rightarrow> (l # out, r))"

definition and_then :: "printed \<Rightarrow> printed \<Rightarrow> printed" where
  "and_then p q = (case snd p of Inl e \<Rightarrow> p | Inr _ \<Rightarrow> (fst p @ fst q, snd q))"

text \<open>An f-string: its parts from left to right.\<close>

definition line :: "ustr res list \<Rightarrow> ustr res" where
  "line parts = bindR (mapR (\<lambda>p. p) parts) (\<lambda>ps. Inr (concat ps))"

definition lit :: "string \<Rightarrow> ustr res" where
  "lit s = Inr (ucs s)"

definition text_int :: "int \<Rightarrow> ustr res" where
  "text_int i = bindR (py_dec i) (\<lambda>ds. Inr (map unat ds))"

lemma print_lines_all: "\<forall>l \<in> set ls. \<exists>s. l = Inr s \<Longrightarrow> \<exists>out. print_lines ls = (out, Inr ()) \<and> ls = map Inr out"
proof (induction ls)
  case (Cons l ls)
  then obtain s out where "l = Inr s" "print_lines ls = (out, Inr ())" "ls = map Inr out" by auto
  then show ?case by (intro exI [of _ "s # out"]) simp
qed simp

lemma print_lines_Inl: "snd (print_lines ls) = Inl e \<Longrightarrow> Inl e \<in> set ls"
  by (induction ls rule: print_lines.induct) (auto split: prod.splits)

lemma line_Inr: "\<forall>p \<in> set ps. \<exists>s. p = Inr s \<Longrightarrow> \<exists>s. line ps = Inr s"
proof -
  assume "\<forall>p \<in> set ps. \<exists>s. p = Inr s"
  then have "\<exists>ss. mapR (\<lambda>p. p) ps = Inr ss" by (intro mapR_exists) simp
  then show ?thesis by (auto simp: line_def)
qed

lemma line_Inl: "line ps = Inl e \<Longrightarrow> Inl e \<in> set ps"
  using mapR_Inl [of "\<lambda>p. p" ps e] by (auto simp: line_def bindR_Inl_iff)

text \<open>What has at most 4300 digits can be printed.\<close>

definition printable :: "int \<Rightarrow> bool" where
  "printable i \<longleftrightarrow> \<bar>i\<bar> < 10 ^ max_str_digits"

lemma text_int_printable: "printable i \<Longrightarrow> \<exists>s. text_int i = Inr s"
  using py_dec_total [of i] by (auto simp: text_int_def printable_def)

lemma printable_le: "printable j \<Longrightarrow> \<bar>i\<bar> \<le> \<bar>j\<bar> \<Longrightarrow> printable i"
  by (simp add: printable_def)

definition hex_text :: "bytes \<Rightarrow> ustr" where
  "hex_text bs = concat (map (\<lambda>b. [hex_digit (unat b div 16), hex_digit (unat b mod 16)]) bs)"

subsection \<open>Sizes, times and the bar\<close>

datatype pynum = PInt int | PFloat pyfloat

definition float_less :: "pyfloat \<Rightarrow> pyfloat \<Rightarrow> bool" where
  "float_less x y = (case (x, y) of (Fin a, Fin b) \<Rightarrow> a < b | (Fin a, Inf) \<Rightarrow> True | (Inf, _) \<Rightarrow> False)"

text \<open>\<open>_format_bytes\<close>: the units are tried in turn; the first division turns an integer into a float.\<close>

fun format_units :: "pyfloat \<Rightarrow> string list \<Rightarrow> ustr" where
  "format_units x [] = format_float 1 x @ ucs '' PB''"
| "format_units x (u # us) =
     (if float_less (case x of Fin r \<Rightarrow> Fin \<bar>r\<bar> | Inf \<Rightarrow> Inf) (Fin 1024)
      then pad_left 3 32 (format_float 1 x) @ ucs '' '' @ ucs u
      else format_units (float_div x 1024) us)"

definition units :: "string list" where
  "units = [''B'', ''KB'', ''MB'', ''GB'', ''TB'']"

definition format_bytes :: "pynum \<Rightarrow> ustr res" where
  "format_bytes x =
     (case x of
        PFloat y \<Rightarrow> Inr (format_units y units)
      | PInt i \<Rightarrow>
          if \<bar>i\<bar> < 1024 then Inr (format_units (Fin (of_int i)) units)
          else bindR (int_float i) (\<lambda>y. Inr (format_units (float_div (Fin y) 1024) (tl units))))"

text \<open>\<open>_format_time\<close>; an infinite time is more than a week.\<close>

definition two_digits :: "int \<Rightarrow> ustr" where
  "two_digits n = pad_left 2 48 (text_nat (nat n))"

definition format_time :: "pyfloat \<Rightarrow> ustr" where
  "format_time x =
     (case x of
        Inf \<Rightarrow> ucs ''--:--:--''
      | Fin r \<Rightarrow>
          if r < 0 \<or> 3600 * 24 * 7 < r then ucs ''--:--:--''
          else
            (let seconds = \<lfloor>r\<rfloor>; m = seconds div 60; s = seconds mod 60; h = m div 60; m = m mod 60 in
             if 0 < h then two_digits h @ ucs '':'' @ two_digits m @ ucs '':'' @ two_digits s
             else two_digits m @ ucs '':'' @ two_digits s))"

text \<open>\<open>_make_progress_bar\<close>; \<open>blocks\<close> says whether the terminal's encoding has the block characters.\<close>

definition make_progress_bar :: "bool \<Rightarrow> pyfloat \<Rightarrow> int \<Rightarrow> ustr res" where
  "make_progress_bar blocks fraction width =
     (case (case fraction of Inf \<Rightarrow> Inf | Fin f \<Rightarrow> to_float (of_int width * f)) of
        Inf \<Rightarrow> Inl OverflowError
      | Fin x \<Rightarrow>
         (let filled_len = if 0 \<le> x then \<lfloor>x\<rfloor> else \<lceil>x\<rceil>;
              filled_len = max 0 (min width filled_len);
              fill_char = (if blocks then 9608 else 35);
              empty_char = (if blocks then 9617 else 45)
          in Inr (ucs ''['' @ replicate (nat filled_len) fill_char @ replicate (nat (width - filled_len)) empty_char @ ucs '']'')))"

subsection \<open>The dashboard\<close>

text \<open>The variables of \<open>render_dashboard\<close> that live from one call to the next.\<close>

record dashboard =
  da_last_time :: rat
  da_last_bytes :: int
  da_speeds :: "pyfloat list"

text \<open>The speed since the last measurement, if that is 0.3 seconds ago; the last six are kept.\<close>

definition measure_speed :: "bool \<Rightarrow> rat \<Rightarrow> int \<Rightarrow> dashboard \<Rightarrow> dashboard res" where
  "measure_speed force now downloaded_bytes da =
     (let dt = to_float (now - da_last_time da) in
      if \<not> float_less dt (to_float (3 / 10)) \<or> force then
        bindR (if float_less (Fin 0) dt then int_over_float (downloaded_bytes - da_last_bytes da) dt else Inr (Fin 0))
          (\<lambda>current_speed.
             let speeds = da_speeds da @ [current_speed] in
             Inr \<lparr>da_last_time = now, da_last_bytes = downloaded_bytes,
                  da_speeds = (if 6 < length speeds then tl speeds else speeds)\<rparr>)
      else Inr da)"

definition average_speed :: "dashboard \<Rightarrow> pyfloat" where
  "average_speed da =
     (if da_speeds da = [] then Fin 0 else float_div (py_sum (da_speeds da)) (of_nat (length (da_speeds da))))"

text \<open>The progress as a fraction and in percent, and the estimated time.\<close>

definition progress_fields :: "int \<Rightarrow> int \<Rightarrow> int \<Rightarrow> pyfloat \<Rightarrow> (pyfloat \<times> pyfloat \<times> ustr) res" where
  "progress_fields completed target piece_length avg_speed =
     bindR (if target \<noteq> 0 then int_div completed target else Inr 0) (\<lambda>progress.
       let pct = to_float (progress * 100) in
       if completed \<ge> target then Inr (Fin 1, Fin 100, ucs ''00:00'')
       else
         (let remaining_bytes = (target - completed) * piece_length in
          bindR (if float_less (Fin 0) avg_speed then int_over_float remaining_bytes avg_speed else Inr (Fin (- 1)))
            (\<lambda>eta. Inr (Fin progress, pct, format_time eta))))"

definition max_columns :: "int \<Rightarrow> int" where
  "max_columns columns = max (columns - 1) 40"

definition pad_right :: "nat \<Rightarrow> ustr \<Rightarrow> ustr" where
  "pad_right w s = s @ replicate (w - length s) 32"

text \<open>
  \<open>render_dashboard\<close>: the line that is written after a carriage return, cut off and filled up to the
  width of the terminal.  \<open>n\<close> is the number of connected peers.
\<close>

definition status_line :: "bool \<Rightarrow> int \<Rightarrow> int \<Rightarrow> int \<Rightarrow> int \<Rightarrow> int \<Rightarrow> dashboard \<Rightarrow> ustr res" where
  "status_line blocks columns n completed target piece_length da =
     (let avg_speed = average_speed da in
      bindR (progress_fields completed target piece_length avg_speed) (\<lambda>(progress, pct, eta_str).
      let max_cols = max_columns columns; bar_w = max 6 (min 14 (max_cols - 56)) in
      bindR (make_progress_bar blocks progress bar_w) (\<lambda>bar.
      let display_pieces = (if target \<noteq> 0 then min completed target else completed) in
      bindR (line
        [Inr bar, lit '' '', Inr (pad_left 5 32 (format_float 1 pct)), lit ''% | '',
         format_bytes (PFloat avg_speed), lit ''/s | '',
         text_int display_pieces, lit ''/'', text_int target, lit '' pcs | '',
         text_int n, lit '' peer(s) | ETA:'', Inr eta_str]) (\<lambda>status.
      Inr (pad_right (nat max_cols) (take (nat max_cols) status))))))"

definition render_dashboard ::
  "bool \<Rightarrow> bool \<Rightarrow> int \<Rightarrow> rat \<Rightarrow> int \<Rightarrow> int \<Rightarrow> int \<Rightarrow> int \<Rightarrow> int \<Rightarrow> dashboard \<Rightarrow> (ustr \<times> dashboard) res" where
  "render_dashboard force blocks columns now n downloaded_bytes completed target piece_length da =
     bindR (measure_speed force now downloaded_bytes da) (\<lambda>da.
     bindR (status_line blocks columns n completed target piece_length da) (\<lambda>padded.
       Inr (ucs [CHR 0x0D, CHR 0x1B] @ ucs ''[K'' @ padded, da)))"

subsection \<open>The line fits\<close>

lemma status_line_length:
  assumes "status_line blocks columns n completed target pl da = Inr s"
  shows "int (length s) = max_columns columns"
proof -
  have "40 \<le> max_columns columns" by (simp add: max_columns_def)
  with assms show ?thesis
    by (auto simp: status_line_def Let_def res_simps pad_right_def split: prod.splits)
qed

subsection \<open>Times can be read back\<close>

text \<open>Reading \<open>h:m:s\<close> or \<open>m:s\<close>: each colon is a factor of 60.\<close>

fun clock_step :: "int \<times> int \<Rightarrow> nat \<Rightarrow> int \<times> int" where
  "clock_step (t, f) c = (if c = 58 then (60 * (t + f), 0) else (t, 10 * f + (int c - 48)))"

definition clock_value :: "ustr \<Rightarrow> int" where
  "clock_value s = (case foldl clock_step (0, 0) s of (t, f) \<Rightarrow> t + f)"

lemma clock_field: "58 \<notin> set s \<Longrightarrow> foldl clock_step (t, 0) s = (t, text_value s)"
  by (induction s rule: rev_induct) auto

lemma two_digits_plain: "58 \<notin> set (two_digits n)"
  using text_nat_digits [of 58 "nat n"] by (auto simp: two_digits_def pad_left_def)

lemma two_digits_value: "0 \<le> n \<Longrightarrow> text_value (two_digits n) = n"
  by (simp add: two_digits_def)

lemma clock_value_fields:
  "58 \<notin> set a \<Longrightarrow> 58 \<notin> set b \<Longrightarrow> clock_value (a @ 58 # b) = 60 * text_value a + text_value b"
  "58 \<notin> set a \<Longrightarrow> 58 \<notin> set b \<Longrightarrow> 58 \<notin> set c \<Longrightarrow>
     clock_value (a @ 58 # b @ 58 # c) = 3600 * text_value a + 60 * text_value b + text_value c"
  by (simp_all add: clock_value_def clock_field)

lemma format_time_value:
  assumes "0 \<le> r" "r \<le> 604800"
  shows "clock_value (format_time (Fin r)) = \<lfloor>r\<rfloor>"
proof -
  obtain s where s: "\<lfloor>r\<rfloor> = s" by blast
  have p: "0 \<le> s div 60 div 60" "0 \<le> s div 60 mod 60" "0 \<le> s mod 60"
    using assms(1) s by (auto simp: pos_imp_zdiv_nonneg_iff)
  have d: "3600 * (s div 60 div 60) + 60 * (s div 60 mod 60) + s mod 60 = s" by presburger
  have "format_time (Fin r) =
    (if 0 < s div 60 div 60 then two_digits (s div 60 div 60) @ 58 # two_digits (s div 60 mod 60) @ 58 # two_digits (s mod 60)
     else two_digits (s div 60 mod 60) @ 58 # two_digits (s mod 60))"
    using assms by (simp add: format_time_def s Let_def del: div_mult2_eq)
  then have "clock_value (format_time (Fin r)) =
    (if 0 < s div 60 div 60 then 3600 * (s div 60 div 60) + 60 * (s div 60 mod 60) + s mod 60
     else 60 * (s div 60 mod 60) + s mod 60)"
    using p by (simp only: clock_value_fields two_digits_plain two_digits_value if_distrib [of clock_value] simp_thms not_False_eq_True cong: if_cong)
  then show ?thesis using d p(1) unfolding s by (metis add_0 mult_zero_right not_less order_antisym)
qed

text \<open>The hours are not cut off at two digits.\<close>

lemma format_time_week: "format_time (Fin 604800) = ucs ''168:00:00''"
  by (simp add: format_time_def two_digits_def text_nat_def pad_left_def dec_nat.simps)

subsection \<open>Sizes are right to one decimal\<close>

lemma pad_format_fixed: "0 < k \<Longrightarrow> pad_left 3 32 (format_fixed k x) = format_fixed k x"
proof -
  assume k: "0 < k"
  have "1 \<le> length (text_nat n)" for n by (simp add: text_nat_def Suc_le_eq)
  from this [of "nat (round_even (\<bar>x\<bar> * 10 ^ k)) div 10 ^ k"] k
  have "3 \<le> length (format_fixed k x)" by (simp add: format_fixed_def Let_def length_pad_left)
  then show ?thesis by (simp add: pad_left_def)
qed

lemma to_float_unit: "\<bar>i\<bar> \<le> 2 ^ 53 \<Longrightarrow> k \<le> 6 \<Longrightarrow> to_float (of_int i / 1024 ^ k) = Fin (of_int i / 1024 ^ k)"
proof (rule to_float_exact [where i = i and k = "- int (10 * k)"])
  have "(1024 :: rat) ^ k = 2 ^ (10 * k)" by (simp add: power_mult)
  then show "of_int i / 1024 ^ k = (of_int i :: rat) * 2 powi - int (10 * k)"
    unfolding power_int_minus power_int_of_nat by (simp add: field_simps)
qed simp_all

lemma format_bytes_examples:
  "format_bytes (PInt 1023) = Inr (ucs ''1023.0 B'')" "format_bytes (PInt 1536) = Inr (ucs ''1.5 KB'')"
  using to_float_unit [of 1536 1]
  by (simp_all add: format_bytes_def int_float_small units_def float_less_def float_div_def format_float_def format_fixed_def
      text_nat_def pad_left_def dec_nat.simps)

lemma format_units_scaled:
  assumes "0 \<le> i" "i \<le> 2 ^ 53" "k + length us \<le> 5"
  shows "\<exists>j \<le> length us. (0 < j \<longrightarrow> 1024 ^ (k + j) \<le> i) \<and> (j < length us \<longrightarrow> i < 1024 ^ (k + j + 1)) \<and>
    format_units (Fin (of_int i / 1024 ^ k)) us = format_fixed 1 (of_int i / 1024 ^ (k + j)) @ 32 # ucs ((us @ [''PB'']) ! j)"
  using assms(3)
proof (induction us arbitrary: k)
  case Nil
  then show ?case by (simp add: format_float_def)
next
  case (Cons u us)
  have c: "(of_int i :: rat) / 1024 ^ k < 1024 \<longleftrightarrow> i < 1024 ^ (k + 1)"
  proof -
    have "(of_int i :: rat) / 1024 ^ k < 1024 \<longleftrightarrow> (of_int i :: rat) < of_int (1024 ^ (k + 1))"
      by (simp add: divide_less_eq)
    then show ?thesis by (simp only: of_int_less_iff)
  qed
  show ?case
  proof (cases "i < 1024 ^ (k + 1)")
    case True
    with c assms(1) show ?thesis
      by (intro exI [of _ 0]) (simp add: float_less_def format_float_def pad_format_fixed)
  next
    case False
    have "to_float (of_int i / 1024 ^ Suc k) = Fin (of_int i / 1024 ^ Suc k)"
      using assms(1,2) Cons.prems by (intro to_float_unit) simp_all
    then have "format_units (Fin (of_int i / 1024 ^ k)) (u # us) = format_units (Fin (of_int i / 1024 ^ Suc k)) us"
      using False c assms(1) by (simp add: float_less_def float_div_def mult.commute)
    moreover from Cons.IH [of "Suc k"] Cons.prems obtain j where "j \<le> length us"
        "0 < j \<longrightarrow> 1024 ^ (Suc k + j) \<le> i" "j < length us \<longrightarrow> i < 1024 ^ (Suc k + j + 1)"
        "format_units (Fin (of_int i / 1024 ^ Suc k)) us = format_fixed 1 (of_int i / 1024 ^ (Suc k + j)) @ 32 # ucs ((us @ [''PB'']) ! j)"
      by auto
    ultimately show ?thesis using False
      by (intro exI [of _ "Suc j"]) (cases j; simp)
  qed
qed

lemma format_bytes_eq:
  assumes "0 \<le> i" "i \<le> 2 ^ 53"
  shows "\<exists>k \<le> 5. (0 < k \<longrightarrow> 1024 ^ k \<le> i) \<and> (k < 5 \<longrightarrow> i < 1024 ^ (k + 1)) \<and>
    format_bytes (PInt i) = Inr (format_fixed 1 (of_int i / 1024 ^ k) @ 32 # ucs ((units @ [''PB'']) ! k))"
proof -
  note [simp del] = format_units.simps
  have "format_bytes (PInt i) = Inr (format_units (Fin (of_int i / 1024 ^ 0)) units)"
  proof (cases "i < 1024")
    case False
    have "float_div (Fin (of_int i)) 1024 = Fin (of_int i / 1024)"
      using to_float_unit [of i 1] assms by (simp add: float_div_def)
    with False show ?thesis
      using assms
      by (simp add: format_bytes_def int_float_small units_def float_less_def format_units.simps(2) [of "Fin (of_int i)" "''B''"])
  qed (use assms in \<open>simp add: format_bytes_def\<close>)
  moreover have "length units = 5" by (simp add: units_def)
  ultimately show ?thesis using format_units_scaled [OF assms, of 0 units] by simp
qed

subsection \<open>Rendering does not raise\<close>

text \<open>An amount that is certainly not too large for a double.\<close>

definition displayable :: "int \<Rightarrow> bool" where
  "displayable i \<longleftrightarrow> \<bar>i\<bar> < 2 ^ 1023"

lemma displayable_between: "displayable b \<Longrightarrow> \<bar>a\<bar> \<le> \<bar>b\<bar> \<Longrightarrow> displayable a"
  unfolding displayable_def by linarith

lemma displayable_small: "\<bar>i\<bar> < 2 ^ 1000 \<Longrightarrow> displayable i"
  unfolding displayable_def by (rule less_trans [where y = "2 ^ 1000"]) simp_all

lemma int_float_displayable: "displayable i \<Longrightarrow> \<exists>y. int_float i = Inr y"
  using int_float_total [of i] by (auto simp only: displayable_def)

lemma displayable_printable:
  assumes "displayable i"
  shows "printable i"
proof -
  have "(2 :: int) ^ 1023 \<le> 10 ^ 1023" by (rule power_mono) simp_all
  moreover have "(10 :: int) ^ 1023 < 10 ^ max_str_digits" by (rule power_strict_increasing) (simp_all add: max_str_digits_def)
  ultimately show ?thesis using assms unfolding displayable_def printable_def by linarith
qed

lemma text_int_displayable: "displayable i \<Longrightarrow> \<exists>s. text_int i = Inr s"
  by (rule text_int_printable [OF displayable_printable])

lemma format_bytes_total: "displayable i \<Longrightarrow> \<exists>s. format_bytes (PInt i) = Inr s"
  using int_float_displayable [of i] by (auto simp: format_bytes_def)

lemma format_bytes_error: "format_bytes (PInt i) = Inl e \<Longrightarrow> e = OverflowError \<and> \<not> displayable i"
  using format_bytes_total [of i]
  by (auto simp: format_bytes_def int_float_def bindR_Inl_iff split: pyfloat.splits if_splits)

lemma int_over_float_total: "displayable i \<Longrightarrow> float_less (Fin 0) x \<Longrightarrow> \<exists>y. int_over_float i x = Inr y"
  using int_float_displayable [of i] by (auto simp: int_over_float_def float_less_def split: pyfloat.splits)

lemma measure_speed_total:
  "displayable (downloaded - da_last_bytes da) \<Longrightarrow> \<exists>da'. measure_speed force now downloaded da = Inr da'"
  using int_over_float_total [of "downloaded - da_last_bytes da" "to_float (now - da_last_time da)"]
  by (auto simp: measure_speed_def Let_def)

lemma progress_fields_total:
  assumes "0 \<le> completed" "displayable completed" "displayable ((target - completed) * pl)"
  shows "\<exists>p q eta. progress_fields completed target pl avg = Inr (Fin p, q, eta) \<and> \<bar>p\<bar> \<le> 2"
proof -
  have "\<exists>p. (if target \<noteq> 0 then int_div completed target else Inr 0) = Inr p \<and> (completed < target \<longrightarrow> \<bar>p\<bar> \<le> 2)"
  proof (cases "target = 0")
    case False
    let ?x = "of_int completed / of_int target :: rat"
    have "\<bar>?x\<bar> \<le> of_int completed"
    proof -
      have "(of_int 1 :: rat) \<le> of_int \<bar>target\<bar>" using False by (simp only: of_int_le_iff)
      then show ?thesis using assms(1) by (simp add: abs_divide divide_le_eq mult_le_cancel_left1)
    qed
    also have "(of_int completed :: rat) < of_int (2 ^ 1023)"
      using assms(1,2) unfolding of_int_less_iff displayable_def by simp
    also have "\<dots> = 2 powi 1023" by simp
    finally have "\<bar>?x\<bar> < 2 powi 1023" .
    from to_float_finite [OF this] obtain y where y: "to_float ?x = Fin y" by auto
    have "\<bar>y\<bar> \<le> 2" if "completed < target"
    proof -
      have "\<bar>?x\<bar> < 2 powi 1" using that assms(1) by (simp add: abs_divide divide_less_eq)
      from to_float_finite [OF this] y show ?thesis by simp
    qed
    with y False show ?thesis by (simp add: int_div_def)
  qed (use assms(1) in simp)
  then obtain p where p: "(if target \<noteq> 0 then int_div completed target else Inr 0) = Inr p" "completed < target \<longrightarrow> \<bar>p\<bar> \<le> 2"
    by blast
  show ?thesis
  proof (cases "completed < target")
    case True
    have "\<exists>eta. (if float_less (Fin 0) avg then int_over_float ((target - completed) * pl) avg else Inr (Fin (- 1))) = Inr eta"
      using int_over_float_total [OF assms(3)] by simp
    then obtain eta where
      "(if float_less (Fin 0) avg then int_over_float ((target - completed) * pl) avg else Inr (Fin (- 1))) = Inr eta" ..
    with True p show ?thesis by (simp add: progress_fields_def Let_def)
  qed (use p in \<open>simp add: progress_fields_def Let_def\<close>)
qed

lemma make_progress_bar_total:
  assumes "\<bar>p\<bar> \<le> 2" "6 \<le> w" "w \<le> 14"
  shows "\<exists>s. make_progress_bar blocks (Fin p) w = Inr s"
proof -
  have "\<bar>of_int w * p\<bar> = of_int w * \<bar>p\<bar>" using assms(2) by (simp add: abs_mult)
  also have "\<dots> \<le> 14 * 2" using assms by (intro mult_mono) simp_all
  also have "\<dots> < 2 powi 5" by simp
  finally have "\<bar>of_int w * p\<bar> < 2 powi 5" .
  from to_float_finite [OF this] show ?thesis by (auto simp: make_progress_bar_def Let_def)
qed

lemma status_line_total:
  assumes "0 \<le> completed" "displayable completed" "displayable ((target - completed) * pl)" "displayable target" "displayable n"
  shows "\<exists>s. status_line blocks columns n completed target pl da = Inr s"
proof -
  from progress_fields_total [OF assms(1-3)] obtain p q eta where
    f: "progress_fields completed target pl (average_speed da) = Inr (Fin p, q, eta)" "\<bar>p\<bar> \<le> 2" by blast
  let ?w = "max 6 (min 14 (max_columns columns - 56))"
  let ?m = "if target \<noteq> 0 then min completed target else completed"
  obtain bar where b: "make_progress_bar blocks (Fin p) ?w = Inr bar"
    using make_progress_bar_total [OF f(2), of ?w blocks] by auto
  have "displayable ?m" using assms(2,4) by (simp add: min_def)
  then have "\<exists>s. text_int ?m = Inr s" "\<exists>s. text_int target = Inr s" "\<exists>s. text_int n = Inr s"
    using assms(4,5) by (simp_all add: text_int_displayable)
  moreover have "\<exists>s. format_bytes (PFloat (average_speed da)) = Inr s" by (simp add: format_bytes_def)
  ultimately have "\<exists>s. line [Inr bar, lit '' '', Inr (pad_left 5 32 (format_float 1 q)), lit ''% | '',
         format_bytes (PFloat (average_speed da)), lit ''/s | '', text_int ?m, lit ''/'', text_int target, lit '' pcs | '',
         text_int n, lit '' peer(s) | ETA:'', Inr eta] = Inr s"
    by (intro line_Inr) (auto simp: lit_def)
  then show ?thesis unfolding status_line_def Let_def f(1) bindR_simps prod.case b by auto
qed

lemma render_dashboard_total:
  assumes "0 \<le> completed" "displayable completed" "displayable ((target - completed) * pl)" "displayable target" "displayable n"
    and "displayable (downloaded - da_last_bytes da)"
  shows "\<exists>s da' pre. render_dashboard force blocks columns now n downloaded completed target pl da = Inr (pre @ s, da') \<and>
    pre = [13, 27, 91, 75] \<and> int (length s) = max_columns columns"
proof -
  from measure_speed_total [OF assms(6)] obtain da' where m: "measure_speed force now downloaded da = Inr da'" by blast
  from status_line_total [OF assms(1-5)] obtain s where s: "status_line blocks columns n completed target pl da' = Inr s" by blast
  from m s status_line_length [OF s] show ?thesis by (auto simp: render_dashboard_def)
qed

end
