(* ===== verification/PeerConn.thy ===== *)
theory PeerConn
  imports PeerWire
begin

section \<open>A connection to one peer (client/modules/peerProtocol.py, \<open>PeerConnection\<close>)\<close>

text \<open>
  \<open>PeerConnection\<close> with its stream reader and writer, the four choke and interest flags, and its
  operations: \<open>connect\<close> with the handshake, \<open>send_message\<close>, \<open>receive_message\<close>, \<open>close\<close>.  The
  asyncio streams are modelled as the source uses them: a reader is a buffer with an
  end-of-stream flag and an exception flag, and what the network does while an operation waits
  is a list of arrivals, one of which is that the timer around the read runs out.  The
  operations change the connection before they raise, so each returns its result together with
  the connection and the arrivals that came after it was through.

  The theorems: however the network cuts the bytes into chunks, \<open>receive_message\<close> delivers the
  messages that were framed; two connected ends agree on the flags; which exceptions leave
  \<open>receive_message\<close>; what a successful \<open>connect\<close> has checked.
\<close>

subsection \<open>Streams\<close>

record reader =
  rd_buffer :: bytes
  rd_eof :: bool
  rd_broken :: bool

record outlet =
  wr_sent :: bytes
  wr_closing :: bool

datatype arrival = Arrive bytes | Eof | Reset | TimerFires

fun feed :: "arrival \<Rightarrow> reader \<Rightarrow> reader" where
  "feed (Arrive d) rd = rd\<lparr>rd_buffer := rd_buffer rd @ d\<rparr>"
| "feed Eof rd = rd\<lparr>rd_eof := True\<rparr>"
| "feed Reset rd = rd\<lparr>rd_broken := True\<rparr>"
| "feed TimerFires rd = rd"

text \<open>
  What \<open>readexactly(n)\<close> can answer at once: an exception that was set on the stream comes
  first, then \<open>n\<close> bytes if they are there, then the end of the stream, which empties the
  buffer.  None: it has to wait.
\<close>

definition read_now :: "nat \<Rightarrow> reader \<Rightarrow> (bytes res \<times> reader) option" where
  "read_now n rd =
     (if rd_broken rd then Some (Inl ConnectionResetError, rd)
      else if n \<le> length (rd_buffer rd) then
        Some (Inr (take n (rd_buffer rd)), rd\<lparr>rd_buffer := drop n (rd_buffer rd)\<rparr>)
      else if rd_eof rd then Some (Inl IncompleteReadError, rd\<lparr>rd_buffer := []\<rparr>)
      else None)"

text \<open>
  \<open>wait_for(readexactly(n), timeout)\<close>: the read goes on with each arrival until it has an answer
  or the timer fires; where nothing arrives any more, the timer fires in the end.
\<close>

fun read_exactly :: "nat \<Rightarrow> reader \<Rightarrow> arrival list \<Rightarrow> bytes res \<times> reader \<times> arrival list" where
  "read_exactly n rd [] =
     (case read_now n rd of Some (r, rd') \<Rightarrow> (r, rd', []) | None \<Rightarrow> (Inl TimeoutError, rd, []))"
| "read_exactly n rd (ev # evs) =
     (case read_now n rd of
        Some (r, rd') \<Rightarrow> (r, rd', ev # evs)
      | None \<Rightarrow> if ev = TimerFires then (Inl TimeoutError, rd, evs) else read_exactly n (feed ev rd) evs)"

subsection \<open>The connection\<close>

record connection =
  c_reader :: "reader option"
  c_writer :: "outlet option"
  c_peer_id :: "bytes option"
  c_ip :: ustr
  c_port :: int
  am_choking :: bool
  am_interested :: bool
  peer_choking :: bool
  peer_interested :: bool

definition new_connection :: connection where
  "new_connection = \<lparr>c_reader = None, c_writer = None, c_peer_id = None, c_ip = [], c_port = 0,
     am_choking = True, am_interested = False, peer_choking = True, peer_interested = False\<rparr>"

definition is_connected :: "connection \<Rightarrow> bool" where
  "is_connected c = (case c_writer c of None \<Rightarrow> False | Some w \<Rightarrow> \<not> wr_closing w)"

text \<open>The exceptions that are an OSError, the builtin TimeoutError among them.\<close>

definition is_os_error :: "exc \<Rightarrow> bool" where
  "is_os_error e \<longleftrightarrow> e \<in> {OSError, TimeoutError, ConnectionResetError}"

definition write_bytes :: "bytes \<Rightarrow> connection \<Rightarrow> connection" where
  "write_bytes d c = c\<lparr>c_writer := map_option (\<lambda>w. w\<lparr>wr_sent := wr_sent w @ d\<rparr>) (c_writer c)\<rparr>"

text \<open>\<open>close\<close> keeps no reader and no writer, whatever closing the transport raised.\<close>

definition close_connection :: "connection \<Rightarrow> connection" where
  "close_connection c = c\<lparr>c_reader := None, c_writer := None\<rparr>"

subsection \<open>Handshake\<close>

definition handshake_errors :: "bytes res \<Rightarrow> bytes res" where
  "handshake_errors r =
     (case r of
        Inr d \<Rightarrow> Inr d
      | Inl e \<Rightarrow>
          if e = TimeoutError then Inl (HandshakeError ''Handshake timeout'')
          else if e = IncompleteReadError then Inl (HandshakeError ''Peer closed connection during handshake'')
          else if is_os_error e then Inl (HandshakeError ''Connection error during handshake'')
          else Inl e)"

text \<open>
  \<open>_do_handshake\<close>: \<open>drain\<close> is how writing our handshake ends (None: it succeeds).
\<close>

definition do_handshake ::
  "exc option \<Rightarrow> arrival list \<Rightarrow> bytes \<Rightarrow> bytes \<Rightarrow> connection \<Rightarrow> unit res \<times> connection \<times> arrival list" where
  "do_handshake drain evs info_hash peer_id c =
     (case build_handshake info_hash peer_id of
        Inl e \<Rightarrow> (Inl e, c, evs)
      | Inr hs \<Rightarrow>
         (let c = write_bytes hs c in
          case drain of
            Some e \<Rightarrow> (Inl e, c, evs)
          | None \<Rightarrow>
             (case c_reader c of
                None \<Rightarrow> (Inl AttributeError, c, evs)
              | Some rd \<Rightarrow>
                 (let (r, rd, evs) = read_exactly HANDSHAKE_LEN rd evs; c = c\<lparr>c_reader := Some rd\<rparr>
                  in case bindR (handshake_errors r) parse_handshake of
                       Inl e \<Rightarrow> (Inl e, c, evs)
                     | Inr (remote_info_hash, remote_peer_id) \<Rightarrow>
                         if remote_info_hash \<noteq> info_hash then (Inl (HandshakeError ''info_hash mismatch''), c, evs)
                         else (Inr (), c\<lparr>c_peer_id := Some remote_peer_id\<rparr>, evs)))))"

text \<open>\<open>connect\<close>: \<open>dial\<close> is how opening the TCP connection ends (None: it succeeds).\<close>

definition connect ::
  "exc option \<Rightarrow> exc option \<Rightarrow> arrival list \<Rightarrow> ustr \<Rightarrow> int \<Rightarrow> bytes \<Rightarrow> bytes \<Rightarrow> connection \<Rightarrow>
     unit res \<times> connection \<times> arrival list" where
  "connect dial drain evs ip port info_hash peer_id c =
     (let c = c\<lparr>c_ip := ip, c_port := port\<rparr> in
      case dial of
        Some e \<Rightarrow> (Inl (if is_os_error e then PeerError ''Cannot connect'' else e), c, evs)
      | None \<Rightarrow>
          do_handshake drain evs info_hash peer_id
            (c\<lparr>c_reader := Some \<lparr>rd_buffer = [], rd_eof = False, rd_broken = False\<rparr>,
               c_writer := Some \<lparr>wr_sent = [], wr_closing = False\<rparr>\<rparr>))"

subsection \<open>Sending\<close>

fun sent_flags :: "message \<Rightarrow> connection \<Rightarrow> connection" where
  "sent_flags ChokeMessage c = c\<lparr>am_choking := True\<rparr>"
| "sent_flags UnchokeMessage c = c\<lparr>am_choking := False\<rparr>"
| "sent_flags InterestedMessage c = c\<lparr>am_interested := True\<rparr>"
| "sent_flags NotInterestedMessage c = c\<lparr>am_interested := False\<rparr>"
| "sent_flags _ c = c"

definition send_message :: "exc option \<Rightarrow> message \<Rightarrow> connection \<Rightarrow> unit res \<times> connection" where
  "send_message drain msg c =
     (if \<not> is_connected c then (Inl (PeerError ''Cannot send: not connected''), c)
      else case encode_message msg of
        Inl e \<Rightarrow> (Inl e, c)
      | Inr data \<Rightarrow>
         (let c = write_bytes data c in
          case drain of
            Some e \<Rightarrow> (Inl (if is_os_error e then PeerError ''Send failed'' else e), c)
          | None \<Rightarrow> (Inr (), sent_flags msg c)))"

subsection \<open>Receiving\<close>

fun received_flags :: "message \<Rightarrow> connection \<Rightarrow> connection" where
  "received_flags ChokeMessage c = c\<lparr>peer_choking := True\<rparr>"
| "received_flags UnchokeMessage c = c\<lparr>peer_choking := False\<rparr>"
| "received_flags InterestedMessage c = c\<lparr>peer_interested := True\<rparr>"
| "received_flags NotInterestedMessage c = c\<lparr>peer_interested := False\<rparr>"
| "received_flags _ c = c"

text \<open>
  \<open>receive_message\<close>, alone (\<open>outer\<close> False) or inside a \<open>wait_for\<close> of its caller (\<open>outer\<close> True).
  The callers' timeouts are 5, 15 and 30 seconds, never longer than \<open>READ_TIMEOUT\<close>, so in there
  the caller's timer is the one that fires: it cancels \<open>receive_message\<close>, whose handlers are
  passed over, and the caller sees TimeoutError.  What had been read from the stream is gone.
\<close>

definition receive_message ::
  "bool \<Rightarrow> arrival list \<Rightarrow> connection \<Rightarrow> message res \<times> connection \<times> arrival list" where
  "receive_message outer evs c =
     (if \<not> is_connected c then (Inl (PeerError ''Cannot receive: not connected''), c, evs)
      else case c_reader c of
        None \<Rightarrow> (Inl AttributeError, c, evs)
      | Some rd \<Rightarrow>
         (let (r, rd, evs) = read_exactly 4 rd evs; c = c\<lparr>c_reader := Some rd\<rparr> in
          case r of
            Inl e \<Rightarrow>
              (Inl (if e = TimeoutError \<and> \<not> outer then PeerError ''Read timeout''
                    else if e = IncompleteReadError then PeerError ''Peer closed the connection''
                    else e), c, evs)
          | Inr length_bytes \<Rightarrow>
             (let n = nat (be_value length_bytes) in
              if n = 0 then (Inr KeepAliveMessage, c, evs)
              else
               (let (r, rd, evs) = read_exactly n rd evs; c = c\<lparr>c_reader := Some rd\<rparr> in
                case r of
                  Inl e \<Rightarrow> (Inl (if e = IncompleteReadError then PeerError ''Peer closed mid-message'' else e), c, evs)
                | Inr body \<Rightarrow>
                   (case decode_message (uint (hd body)) (tl body) of
                      Inl e \<Rightarrow> (Inl e, c, evs)
                    | Inr msg \<Rightarrow> (Inr msg, received_flags msg c, evs))))))"

text \<open>\<open>wait_for(conn.receive_message(), timeout)\<close>; what arrives after the answer waits in the buffer.\<close>

definition feed_all :: "arrival list \<Rightarrow> connection \<Rightarrow> connection" where
  "feed_all evs c = c\<lparr>c_reader := map_option (fold feed evs) (c_reader c)\<rparr>"

definition await_message :: "arrival list \<Rightarrow> connection \<Rightarrow> message res \<times> connection" where
  "await_message evs c = (let (r, c, evs) = receive_message True evs c in (r, feed_all evs c))"

subsection \<open>Reading from chunks\<close>

text \<open>A connection whose stream has neither ended nor failed, and what it has buffered.\<close>

definition live :: "connection \<Rightarrow> bool" where
  "live c \<longleftrightarrow> is_connected c \<and> (\<exists>rd. c_reader c = Some rd \<and> \<not> rd_broken rd \<and> \<not> rd_eof rd)"

definition buffered :: "connection \<Rightarrow> bytes" where
  "buffered c = (case c_reader c of None \<Rightarrow> [] | Some rd \<Rightarrow> rd_buffer rd)"

text \<open>
  However the bytes are cut, a read of \<open>n\<close> bytes gives the next \<open>n\<close> of them, waits for no more
  chunks than it needs and leaves the rest, in the buffer and on the way.
\<close>

lemma read_exactly_chunks:
  assumes "\<not> rd_broken rd" "\<not> rd_eof rd" "n \<le> length (rd_buffer rd @ concat cs)"
  shows "\<exists>b ds. read_exactly n rd (map Arrive cs @ evs) =
      (Inr (take n (rd_buffer rd @ concat cs)), rd\<lparr>rd_buffer := b\<rparr>, map Arrive ds @ evs) \<and>
    b @ concat ds = drop n (rd_buffer rd @ concat cs)"
proof -
  have now: "read_exactly n rd evs' = (Inr (take n (rd_buffer rd)), rd\<lparr>rd_buffer := drop n (rd_buffer rd)\<rparr>, evs')"
    if "n \<le> length (rd_buffer rd)" "\<not> rd_broken rd" for rd evs'
    using that by (cases evs') (simp_all add: read_now_def)
  show ?thesis
    using assms
  proof (induction cs arbitrary: rd)
    case Nil
    then show ?case using now [of rd evs] by (intro exI [of _ "drop n (rd_buffer rd)"] exI [of _ "[]"]) simp
  next
    case (Cons d cs)
    show ?case
    proof (cases "n \<le> length (rd_buffer rd)")
      case True
      then show ?thesis
        using now [of rd "map Arrive (d # cs) @ evs"] Cons.prems
        by (intro exI [of _ "drop n (rd_buffer rd)"] exI [of _ "d # cs"]) simp
    next
      case False
      then have "read_exactly n rd (map Arrive (d # cs) @ evs) =
          read_exactly n (rd\<lparr>rd_buffer := rd_buffer rd @ d\<rparr>) (map Arrive cs @ evs)"
        using Cons.prems by (simp add: read_now_def)
      with Cons.IH [of "rd\<lparr>rd_buffer := rd_buffer rd @ d\<rparr>"] Cons.prems show ?thesis by simp
    qed
  qed
qed

lemma take_head: "n \<noteq> 0 \<Longrightarrow> hd (take n d) = hd d \<and> tl (take n d) = slice 1 n d"
  by (cases d) (auto simp: slice_def drop_take gr0_conv_Suc)

lemma live_reader:
  assumes "live c"
  obtains rd where "is_connected c" "c_reader c = Some rd" "\<not> rd_broken rd" "\<not> rd_eof rd" "buffered c = rd_buffer rd"
  using assms by (auto simp: live_def buffered_def)

lemma received_flags_streams [simp]:
  "c_reader (received_flags m c) = c_reader c" "c_writer (received_flags m c) = c_writer c"
  "is_connected (received_flags m c) = is_connected c"
  by (cases m; simp add: is_connected_def)+

lemma is_connected_reader [simp]: "is_connected (c\<lparr>c_reader := r\<rparr>) = is_connected c"
  by (simp add: is_connected_def)

lemma live_received [simp]: "live (received_flags m c) = live c" "buffered (received_flags m c) = buffered c"
  by (simp_all add: live_def buffered_def)

lemma receive_chunks:
  assumes "live c" "read_message (buffered c @ concat cs) = Inr (m, rest)"
  shows "\<exists>rd ds. receive_message outer (map Arrive cs @ evs) c =
      (Inr m, received_flags m (c\<lparr>c_reader := Some rd\<rparr>), map Arrive ds @ evs) \<and>
    \<not> rd_broken rd \<and> \<not> rd_eof rd \<and> rd_buffer rd @ concat ds = rest"
proof -
  from assms(1) obtain rd where c: "is_connected c" "c_reader c = Some rd" "\<not> rd_broken rd" "\<not> rd_eof rd"
      "buffered c = rd_buffer rd" by (rule live_reader)
  let ?d = "rd_buffer rd @ concat cs" let ?n = "nat (be_value (take 4 ?d))"
  from assms(2) c have len: "4 \<le> length ?d" and r: "if ?n = 0 then m = KeepAliveMessage \<and> rest = drop 4 ?d
      else ?n \<le> length (drop 4 ?d) \<and> rest = drop ?n (drop 4 ?d) \<and>
        decode_message (uint (hd (drop 4 ?d))) (slice 1 ?n (drop 4 ?d)) = Inr m"
    by (auto simp: read_message_def Let_def res_simps split: if_splits)
  from read_exactly_chunks [OF c(3,4) len, of evs] obtain b ds where
    1: "read_exactly 4 rd (map Arrive cs @ evs) = (Inr (take 4 ?d), rd\<lparr>rd_buffer := b\<rparr>, map Arrive ds @ evs)"
      "b @ concat ds = drop 4 ?d" by blast
  show ?thesis
  proof (cases "?n = 0")
    case True
    with 1 r c show ?thesis
      by (intro exI [of _ "rd\<lparr>rd_buffer := b\<rparr>"] exI [of _ ds]) (simp add: receive_message_def Let_def)
  next
    case False
    with r 1 have n: "?n \<le> length (rd_buffer (rd\<lparr>rd_buffer := b\<rparr>) @ concat ds)" by simp
    from read_exactly_chunks [of "rd\<lparr>rd_buffer := b\<rparr>", OF _ _ n, of evs] c obtain b' ds' where
      2: "read_exactly ?n (rd\<lparr>rd_buffer := b\<rparr>) (map Arrive ds @ evs) =
            (Inr (take ?n (drop 4 ?d)), rd\<lparr>rd_buffer := b'\<rparr>, map Arrive ds' @ evs)"
        "b' @ concat ds' = drop ?n (drop 4 ?d)" using 1(2) by auto
    note h = take_head [of ?n "drop 4 ?d"]
    from h 1 2 r False c show ?thesis
      by (intro exI [of _ "rd\<lparr>rd_buffer := b'\<rparr>"] exI [of _ ds']) (simp add: receive_message_def Let_def)
  qed
qed

subsection \<open>Two ends of a connection\<close>

text \<open>One end sends messages one after another, the other end receives as many.\<close>

fun send_many :: "message list \<Rightarrow> connection \<Rightarrow> unit res \<times> connection" where
  "send_many [] c = (Inr (), c)"
| "send_many (m # ms) c =
     (case send_message None m c of (Inl e, c) \<Rightarrow> (Inl e, c) | (Inr _, c) \<Rightarrow> send_many ms c)"

fun receive_many :: "nat \<Rightarrow> arrival list \<Rightarrow> connection \<Rightarrow> message list res \<times> connection \<times> arrival list" where
  "receive_many 0 evs c = (Inr [], c, evs)"
| "receive_many (Suc n) evs c =
     (case receive_message False evs c of
        (Inl e, c, evs) \<Rightarrow> (Inl e, c, evs)
      | (Inr m, c, evs) \<Rightarrow>
          (case receive_many n evs c of
             (Inl e, c, evs) \<Rightarrow> (Inl e, c, evs)
           | (Inr ms, c, evs) \<Rightarrow> (Inr (m # ms), c, evs)))"

definition sent_bytes :: "connection \<Rightarrow> bytes" where
  "sent_bytes c = (case c_writer c of None \<Rightarrow> [] | Some w \<Rightarrow> wr_sent w)"

text \<open>The flags of one end as the other end sees them.\<close>

definition mirrored :: "connection \<Rightarrow> connection \<Rightarrow> bool" where
  "mirrored a b \<longleftrightarrow> peer_choking b = am_choking a \<and> peer_interested b = am_interested a"

lemma sent_flags_streams [simp]: "c_reader (sent_flags m c) = c_reader c" "c_writer (sent_flags m c) = c_writer c"
  by (cases m; simp)+

lemma mirrored_reader [simp]:
  "mirrored a (b\<lparr>c_reader := r\<rparr>) = mirrored a b" "mirrored (a\<lparr>c_writer := w\<rparr>) b = mirrored a b"
  by (simp_all add: mirrored_def)

lemma mirrored_message: "mirrored a b \<Longrightarrow> mirrored (sent_flags m a) (received_flags m b)"
  by (cases m) (simp_all add: mirrored_def)

lemma send_message_Inr:
  assumes "send_message None m a = (Inr u, a')"
  shows "sendable m \<and> is_connected a' \<and> sent_bytes a' = sent_bytes a @ message_bytes m \<and>
    (mirrored a b \<longrightarrow> mirrored a' (received_flags m b))"
proof -
  from assms obtain data where c: "is_connected a" and d: "encode_message m = Inr data"
      and a': "a' = sent_flags m (write_bytes data a)"
    by (auto simp: send_message_def Let_def split: if_splits sum.splits)
  from c obtain w where w: "c_writer a = Some w" "\<not> wr_closing w"
    by (auto simp: is_connected_def split: option.splits)
  have "sendable m" using d by (simp add: sendable_def)
  moreover have "mirrored a b \<longrightarrow> mirrored a' (received_flags m b)"
    unfolding a' write_bytes_def by (simp add: mirrored_message)
  moreover have "is_connected a' \<and> sent_bytes a' = sent_bytes a @ message_bytes m"
    using w d by (simp add: a' message_bytes_def is_connected_def sent_bytes_def write_bytes_def)
  ultimately show ?thesis by simp
qed

lemma conversation_step:
  assumes "send_many ms a = (Inr u, a')" "live b" "mirrored a b"
    and "sent_bytes a' = sent_bytes a @ out" "buffered b @ concat cs = out @ rest"
  shows "\<exists>b' ds. receive_many (length ms) (map Arrive cs @ evs) b = (Inr ms, b', map Arrive ds @ evs) \<and>
    live b' \<and> mirrored a' b' \<and> buffered b' @ concat ds = rest"
  using assms
proof (induction ms arbitrary: a b cs out)
  case Nil
  then show ?case by (intro exI [of _ b] exI [of _ cs]) auto
next
  case (Cons m ms)
  from Cons.prems(1) obtain a1 where s: "send_message None m a = (Inr (), a1)" and r: "send_many ms a1 = (Inr u, a')"
    by (auto split: prod.splits sum.splits)
  note a1 = send_message_Inr [OF s, of b]
  have pre: "\<exists>out. sent_bytes a' = sent_bytes a1 @ out"
    using r
  proof (induction ms arbitrary: a1)
    case (Cons m ms)
    from Cons.prems obtain a2 where s: "send_message None m a1 = (Inr (), a2)" and r: "send_many ms a2 = (Inr u, a')"
      by (auto split: prod.splits sum.splits)
    from Cons.IH [OF r] send_message_Inr [OF s] show ?case by auto
  qed simp
  then obtain out' where out': "sent_bytes a' = sent_bytes a1 @ out'" by blast
  with a1 Cons.prems(4) have out: "out = message_bytes m @ out'" by simp
  with Cons.prems(5) a1 have "read_message (buffered b @ concat cs) = Inr (m, out' @ rest)"
    using wc.dec_enc by simp
  from receive_chunks [OF Cons.prems(2) this, of False evs] obtain rd ds where
    b1: "receive_message False (map Arrive cs @ evs) b =
          (Inr m, received_flags m (b\<lparr>c_reader := Some rd\<rparr>), map Arrive ds @ evs)"
      "\<not> rd_broken rd" "\<not> rd_eof rd" "rd_buffer rd @ concat ds = out' @ rest" by blast
  let ?b1 = "received_flags m (b\<lparr>c_reader := Some rd\<rparr>)"
  have "live ?b1" "buffered ?b1 @ concat ds = out' @ rest" "mirrored a1 ?b1"
    using b1 Cons.prems(2,3) send_message_Inr [OF s, of "b\<lparr>c_reader := Some rd\<rparr>"]
    by (simp_all add: live_def buffered_def)
  from Cons.IH [OF r this(1,3) out' this(2)] b1(1) show ?case by auto
qed

subsection \<open>Failures\<close>

lemma read_now_Inl: "read_now n rd = Some (Inl e, rd') \<Longrightarrow> e \<in> {ConnectionResetError, IncompleteReadError}"
  by (auto simp: read_now_def split: if_splits)

lemma read_exactly_Inl:
  "read_exactly n rd evs = (Inl e, rd', evs') \<Longrightarrow> e \<in> {ConnectionResetError, IncompleteReadError, TimeoutError}"
  by (induction n rd evs rule: read_exactly.induct) (auto split: option.splits if_splits dest: read_now_Inl)

lemma read_now_Inr: "read_now n rd = Some (Inr d, rd') \<Longrightarrow> length d = n"
  by (auto simp: read_now_def split: if_splits)

lemma read_exactly_Inr: "read_exactly n rd evs = (Inr d, rd', evs') \<Longrightarrow> length d = n"
  by (induction n rd evs rule: read_exactly.induct) (auto split: option.splits if_splits dest: read_now_Inr)

lemma decode_message_Inl: "decode_message i p = Inl e \<Longrightarrow> \<exists>m. e = PeerError m"
  by (auto simp: decode_message_def split: option.splits message_id.splits if_splits)

lemma parse_handshake_Inl: "parse_handshake d = Inl e \<Longrightarrow> \<exists>m. e = HandshakeError m"
  by (auto simp: parse_handshake_def Let_def split: if_splits)

text \<open>Reader and writer come and go together.\<close>

definition paired :: "connection \<Rightarrow> bool" where
  "paired c \<longleftrightarrow> (c_reader c = None \<longleftrightarrow> c_writer c = None)"

lemma paired_new: "paired new_connection" "paired (close_connection c)"
  by (simp_all add: paired_def new_connection_def close_connection_def)

lemma is_connected_new: "\<not> is_connected new_connection" "\<not> is_connected (close_connection c)"
  by (simp_all add: is_connected_def new_connection_def close_connection_def)

lemma connected_paired: "paired c \<Longrightarrow> is_connected c \<Longrightarrow> \<exists>rd w. c_reader c = Some rd \<and> c_writer c = Some w"
  by (auto simp: paired_def is_connected_def split: option.splits)

lemma paired_reader: "c_reader c = Some rd \<Longrightarrow> paired c \<Longrightarrow> paired (c\<lparr>c_reader := Some rd'\<rparr>)"
  by (simp add: paired_def)

lemma paired_received [simp]: "paired (received_flags m c) = paired c" "paired (sent_flags m c) = paired c"
  by (simp_all add: paired_def)

lemma paired_write [simp]: "paired (write_bytes d c) = paired c"
  by (auto simp: paired_def write_bytes_def)

lemma paired_feed [simp]: "paired (feed_all evs c) = paired c"
  by (auto simp: paired_def feed_all_def)

lemma receive_paired:
  assumes "receive_message outer evs c = (r, c', evs')" "paired c"
  shows "paired c' \<and> is_connected c' = is_connected c \<and> c_writer c' = c_writer c \<and> c_peer_id c' = c_peer_id c \<and>
    (\<forall>e. r = Inl e \<longrightarrow> (\<exists>m. e = PeerError m) \<or> e = TimeoutError \<or> e = ConnectionResetError)"
proof (cases "is_connected c")
  case False
  with assms show ?thesis by (auto simp: receive_message_def)
next
  case True
  with assms(2) obtain rd w where c: "c_reader c = Some rd" "c_writer c = Some w"
    using connected_paired by blast
  obtain r1 rd1 evs1 where 1: "read_exactly 4 rd evs = (r1, rd1, evs1)" by (metis surj_pair)
  have flags: "c_peer_id (received_flags m c) = c_peer_id c" for m c by (cases m) simp_all
  show ?thesis
  proof (cases r1)
    case (Inl e)
    with read_exactly_Inl 1 have "e \<in> {ConnectionResetError, IncompleteReadError, TimeoutError}" by blast
    with Inl 1 c True assms show ?thesis by (auto simp: receive_message_def paired_def split: if_splits)
  next
    case (Inr lb)
    show ?thesis
    proof (cases "nat (be_value lb) = 0")
      case True
      with Inr 1 c assms \<open>is_connected c\<close> show ?thesis by (auto simp: receive_message_def paired_def)
    next
      case False
      obtain r2 rd2 evs2 where 2: "read_exactly (nat (be_value lb)) rd1 evs1 = (r2, rd2, evs2)" by (metis surj_pair)
      show ?thesis
      proof (cases r2)
        case (Inl e)
        with read_exactly_Inl 2 have "e \<in> {ConnectionResetError, IncompleteReadError, TimeoutError}" by blast
        with Inl Inr 1 2 False c \<open>is_connected c\<close> assms show ?thesis
          by (auto simp: receive_message_def paired_def split: if_splits)
      next
        case (Inr body)
        with \<open>r1 = Inr lb\<close> 1 2 False c \<open>is_connected c\<close> assms show ?thesis
          by (auto simp: receive_message_def Let_def paired_def flags split: sum.splits dest: decode_message_Inl)
      qed
    qed
  qed
qed

subsection \<open>Connecting\<close>

lemma connect_success:
  assumes "connect dial drain evs ip port info_hash peer_id c = (Inr u, c', evs')"
  shows "dial = None \<and> drain = None \<and> is_connected c' \<and> paired c' \<and> (\<exists>p. c_peer_id c' = Some p \<and> length p = 20) \<and>
    c_ip c' = ip \<and> c_port c' = port"
  using assms parse_handshake_sound
  by (fastforce simp: connect_def do_handshake_def Let_def write_bytes_def is_connected_def paired_def res_simps
      split: option.splits sum.splits prod.splits if_splits)

lemma connect_chunks:
  assumes "length info_hash = 20" "length peer_id = 20" "68 \<le> length (concat cs)"
  shows "\<exists>rd ds. rd_buffer rd @ concat ds = drop 68 (concat cs) \<and> \<not> rd_broken rd \<and> \<not> rd_eof rd \<and>
    connect None None (map Arrive cs @ evs) ip port info_hash peer_id c =
      (let c' = c\<lparr>c_ip := ip, c_port := port,
            c_writer := Some \<lparr>wr_sent = 19 # PROTOCOL_NAME @ replicate 8 0 @ info_hash @ peer_id, wr_closing = False\<rparr>,
            c_reader := Some rd\<rparr>
       in case parse_handshake (take 68 (concat cs)) of
            Inl e \<Rightarrow> (Inl e, c', map Arrive ds @ evs)
          | Inr (h, p) \<Rightarrow> if h \<noteq> info_hash then (Inl (HandshakeError ''info_hash mismatch''), c', map Arrive ds @ evs)
              else (Inr (), c'\<lparr>c_peer_id := Some p\<rparr>, map Arrive ds @ evs))"
proof -
  let ?rd = "\<lparr>rd_buffer = [], rd_eof = False, rd_broken = False\<rparr>"
  from read_exactly_chunks [of ?rd 68 cs evs] assms(3) obtain b ds where
    "read_exactly 68 ?rd (map Arrive cs @ evs) = (Inr (take 68 (concat cs)), ?rd\<lparr>rd_buffer := b\<rparr>, map Arrive ds @ evs)"
    "b @ concat ds = drop 68 (concat cs)" by auto
  with assms(1,2) show ?thesis
    by (intro exI [of _ "?rd\<lparr>rd_buffer := b\<rparr>"] exI [of _ ds])
      (simp add: connect_def do_handshake_def build_handshake_def handshake_errors_def Let_def HANDSHAKE_LEN_def
        write_bytes_def split: sum.split prod.split)
qed

text \<open>
  A connection whose handshake failed has not been closed: only \<open>close\<close> does that, and \<open>connect\<close>
  does not call it.
\<close>

lemma failed_handshake_stays_open:
  assumes "connect None drain evs ip port info_hash peer_id c = (Inl e, c', evs')"
  shows "is_connected c'"
  using assms
  by (auto simp: connect_def do_handshake_def Let_def write_bytes_def is_connected_def
      split: option.splits sum.splits prod.splits if_splits)

subsection \<open>A message cut by a timeout\<close>

definition sample_connection :: connection where
  "sample_connection = new_connection\<lparr>
     c_reader := Some \<lparr>rd_buffer = [], rd_eof = False, rd_broken = False\<rparr>,
     c_writer := Some \<lparr>wr_sent = [], wr_closing = False\<rparr>\<rparr>"

text \<open>
  When the caller's timer fires between the length prefix and the body, the prefix is lost: the
  connection stays open and the next call takes the body for a prefix.  Here a Have for piece 7
  is read as the start of a message of 67108864 bytes.
\<close>

lemma timeout_loses_framing:
  "let (r1, c1) = await_message [Arrive [0, 0, 0, 5], TimerFires] sample_connection;
       (r2, c2) = await_message [Arrive [4, 0, 0, 0, 7], Arrive [0, 0, 0, 1, 1]] c1
   in r1 = Inl TimeoutError \<and> r2 = Inl TimeoutError \<and> is_connected c2 \<and> buffered c2 = [7, 0, 0, 0, 1, 1] \<and>
      fst (await_message [Arrive [0, 0, 0, 5], Arrive [4, 0, 0, 0, 7]] sample_connection) = Inr (HaveMessage 7)"
  by (simp add: await_message_def receive_message_def sample_connection_def new_connection_def is_connected_def
      read_now_def be_value_def feed_all_def buffered_def decode_message_def mid_of_def word_at_def slice_def)

text \<open>
  The documentation of \<open>receive_message\<close> says PeerError on a timeout; on a timeout inside the body
  it is TimeoutError.
\<close>

lemma body_timeout_escapes:
  "fst (receive_message False [Arrive [0, 0, 0, 5], TimerFires] sample_connection) = Inl TimeoutError \<and>
   fst (receive_message False [TimerFires] sample_connection) = Inl (PeerError ''Read timeout'')"
  by (simp add: receive_message_def sample_connection_def new_connection_def is_connected_def
      read_now_def be_value_def)

subsection \<open>Properties\<close>

text \<open>
  C10. Two connected ends understand each other: the messages one end sends are the messages the
  other end receives, in order, however the network cuts the bytes into chunks and whatever
  comes behind them; afterwards the flags of the two ends agree, each side's
  \<open>peer_choking\<close> and \<open>peer_interested\<close> with the other side's \<open>am_choking\<close> and \<open>am_interested\<close>.
\<close>

theorem conversation:
  assumes "send_many ms a = (Inr u, a')" "sent_bytes a' = sent_bytes a @ out"
    and "live b" "mirrored a b" "buffered b @ concat cs = out @ rest"
  shows "\<exists>b' ds. receive_many (length ms) (map Arrive cs @ evs) b = (Inr ms, b', map Arrive ds @ evs) \<and>
    live b' \<and> mirrored a' b' \<and> buffered b' @ concat ds = rest"
  using conversation_step [OF assms(1,3,4,2,5)] .

lemma conversation_witness:
  "\<exists>b' ds. receive_many 2 (map Arrive [[0, 0], [0, 1, 1, 0, 0, 0], [1, 2, 9]] @ []) sample_connection =
       (Inr [UnchokeMessage, InterestedMessage], b', map Arrive ds @ []) \<and>
     live b' \<and> peer_choking b' = False \<and> buffered b' @ concat ds = [9]"
proof -
  let ?a = "sample_connection\<lparr>am_choking := False, am_interested := True, c_writer :=
      Some \<lparr>wr_sent = [0, 0, 0, 1, 1, 0, 0, 0, 1, 2], wr_closing = False\<rparr>\<rparr>"
  have s: "send_many [UnchokeMessage, InterestedMessage] sample_connection = (Inr (), ?a)"
    by (simp add: send_message_def sample_connection_def new_connection_def is_connected_def frame_def
        pack_uint_def be_bytes_numeral write_bytes_def)
  have "live sample_connection" "mirrored sample_connection sample_connection"
    by (simp_all add: live_def mirrored_def sample_connection_def new_connection_def is_connected_def)
  from conversation [OF s _ this, of "[0, 0, 0, 1, 1, 0, 0, 0, 1, 2]"
      "[[0, 0], [0, 1, 1, 0, 0, 0], [1, 2, 9]]" "[9]" "[]"]
  obtain b' ds where "receive_many 2 (map Arrive [[0, 0], [0, 1, 1, 0, 0, 0], [1, 2, 9]] @ []) sample_connection =
       (Inr [UnchokeMessage, InterestedMessage], b', map Arrive ds @ [])"
      "live b'" "mirrored ?a b'" "buffered b' @ concat ds = [9]"
    by (auto simp: sent_bytes_def buffered_def sample_connection_def numeral_2_eq_2)
  then show ?thesis by (auto simp: mirrored_def)
qed

text \<open>
  C16. \<open>receive_message\<close> refines the reading of one frame: as soon as the stream holds a whole
  frame, it returns that message with the flags set accordingly, and leaves what follows for
  the next call, in the buffer or on the way.
\<close>

theorem receive_refines:
  assumes "live c" "read_message (buffered c @ concat cs) = Inr (m, rest)"
  shows "\<exists>c' ds. receive_message outer (map Arrive cs @ evs) c = (Inr m, c', map Arrive ds @ evs) \<and>
    live c' \<and> buffered c' @ concat ds = rest \<and> (\<exists>rd. c' = received_flags m (c\<lparr>c_reader := Some rd\<rparr>))"
proof -
  from receive_chunks [OF assms, of outer evs] obtain rd ds where
    r: "receive_message outer (map Arrive cs @ evs) c =
          (Inr m, received_flags m (c\<lparr>c_reader := Some rd\<rparr>), map Arrive ds @ evs)"
      "\<not> rd_broken rd" "\<not> rd_eof rd" "rd_buffer rd @ concat ds = rest" by blast
  then have "live (received_flags m (c\<lparr>c_reader := Some rd\<rparr>))"
      "buffered (received_flags m (c\<lparr>c_reader := Some rd\<rparr>)) @ concat ds = rest"
    using assms(1) by (simp_all add: live_def buffered_def)
  with r(1) show ?thesis by blast
qed

lemma receive_refines_witness:
  "\<exists>c' ds. receive_message True (map Arrive [[0, 0, 0], [5, 4, 0, 0], [0, 7, 1]] @ [Eof]) sample_connection =
     (Inr (HaveMessage 7), c', map Arrive ds @ [Eof]) \<and> buffered c' @ concat ds = [1]"
proof -
  have l: "live sample_connection"
    by (simp add: live_def sample_connection_def new_connection_def is_connected_def)
  have "read_message (buffered sample_connection @ concat [[0, 0, 0], [5, 4, 0, 0], [0, 7, 1]]) = Inr (HaveMessage 7, [1])"
    by (simp add: read_message_def be_value_def buffered_def sample_connection_def decode_message_def mid_of_def
        word_at_def slice_def)
  from receive_refines [OF l this, of True "[Eof]"] show ?thesis by blast
qed



text \<open>
  C18. Once the answer to our handshake has arrived, in whatever chunks, \<open>connect\<close> succeeds with the
  peer id \<open>p\<close> exactly when that answer is a handshake for the same info hash from peer \<open>p\<close>.
\<close>

theorem connect_iff:
  assumes "length info_hash = 20" "length peer_id = 20" "68 \<le> length (concat cs)"
  shows "(\<exists>c' evs'. connect None None (map Arrive cs @ evs) ip port info_hash peer_id c = (Inr (), c', evs') \<and>
      c_peer_id c' = Some p \<and> live c') \<longleftrightarrow>
    (\<exists>reserved rest. concat cs = 19 # PROTOCOL_NAME @ reserved @ info_hash @ p @ rest \<and>
       length reserved = 8 \<and> length p = 20)"
proof -
  let ?h = "take 68 (concat cs)"
  from connect_chunks [OF assms, of evs ip port c] obtain rd ds where
    rd: "\<not> rd_broken rd" "\<not> rd_eof rd" and
    con: "connect None None (map Arrive cs @ evs) ip port info_hash peer_id c =
      (let c' = c\<lparr>c_ip := ip, c_port := port,
            c_writer := Some \<lparr>wr_sent = 19 # PROTOCOL_NAME @ replicate 8 0 @ info_hash @ peer_id, wr_closing = False\<rparr>,
            c_reader := Some rd\<rparr>
       in case parse_handshake ?h of
            Inl e \<Rightarrow> (Inl e, c', map Arrive ds @ evs)
          | Inr (h, p) \<Rightarrow> if h \<noteq> info_hash then (Inl (HandshakeError ''info_hash mismatch''), c', map Arrive ds @ evs)
              else (Inr (), c'\<lparr>c_peer_id := Some p\<rparr>, map Arrive ds @ evs))" by blast
  have "(\<exists>c' evs'. connect None None (map Arrive cs @ evs) ip port info_hash peer_id c = (Inr (), c', evs') \<and>
      c_peer_id c' = Some p \<and> live c') \<longleftrightarrow> parse_handshake ?h = Inr (info_hash, p)"
    unfolding con Let_def using rd by (auto simp: live_def is_connected_def split: sum.splits)
  also have "\<dots> \<longleftrightarrow> (\<exists>reserved rest. concat cs = 19 # PROTOCOL_NAME @ reserved @ info_hash @ p @ rest \<and>
       length reserved = 8 \<and> length p = 20)" (is "_ \<longleftrightarrow> ?R")
  proof
    assume "parse_handshake ?h = Inr (info_hash, p)"
    from parse_handshake_sound [OF this] obtain reserved rest where
      "?h = 19 # PROTOCOL_NAME @ reserved @ info_hash @ p @ rest" "length reserved = 8" "length p = 20" by blast
    moreover have "concat cs = ?h @ drop 68 (concat cs)" by (rule append_take_drop_id [symmetric])
    ultimately show ?R by (metis append_Cons append_assoc)
  next
    assume ?R
    then obtain reserved rest where r: "concat cs = 19 # PROTOCOL_NAME @ reserved @ info_hash @ p @ rest"
      "length reserved = 8" "length p = 20" by blast
    then have h: "?h = 19 # PROTOCOL_NAME @ reserved @ info_hash @ p @ []" using assms by simp
    show "parse_handshake ?h = Inr (info_hash, p)"
      unfolding h using r(2) assms(1) r(3) by (rule parse_handshake_complete)
  qed
  finally show ?thesis .
qed

lemma connect_iff_witness:
  "\<exists>c' evs'. connect None None (map Arrive [19 # PROTOCOL_NAME @ replicate 8 1, replicate 20 2 @ replicate 20 3] @ [])
      [] 6881 (replicate 20 2) (replicate 20 4) new_connection = (Inr (), c', evs') \<and>
      c_peer_id c' = Some (replicate 20 3) \<and> live c'"
proof (rule connect_iff [THEN iffD2])
  show "\<exists>reserved rest. concat [19 # PROTOCOL_NAME @ replicate 8 1, replicate 20 2 @ replicate 20 3] =
      19 # PROTOCOL_NAME @ reserved @ replicate 20 2 @ replicate 20 3 @ rest \<and> length reserved = 8 \<and>
      length (replicate 20 (3 :: byte)) = 20"
    by (intro exI [of _ "replicate 8 1"] exI [of _ "[]"]) simp
qed simp_all

end
