(* ===== verification/PeerPool.thy ===== *)
theory PeerPool
  imports PeerConn PieceManager PyUnicode PyText
begin

section \<open>The peer pool (client/modules/peerPool.py)\<close>

text \<open>
  \<open>PeerPoolManager\<close> and \<open>PeerSession\<close>.  The program runs one asyncio task per peer; a task is
  interrupted only at an await, so it is modelled by the phase it awaits in, and the code from
  one await to the next is one step, a function of the state, of what the network does
  meanwhile and of nothing else.  The pool is the shared piece manager, the two dictionaries,
  the coroutines that are still connecting and the running tasks; an interleaving is a list of
  operations.

  This theory holds the definitions; \<open>PoolSafety\<close> holds the theorems.
\<close>

subsection \<open>A session\<close>

record session =
  se_conn :: connection
  se_in_flight :: "(int \<times> int) list"
  se_active :: "int list"

definition PIPELINE_DEPTH :: nat where
  "PIPELINE_DEPTH = 5"

definition new_session :: "connection \<Rightarrow> session" where
  "new_session conn = \<lparr>se_conn = conn, se_in_flight = [], se_active = []\<rparr>"

text \<open>The key \<open>f"{ip}:{port}"\<close> of a peer, and \<open>conn.peer_id or session.key.encode()\<close>.\<close>

definition session_key :: "ustr \<Rightarrow> int \<Rightarrow> ustr res" where
  "session_key ip port = bindR (py_dec port) (\<lambda>d. Inr (ip @ ucs '':'' @ map unat d))"

definition peer_key :: "connection \<Rightarrow> ustr \<Rightarrow> bytes res" where
  "peer_key conn key =
     (case c_peer_id conn of
        Some (b # bs) \<Rightarrow> Inr (b # bs)
      | _ \<Rightarrow> utf8_encode key)"

subsection \<open>Filling the request pipeline\<close>

text \<open>The blocks of a piece that are missing and not in flight to this peer.\<close>

definition unrequested :: "piece_manager \<Rightarrow> session \<Rightarrow> int \<Rightarrow> (int \<times> int) list res" where
  "unrequested pm s piece_idx =
     bindR (py_get (pm_pieces pm) piece_idx) (\<lambda>piece.
       Inr (filter (\<lambda>(off, sz). (piece_idx, off) \<notin> set (se_in_flight s)) (missing_blocks piece)))"

fun first_unrequested :: "piece_manager \<Rightarrow> session \<Rightarrow> int list \<Rightarrow> (int \<times> int \<times> int) option res" where
  "first_unrequested pm s [] = Inr None"
| "first_unrequested pm s (piece_idx # rest) =
     bindR (unrequested pm s piece_idx) (\<lambda>u.
       case u of
         [] \<Rightarrow> first_unrequested pm s rest
       | (off, sz) # _ \<Rightarrow> Inr (Some (piece_idx, off, sz)))"

text \<open>The request goes out before the block counts as in flight.\<close>

definition request_block :: "exc option \<Rightarrow> int \<Rightarrow> int \<Rightarrow> int \<Rightarrow> session \<Rightarrow> unit res \<times> session" where
  "request_block drain piece_idx off sz s =
     (case send_message drain (RequestMessage piece_idx off sz) (se_conn s) of
        (Inl e, c) \<Rightarrow> (Inl e, s\<lparr>se_conn := c\<rparr>)
      | (Inr _, c) \<Rightarrow>
          (Inr (), s\<lparr>se_conn := c, se_in_flight := List.insert (piece_idx, off) (se_in_flight s)\<rparr>))"

text \<open>
  One round of the inner loop of \<open>_download_loop\<close>: a block of a piece that is already active, or
  else the first block of a newly selected piece.  True: the loop goes on.
\<close>

definition fill_once ::
  "(int set \<Rightarrow> int list) \<Rightarrow> exc option \<Rightarrow> bytes \<Rightarrow> piece_manager \<Rightarrow> session \<Rightarrow> bool res \<times> piece_manager \<times> session" where
  "fill_once itr drain peer pm s =
     (case first_unrequested pm s (se_active s) of
        Inl e \<Rightarrow> (Inl e, pm, s)
      | Inr (Some (piece_idx, off, sz)) \<Rightarrow>
          (case request_block drain piece_idx off sz s of
             (Inl e, s) \<Rightarrow> (Inl e, pm, s)
           | (Inr _, s) \<Rightarrow> (Inr True, pm, s))
      | Inr None \<Rightarrow>
          (case select_piece itr peer pm of
             Inl e \<Rightarrow> (Inl e, pm, s)
           | Inr (None, pm) \<Rightarrow> (Inr False, pm, s)
           | Inr (Some piece_idx, pm) \<Rightarrow>
              (let s = s\<lparr>se_active := se_active s @ [piece_idx]\<rparr> in
               case unrequested pm s piece_idx of
                 Inl e \<Rightarrow> (Inl e, pm, s)
               | Inr [] \<Rightarrow> (Inr False, pm, s)
               | Inr ((off, sz) # _) \<Rightarrow>
                   (case request_block drain piece_idx off sz s of
                      (Inl e, s) \<Rightarrow> (Inl e, pm, s)
                    | (Inr _, s) \<Rightarrow> (Inr True, pm, s)))))"

text \<open>
  The inner loop when every request goes out.  It ends because each round puts one more block in
  flight.
\<close>

lemma first_unrequested_fresh:
  "first_unrequested pm s act = Inr (Some (i, off, sz)) \<Longrightarrow> (i, off) \<notin> set (se_in_flight s)"
proof (induction act)
  case (Cons j act)
  have fresh: "(j, off) \<notin> set (se_in_flight s)" if "unrequested pm s j = Inr ((off, sz) # u)" for u
  proof -
    from that obtain p where
      "filter (\<lambda>(off, sz). (j, off) \<notin> set (se_in_flight s)) (missing_blocks p) = (off, sz) # u"
      by (auto simp: unrequested_def res_simps)
    then have "(off, sz) \<in> set (filter (\<lambda>(off, sz). (j, off) \<notin> set (se_in_flight s)) (missing_blocks p))" by simp
    then show ?thesis by simp
  qed
  show ?case
  proof (cases "unrequested pm s j = Inr []")
    case True
    with Cons show ?thesis by simp
  next
    case False
    with Cons.prems have "i = j" "\<exists>u. unrequested pm s j = Inr ((off, sz) # u)"
      by (auto simp: res_simps split: list.splits)
    with fresh show ?thesis by blast
  qed
qed simp

lemma unrequested_fresh: "unrequested pm s i = Inr ((off, sz) # u) \<Longrightarrow> (i, off) \<notin> set (se_in_flight s)"
  using first_unrequested_fresh [of pm s "[i]" i off sz] by simp

lemma request_block_Inr:
  "request_block drain i off sz s = (Inr u, s') \<Longrightarrow> (i, off) \<notin> set (se_in_flight s) \<Longrightarrow>
     se_in_flight s' = (i, off) # se_in_flight s"
  by (auto simp: request_block_def split: prod.splits sum.splits)

lemma fill_once_progress:
  assumes "fill_once itr drain peer pm s = (Inr True, pm', s')"
  shows "\<exists>q. se_in_flight s' = q # se_in_flight s"
  using assms
  by (auto simp: fill_once_def Let_def split: sum.splits option.splits prod.splits list.splits
      dest!: request_block_Inr dest: first_unrequested_fresh unrequested_fresh)

function fill_loop ::
  "(int set \<Rightarrow> int list) \<Rightarrow> bytes \<Rightarrow> piece_manager \<Rightarrow> session \<Rightarrow> unit res \<times> piece_manager \<times> session" where
  "fill_loop itr peer pm s =
     (if length (se_in_flight s) < PIPELINE_DEPTH then
        (case fill_once itr None peer pm s of
           (Inl e, pm, s) \<Rightarrow> (Inl e, pm, s)
         | (Inr True, pm, s) \<Rightarrow> fill_loop itr peer pm s
         | (Inr False, pm, s) \<Rightarrow> (Inr (), pm, s))
      else (Inr (), pm, s))"
  by pat_completeness auto

termination fill_loop
  by (relation "measure (\<lambda>(_, _, _, s). PIPELINE_DEPTH - length (se_in_flight s))")
    (auto dest!: fill_once_progress [OF sym])

declare fill_loop.simps [simp del]

subsection \<open>Giving pieces back\<close>

text \<open>
  What a choke and \<open>_disconnect\<close> do: every piece the session has active or in flight becomes
  available again, unless it is COMPLETE.  The pieces are a set, \<open>itr\<close> is its iteration order.
\<close>

definition release_piece :: "piece_manager \<Rightarrow> int \<Rightarrow> piece_manager res" where
  "release_piece pm piece_idx =
     (if piece_idx < blen (pm_pieces pm) then
        bindR (py_get (pm_pieces pm) piece_idx) (\<lambda>p.
          if p_state p \<noteq> COMPLETE then mark_piece_failed piece_idx pm else Inr pm)
      else Inr pm)"

definition release_all :: "(int set \<Rightarrow> int list) \<Rightarrow> session \<Rightarrow> piece_manager \<Rightarrow> piece_manager res" where
  "release_all itr s pm = foldR release_piece pm (itr (set (se_active s) \<union> fst ` set (se_in_flight s)))"

subsection \<open>The phases of a task\<close>

text \<open>
  \<open>Starting\<close>: the task was created.  \<open>Waiting n\<close>: waiting to be unchoked, at most \<open>n\<close> more
  messages.  \<open>Looping\<close>: at the head of \<open>while not self._pm.is_done\<close>.  \<open>Filling\<close>: in the loop that
  fills the pipeline.  \<open>Idle\<close>: waiting 5 seconds with nothing in flight.  \<open>Receiving\<close>: waiting 30
  seconds for an answer.  \<open>Delivering\<close>: awaiting the piece-complete callback.  \<open>Leaving\<close>: about to
  enter \<open>_disconnect\<close>.
\<close>

datatype phase = Starting | Waiting nat | Looping | Filling | Idle | Receiving | Delivering | Leaving

record task =
  tk_key :: ustr
  tk_session :: session
  tk_phase :: phase

text \<open>
  A step gives the new piece manager, the new session and phase, the pieces handed to the
  callback, and whether \<open>_done_event\<close> was set.
\<close>

record outcome =
  oc_pm :: piece_manager
  oc_session :: session
  oc_phase :: phase
  oc_delivered :: "(int \<times> bytes) list"
  oc_done :: bool

definition outcome :: "piece_manager \<Rightarrow> session \<Rightarrow> phase \<Rightarrow> outcome" where
  "outcome pm s ph = \<lparr>oc_pm = pm, oc_session = s, oc_phase = ph, oc_delivered = [], oc_done = False\<rparr>"

definition start_step :: "exc option \<Rightarrow> piece_manager \<Rightarrow> session \<Rightarrow> outcome" where
  "start_step drain pm s =
     (case send_message drain InterestedMessage (se_conn s) of
        (Inl e, c) \<Rightarrow> outcome pm (s\<lparr>se_conn := c\<rparr>) Leaving
      | (Inr _, c) \<Rightarrow> outcome pm (s\<lparr>se_conn := c\<rparr>) (Waiting 25))"

text \<open>
  Availability messages are recorded under the peer's key, \<open>peer\<close>, which is computed only for
  them; everything else is passed over.
\<close>

fun record_availability :: "bytes res \<Rightarrow> message \<Rightarrow> piece_manager \<Rightarrow> piece_manager res" where
  "record_availability peer (BitfieldMessage bf) pm = bindR peer (\<lambda>k. Inr (on_peer_bitfield k bf pm))"
| "record_availability peer (HaveMessage i) pm = bindR peer (\<lambda>k. Inr (on_peer_have k i pm))"
| "record_availability peer _ pm = Inr pm"

text \<open>After the unchoke the download loop begins by computing the peer's key once more.\<close>

definition waiting_step :: "ustr \<Rightarrow> arrival list \<Rightarrow> nat \<Rightarrow> piece_manager \<Rightarrow> session \<Rightarrow> outcome" where
  "waiting_step key evs n pm s =
     (case await_message evs (se_conn s) of
        (Inl e, c) \<Rightarrow> outcome pm (s\<lparr>se_conn := c\<rparr>) Leaving
      | (Inr msg, c) \<Rightarrow>
         (let s = s\<lparr>se_conn := c\<rparr> in
          if msg = UnchokeMessage then
            outcome pm s (case peer_key c key of Inl e \<Rightarrow> Leaving | Inr peer \<Rightarrow> Looping)
          else case record_availability (peer_key c key) msg pm of
            Inl e \<Rightarrow> outcome pm s Leaving
          | Inr pm \<Rightarrow> outcome pm s (if n \<le> 1 then Leaving else Waiting (n - 1))))"

definition loop_step :: "piece_manager \<Rightarrow> session \<Rightarrow> outcome" where
  "loop_step pm s =
     (if is_done pm then (outcome pm s Leaving)\<lparr>oc_done := True\<rparr> else outcome pm s Filling)"

text \<open>After the pipeline was filled: with nothing in flight the task idles, unless all is done.\<close>

definition after_fill :: "piece_manager \<Rightarrow> session \<Rightarrow> outcome" where
  "after_fill pm s =
     (if se_in_flight s = [] then
        (if is_done pm then (outcome pm s Leaving)\<lparr>oc_done := True\<rparr> else outcome pm s Idle)
      else outcome pm s Receiving)"

definition fill_step ::
  "(int set \<Rightarrow> int list) \<Rightarrow> ustr \<Rightarrow> exc option \<Rightarrow> piece_manager \<Rightarrow> session \<Rightarrow> outcome" where
  "fill_step itr key drain pm s =
     (if length (se_in_flight s) < PIPELINE_DEPTH then
        (case peer_key (se_conn s) key of
           Inl e \<Rightarrow> outcome pm s Leaving
         | Inr peer \<Rightarrow>
            (case fill_once itr drain peer pm s of
               (Inl e, pm, s) \<Rightarrow> outcome pm s Leaving
             | (Inr True, pm, s) \<Rightarrow> outcome pm s Filling
             | (Inr False, pm, s) \<Rightarrow> after_fill pm s))
      else after_fill pm s)"

definition idle_step :: "ustr \<Rightarrow> arrival list \<Rightarrow> piece_manager \<Rightarrow> session \<Rightarrow> outcome" where
  "idle_step key evs pm s =
     (case await_message evs (se_conn s) of
        (Inl e, c) \<Rightarrow> outcome pm (s\<lparr>se_conn := c\<rparr>) (if e = TimeoutError then Looping else Leaving)
      | (Inr msg, c) \<Rightarrow>
         (let s = s\<lparr>se_conn := c\<rparr> in
          if msg = ChokeMessage then outcome pm s Leaving
          else case record_availability (peer_key c key) msg pm of
            Inl e \<Rightarrow> outcome pm s Leaving
          | Inr pm \<Rightarrow> outcome pm s Looping))"

text \<open>A block came in.  Any exception ends the task; what changed before it stays changed.\<close>

definition piece_message_step ::
  "int \<Rightarrow> int \<Rightarrow> bytes \<Rightarrow> piece_manager \<Rightarrow> session \<Rightarrow> outcome" where
  "piece_message_step index begin block pm s =
     (let s = s\<lparr>se_in_flight := removeAll (index, begin) (se_in_flight s)\<rparr> in
      case add_block index begin block pm of
        Inl e \<Rightarrow> outcome pm s Leaving
      | Inr (True, pm) \<Rightarrow>
         (let s = s\<lparr>se_active := remove1 index (se_active s)\<rparr> in
          case get_piece_data pm index of
            Inl e \<Rightarrow> outcome pm s Leaving
          | Inr d \<Rightarrow> (outcome pm s Delivering)\<lparr>oc_delivered := [(index, d)]\<rparr>)
      | Inr (False, pm) \<Rightarrow>
         (case py_get (pm_pieces pm) index of
            Inl e \<Rightarrow> outcome pm s Leaving
          | Inr p \<Rightarrow>
              if p_state p = NEEDED then outcome pm (s\<lparr>se_active := remove1 index (se_active s)\<rparr>) Looping
              else outcome pm s Looping))"

definition choke_step :: "(int set \<Rightarrow> int list) \<Rightarrow> piece_manager \<Rightarrow> session \<Rightarrow> outcome" where
  "choke_step itr pm s =
     (case release_all itr s pm of
        Inl e \<Rightarrow> outcome pm s Leaving
      | Inr pm \<Rightarrow> outcome pm (s\<lparr>se_in_flight := [], se_active := []\<rparr>) Leaving)"

definition receive_step ::
  "(int set \<Rightarrow> int list) \<Rightarrow> ustr \<Rightarrow> arrival list \<Rightarrow> piece_manager \<Rightarrow> session \<Rightarrow> outcome" where
  "receive_step itr key evs pm s =
     (case await_message evs (se_conn s) of
        (Inl e, c) \<Rightarrow> outcome pm (s\<lparr>se_conn := c\<rparr>) Leaving
      | (Inr msg, c) \<Rightarrow>
         (let s = s\<lparr>se_conn := c\<rparr> in
          case msg of
            PieceMessage index begin block \<Rightarrow> piece_message_step index begin block pm s
          | ChokeMessage \<Rightarrow> choke_step itr pm s
          | HaveMessage i \<Rightarrow>
              (case peer_key c key of
                 Inl e \<Rightarrow> outcome pm s Leaving
               | Inr peer \<Rightarrow> outcome (on_peer_have peer i pm) s Looping)
          | _ \<Rightarrow> outcome pm s Looping))"

definition task_step ::
  "(int set \<Rightarrow> int list) \<Rightarrow> ustr \<Rightarrow> exc option \<Rightarrow> arrival list \<Rightarrow> piece_manager \<Rightarrow> session \<Rightarrow> phase \<Rightarrow> outcome" where
  "task_step itr key drain evs pm s ph =
     (case ph of
        Starting \<Rightarrow> start_step drain pm s
      | Waiting n \<Rightarrow> waiting_step key evs n pm s
      | Looping \<Rightarrow> loop_step pm s
      | Filling \<Rightarrow> fill_step itr key drain pm s
      | Idle \<Rightarrow> idle_step key evs pm s
      | Receiving \<Rightarrow> receive_step itr key evs pm s
      | Delivering \<Rightarrow> outcome pm s Looping
      | Leaving \<Rightarrow> outcome pm s Leaving)"

subsection \<open>The pool\<close>

text \<open>
  Tasks carry a number, so that a task whose key was taken over by another session is still
  told apart.  \<open>po_adding\<close> are the coroutines of \<open>add_peers\<close> that passed their first check and
  are connecting; \<open>po_spawned\<close> those that created their task and have not entered it in
  \<open>_tasks\<close> yet.  \<open>po_log\<close> is the list of the callback's calls, \<open>po_stopping\<close> says that
  \<open>shutdown\<close> has begun.
\<close>

record pool =
  po_pm :: piece_manager
  po_info_hash :: bytes
  po_peer_id :: bytes
  po_max_peers :: int
  po_sessions :: "(ustr, nat) dict"
  po_tasks :: "(ustr, nat) dict"
  po_done :: bool
  po_running :: "(nat, task) dict"
  po_adding :: "(ustr \<times> int) list"
  po_spawned :: "(ustr \<times> nat) list"
  po_next :: nat
  po_log :: "(int \<times> bytes) list"
  po_stopping :: bool

definition new_pool :: "piece_manager \<Rightarrow> bytes \<Rightarrow> bytes \<Rightarrow> int \<Rightarrow> pool" where
  "new_pool pm info_hash peer_id max_peers =
     \<lparr>po_pm = pm, po_info_hash = info_hash, po_peer_id = peer_id, po_max_peers = max_peers,
      po_sessions = [], po_tasks = [], po_done = False, po_running = [], po_adding = [],
      po_spawned = [], po_next = 0, po_log = [], po_stopping = False\<rparr>"

definition num_connected :: "pool \<Rightarrow> int" where
  "num_connected po = blen (po_sessions po)"

text \<open>\<open>_connect_one\<close>, up to the connection attempt.\<close>

definition check_peer :: "ustr \<Rightarrow> int \<Rightarrow> pool \<Rightarrow> pool" where
  "check_peer ip port po =
     (if num_connected po \<ge> po_max_peers po then po
      else case session_key ip port of
        Inl e \<Rightarrow> po
      | Inr key \<Rightarrow>
          if dict_get (po_sessions po) key \<noteq> None then po
          else po\<lparr>po_adding := (ip, port) # po_adding po\<rparr>)"

text \<open>
  \<open>_connect_one\<close>, from the end of the attempt to the creation of the task.  The second check
  looks at the number of sessions only, not at the key.
\<close>

definition register_session :: "ustr \<Rightarrow> connection \<Rightarrow> pool \<Rightarrow> pool" where
  "register_session key conn po =
     (if num_connected po \<ge> po_max_peers po then po
      else po\<lparr>po_sessions := dict_set key (po_next po) (po_sessions po),
              po_running := dict_set (po_next po) \<lparr>tk_key = key, tk_session = new_session conn, tk_phase = Starting\<rparr>
                              (po_running po),
              po_spawned := (key, po_next po) # po_spawned po,
              po_next := po_next po + 1\<rparr>)"

definition finish_connect :: "ustr \<Rightarrow> int \<Rightarrow> exc option \<Rightarrow> exc option \<Rightarrow> arrival list \<Rightarrow> pool \<Rightarrow> pool" where
  "finish_connect ip port dial drain evs po =
     (let po = po\<lparr>po_adding := remove1 (ip, port) (po_adding po)\<rparr> in
      case connect dial drain evs ip port (po_info_hash po) (po_peer_id po) new_connection of
        (Inl e, conn, evs) \<Rightarrow> po
      | (Inr _, conn, evs) \<Rightarrow>
         (case session_key ip port of
            Inl e \<Rightarrow> po
          | Inr key \<Rightarrow> register_session key (feed_all evs conn) po))"

definition record_task :: "ustr \<Rightarrow> nat \<Rightarrow> pool \<Rightarrow> pool" where
  "record_task key i po =
     po\<lparr>po_tasks := dict_set key i (po_tasks po), po_spawned := remove1 (key, i) (po_spawned po)\<rparr>"

text \<open>One step of a running task.\<close>

definition step_task :: "(int set \<Rightarrow> int list) \<Rightarrow> nat \<Rightarrow> task \<Rightarrow> exc option \<Rightarrow> arrival list \<Rightarrow> pool \<Rightarrow> pool" where
  "step_task itr i t drain evs po =
     (let oc = task_step itr (tk_key t) drain evs (po_pm po) (tk_session t) (tk_phase t) in
      po\<lparr>po_pm := oc_pm oc,
         po_running := dict_set i \<lparr>tk_key = tk_key t, tk_session = oc_session oc, tk_phase = oc_phase oc\<rparr> (po_running po),
         po_log := po_log po @ oc_delivered oc,
         po_done := po_done po \<or> oc_done oc\<rparr>)"

text \<open>
  \<open>_disconnect\<close>, the end of a task: whatever session is under the key is taken out, the pieces
  are given back, the connection is closed.
\<close>

definition disconnect :: "(int set \<Rightarrow> int list) \<Rightarrow> nat \<Rightarrow> task \<Rightarrow> pool \<Rightarrow> pool" where
  "disconnect itr i t po =
     (let po = po\<lparr>po_sessions := dict_pop (tk_key t) (po_sessions po), po_tasks := dict_pop (tk_key t) (po_tasks po),
                  po_running := dict_pop i (po_running po)\<rparr>
      in case release_all itr (tk_session t) (po_pm po) of
           Inl e \<Rightarrow> po
         | Inr pm \<Rightarrow> po\<lparr>po_pm := pm\<rparr>)"

text \<open>
  \<open>shutdown\<close>: every task in \<open>_tasks\<close> is cancelled.  A cancelled task goes to its \<open>finally\<close>, except
  one that has not started and one that is in there already, which end at once.
\<close>

definition cancel_task :: "task \<Rightarrow> task option" where
  "cancel_task t = (if tk_phase t \<in> {Starting, Leaving} then None else Some (t\<lparr>tk_phase := Leaving\<rparr>))"

definition shutdown_cancel :: "pool \<Rightarrow> pool" where
  "shutdown_cancel po =
     po\<lparr>po_stopping := True,
        po_running := concat (map (\<lambda>(i, t).
            if i \<in> snd ` set (po_tasks po) then
              (case cancel_task t of None \<Rightarrow> [] | Some t' \<Rightarrow> [(i, t')])
            else [(i, t)]) (po_running po))\<rparr>"

definition shutdown_clear :: "pool \<Rightarrow> pool" where
  "shutdown_clear po = po\<lparr>po_sessions := [], po_tasks := []\<rparr>"

subsection \<open>Interleavings\<close>

datatype pool_op =
    CheckPeer ustr int
  | FinishConnect ustr int "exc option" "exc option" "arrival list"
  | RecordTask ustr nat
  | StepTask nat "exc option" "arrival list"
  | Disconnect nat
  | ShutdownCancel
  | ShutdownClear

text \<open>Left: the operation is not possible in this state.\<close>

fun pool_exec :: "(int set \<Rightarrow> int list) \<Rightarrow> pool_op \<Rightarrow> pool \<Rightarrow> unit + pool" where
  "pool_exec itr (CheckPeer ip port) po = Inr (check_peer ip port po)"
| "pool_exec itr (FinishConnect ip port dial drain evs) po =
     (if (ip, port) \<in> set (po_adding po) then Inr (finish_connect ip port dial drain evs po) else Inl ())"
| "pool_exec itr (RecordTask key i) po =
     (if (key, i) \<in> set (po_spawned po) then Inr (record_task key i po) else Inl ())"
| "pool_exec itr (StepTask i drain evs) po =
     (case dict_get (po_running po) i of
        None \<Rightarrow> Inl ()
      | Some t \<Rightarrow> if tk_phase t = Leaving then Inl () else Inr (step_task itr i t drain evs po))"
| "pool_exec itr (Disconnect i) po =
     (case dict_get (po_running po) i of
        None \<Rightarrow> Inl ()
      | Some t \<Rightarrow> if tk_phase t = Leaving then Inr (disconnect itr i t po) else Inl ())"
| "pool_exec itr ShutdownCancel po = Inr (shutdown_cancel po)"
| "pool_exec itr ShutdownClear po = (if po_stopping po then Inr (shutdown_clear po) else Inl ())"

end
