(* ===== verification/Reports.thy ===== *)
theory Reports
  imports Display PeerPool Tracker
begin

section \<open>Progress and the texts of objects\<close>

text \<open>
  \<open>PieceManager.get_progress\<close>, a float, and the \<open>__repr__\<close> methods of the classes, which show it and
  the other figures of an object.

  The theorem: the progress is a number between 0 and 1, and it is 1 exactly when the download is
  done, although it was rounded.
\<close>

subsection \<open>Progress\<close>

definition get_progress :: "piece_manager \<Rightarrow> rat res" where
  "get_progress pm = (if pm_num_pieces pm = 0 then Inr 1 else int_div (num_complete pm) (pm_num_pieces pm))"

text \<open>A quotient below 1 of numbers of at most 2^53 is not rounded up to 1.\<close>

lemma to_float_nonneg:
  assumes "0 \<le> x" "to_float x = Fin y"
  shows "0 \<le> y"
proof (cases "x = 0")
  case False
  have "0 \<le> x / ulp x" by (rule divide_nonneg_pos [OF assms(1) ulp_pos(1)])
  then have "0 \<le> round_even (x / ulp x)" using round_even_ge [of 0] by simp
  then have "(0 :: rat) \<le> of_int (round_even (x / ulp x)) * ulp x" using ulp_pos(1) [of x] by (simp add: less_imp_le)
  with False assms(2) show ?thesis by (auto simp: to_float_def Let_def split: if_splits)
qed (use assms in \<open>simp add: to_float_def\<close>)

lemma to_float_below_one:
  assumes "0 \<le> k" "k < n" "n \<le> 2 ^ 53"
  shows "\<exists>y. to_float (of_int k / of_int n) = Fin y \<and> 0 \<le> y \<and> y < 1"
proof -
  let ?x = "of_int k / of_int n :: rat"
  have n: "(0 :: rat) < of_int n" using assms(1,2) by simp
  have x0: "0 \<le> ?x" using assms(1) n by simp
  note nn = to_float_nonneg [OF x0]
  show ?thesis
  proof (cases "?x < 1 / 2")
    case True
    with x0 have "\<bar>?x\<bar> < 2 powi (- 1)" by simp
    from to_float_finite [OF this] obtain y where "to_float ?x = Fin y" "\<bar>y\<bar> \<le> 1 / 2" by auto
    with nn show ?thesis by auto
  next
    case False
    have lt1: "?x < 1" using assms(2) n by simp
    have "exponent ?x = - 1"
    proof (rule exponent_unique)
      show "2 powi (- 1) \<le> \<bar>?x\<bar>" "\<bar>?x\<bar> < 2 powi (- 1 + 1)"
        unfolding abs_of_nonneg [OF x0] using False lt1 by (simp_all only: not_less) simp_all
    qed
    then have u: "ulp ?x = 1 / 2 ^ 53" by (simp add: ulp_def power_int_minus_divide)
    have "of_int k * (2 :: rat) ^ 53 \<le> of_int (2 ^ 53 - 1) * of_int n"
    proof -
      have "k * 2 ^ 53 \<le> (n - 1) * 2 ^ 53" using assms(2) by (intro mult_right_mono) simp_all
      also have "\<dots> \<le> (2 ^ 53 - 1) * n" using assms(3) by (simp add: algebra_simps)
      finally have "(of_int (k * 2 ^ 53) :: rat) \<le> of_int ((2 ^ 53 - 1) * n)" by (simp only: of_int_le_iff)
      then show ?thesis by simp
    qed
    then have "?x / ulp ?x \<le> of_int (2 ^ 53 - 1)" unfolding u using n by (simp add: divide_le_eq)
    from round_even_le [OF this] have "round_even (?x / ulp ?x) \<le> 2 ^ 53 - 1" .
    then have "(of_int (round_even (?x / ulp ?x)) :: rat) \<le> of_int (2 ^ 53 - 1)" by (simp only: of_int_le_iff)
    then have y: "of_int (round_even (?x / ulp ?x)) * ulp ?x < 1" unfolding u by simp
    have "\<bar>?x\<bar> < 2 powi 0" unfolding abs_of_nonneg [OF x0] using lt1 by simp
    from to_float_finite [OF this] obtain z where z: "to_float ?x = Fin z" by auto
    moreover have "z = of_int (round_even (?x / ulp ?x)) * ulp ?x"
      using z False by (auto simp: to_float_def Let_def split: if_splits)
    ultimately show ?thesis using y nn by simp
  qed
qed

lemma get_progress_bounds:
  assumes "pm_ok pm" "pm_num_pieces pm \<le> 2 ^ 53"
  shows "\<exists>x. get_progress pm = Inr x \<and> 0 \<le> x \<and> x \<le> 1 \<and> (x = 1 \<longleftrightarrow> is_done pm)"
proof (cases "is_done pm")
  case True
  then have "num_complete pm = pm_num_pieces pm" by (simp add: is_done_def)
  then show ?thesis using to_float_int [of 1] True by (simp add: get_progress_def int_div_def)
next
  case False
  have "0 \<le> num_complete pm" "num_complete pm \<le> pm_num_pieces pm"
    using assms(1) by (simp_all add: num_complete_def pm_ok_def)
  with False have "num_complete pm < pm_num_pieces pm" by (simp add: is_done_def)
  from to_float_below_one [OF \<open>0 \<le> num_complete pm\<close> this assms(2)] \<open>0 \<le> num_complete pm\<close> this False show ?thesis
    by (auto simp: get_progress_def int_div_def)
qed

subsection \<open>Texts\<close>

text \<open>\<open>f"{x:.1%}"\<close>: a hundred times the float, with one place.\<close>

definition percent :: "rat \<Rightarrow> ustr" where
  "percent x = format_float 1 (to_float (x * 100)) @ ucs ''%''"

definition state_name :: "piece_state \<Rightarrow> string" where
  "state_name s = (case s of NEEDED \<Rightarrow> ''NEEDED'' | PENDING \<Rightarrow> ''PENDING'' | COMPLETE \<Rightarrow> ''COMPLETE'' | FAILED \<Rightarrow> ''FAILED'')"

definition piece_text :: "piece \<Rightarrow> ustr res" where
  "piece_text p =
     (if p_length p = 0 then Inl ZeroDivisionError
      else line [lit ''Piece(index='', text_int (p_index p), lit '', state='', lit (state_name (p_state p)), lit '', '',
                 text_int (100 * p_received p div p_length p), lit ''%)''])"

definition manager_text :: "piece_manager \<Rightarrow> ustr res" where
  "manager_text pm =
     line [lit ''PieceManager('', text_int (num_complete pm), lit ''/'', text_int (pm_num_pieces pm), lit '' pieces, '',
           bindR (get_progress pm) (\<lambda>x. Inr (percent x)), lit '')'']"

definition pool_text :: "pool \<Rightarrow> ustr res" where
  "pool_text po =
     line [lit ''PeerPoolManager(peers='', text_int (num_connected po), lit ''/'', text_int (po_max_peers po), lit '', progress='',
           bindR (get_progress (po_pm po)) (\<lambda>x. Inr (percent x)), lit '')'']"

definition connection_text :: "connection \<Rightarrow> ustr res" where
  "connection_text c =
     line [lit ''PeerConnection('', Inr (c_ip c), lit '':'', text_int (c_port c), lit '' ['',
           lit (if is_connected c then ''connected'' else ''disconnected''), lit ''])'']"

definition session_text :: "ustr \<Rightarrow> ustr" where
  "session_text key = ucs ''PeerSession('' @ key @ ucs '')''"

definition message_text :: "message \<Rightarrow> ustr res" where
  "message_text m =
     (case m of
        KeepAliveMessage \<Rightarrow> lit ''KeepAlive''
      | ChokeMessage \<Rightarrow> lit ''Choke''
      | UnchokeMessage \<Rightarrow> lit ''Unchoke''
      | InterestedMessage \<Rightarrow> lit ''Interested''
      | NotInterestedMessage \<Rightarrow> lit ''NotInterested''
      | HaveMessage i \<Rightarrow> line [lit ''Have(piece='', text_int i, lit '')'']
      | BitfieldMessage b \<Rightarrow> line [lit ''Bitfield(len='', text_int (blen b), lit '')'']
      | RequestMessage i b l \<Rightarrow> line [lit ''Request(piece='', text_int i, lit '', offset='', text_int b, lit '', len='', text_int l, lit '')'']
      | PieceMessage i b d \<Rightarrow> line [lit ''Piece(piece='', text_int i, lit '', offset='', text_int b, lit '', len='', text_int (blen d), lit '')'']
      | CancelMessage i b l \<Rightarrow> line [lit ''Cancel(piece='', text_int i, lit '', offset='', text_int b, lit '')''])"

definition peer_info_text :: "peer_info \<Rightarrow> ustr res" where
  "peer_info_text p = line [lit ''PeerInfo('', Inr (pi_ip p), lit '':'', text_int (pi_port p), lit '')'']"

subsection \<open>Quoted texts\<close>

text \<open>
  \<open>repr\<close> of a text, the \<open>!r\<close> of an f-string: in single quotes, unless only single quotes occur in it;
  the quote, the backslash and what cannot be printed are escaped.  Which characters beyond ASCII
  can be printed is the Unicode database's say, the argument \<open>printable_char\<close>.
\<close>

fun hex_digits :: "nat \<Rightarrow> nat \<Rightarrow> ustr" where
  "hex_digits 0 n = []"
| "hex_digits (Suc k) n = hex_digits k (n div 16) @ [hex_digit (n mod 16)]"

definition repr_char :: "(nat \<Rightarrow> bool) \<Rightarrow> nat \<Rightarrow> nat \<Rightarrow> ustr" where
  "repr_char printable_char quote c =
     (if c = quote \<or> c = 92 then [92, c]
      else if c = 9 then [92, 116] else if c = 10 then [92, 110] else if c = 13 then [92, 114]
      else if c < 32 \<or> c = 127 then [92, 120] @ hex_digits 2 c
      else if c < 127 \<or> printable_char c then [c]
      else if c < 256 then [92, 120] @ hex_digits 2 c
      else if c < 65536 then [92, 117] @ hex_digits 4 c
      else [92, 85] @ hex_digits 8 c)"

definition repr_quote :: "ustr \<Rightarrow> nat" where
  "repr_quote s = (if 39 \<in> set s \<and> 34 \<notin> set s then 34 else 39)"

definition text_repr :: "(nat \<Rightarrow> bool) \<Rightarrow> ustr \<Rightarrow> ustr" where
  "text_repr printable_char s =
     [repr_quote s] @ concat (map (repr_char printable_char (repr_quote s)) s) @ [repr_quote s]"

definition torrent_text :: "(nat \<Rightarrow> bool) \<Rightarrow> torrent \<Rightarrow> ustr res" where
  "torrent_text printable_char t =
     line [lit ''TorrentFile('', lit ''name='', Inr (text_repr printable_char (utf8_decode (t_name t))),
           lit '', announce='', Inr (text_repr printable_char (t_announce t)), lit '', pieces='', text_int (num_pieces t),
           lit '', piece_length='', text_int (t_piece_length t), lit '', total_length='', text_int (total_length t),
           lit '', files='', text_int (blen (t_files t)),
           lit '', info_hash='', Inr (text_repr printable_char (hex_text (t_info_hash t))), lit '')'']"

text \<open>A quoted text is a literal of the language: reading its escapes gives the text back.\<close>

definition hex_value :: "ustr \<Rightarrow> nat" where
  "hex_value ds = foldl (\<lambda>n d. 16 * n + (if d < 58 then d - 48 else d - 87)) 0 ds"

function read_literal :: "ustr \<Rightarrow> ustr" where
  "read_literal [] = []"
| "c \<noteq> 92 \<Longrightarrow> read_literal (c # cs) = c # read_literal cs"
| "read_literal [92] = []"
| "read_literal (92 # e # cs) =
     (let k = (if e = 120 then 2 else if e = 117 then 4 else if e = 85 then 8 else 0) in
      (if e = 116 then 9 else if e = 110 then 10 else if e = 114 then 13
       else if k = 0 then e else hex_value (take k cs)) # read_literal (drop k cs))"
proof goal_cases
  case (1 P x)
  then show ?case by (cases x rule: list.exhaust; cases "tl x"; cases "hd x = 92") auto
qed auto

termination
  by (relation "measure length") auto

lemma length_hex_digits [simp]: "length (hex_digits k n) = k"
  by (induction k n rule: hex_digits.induct) simp_all

lemma hex_value_digits: "n < 16 ^ k \<Longrightarrow> hex_value (hex_digits k n) = n"
proof (induction k n rule: hex_digits.induct)
  case (2 k n)
  then have "hex_value (hex_digits k (n div 16)) = n div 16" by (simp add: less_mult_imp_div_less mult.commute)
  then show ?case by (auto simp: hex_value_def hex_digit_def)
qed (simp add: hex_value_def)

lemma read_repr_char:
  assumes "quote \<in> {34, 39}" "c < 2 ^ 32"
  shows "read_literal (repr_char p quote c @ rest) = c # read_literal rest"
  using assms hex_value_digits [of c 2] hex_value_digits [of c 4] hex_value_digits [of c 8]
  by (auto simp: repr_char_def Let_def)

lemma repr_read_back:
  assumes "\<forall>c \<in> set s. c < 2 ^ 32"
  shows "\<exists>body. text_repr p s = [repr_quote s] @ body @ [repr_quote s] \<and> read_literal body = s"
proof -
  have "read_literal (concat (map (repr_char p (repr_quote s)) t)) = t" if "set t \<subseteq> set s" for t
    using that
  proof (induction t)
    case (Cons c t)
    then show ?case using assms read_repr_char [of "repr_quote s" c p] by (simp add: repr_quote_def)
  qed simp
  then show ?thesis by (auto simp: text_repr_def)
qed

end
