(* ===== verification/PoolSafety.thy ===== *)
theory PoolSafety
  imports PeerPool PieceProgress
begin

section \<open>Safety of the peer pool\<close>

text \<open>
  What every interleaving of the peer tasks keeps: the bounds on sessions and on blocks in
  flight, that every PENDING piece is being fetched by some running session, and that only
  verified data reaches the callback.  The pool drives the piece manager only through its calls,
  so the theorems on the piece manager hold for it as they are.
\<close>

subsection \<open>What a message can carry\<close>

fun nonneg_fields :: "message \<Rightarrow> bool" where
  "nonneg_fields (HaveMessage i) \<longleftrightarrow> 0 \<le> i"
| "nonneg_fields (PieceMessage i b d) \<longleftrightarrow> 0 \<le> i"
| "nonneg_fields _ \<longleftrightarrow> True"

lemma decode_nonneg: "decode_message i p = Inr m \<Longrightarrow> nonneg_fields m"
  using be_value_range by (auto simp: decode_message_def word_at_def split: option.splits message_id.splits if_splits)

lemma receive_nonneg: "receive_message outer evs c = (Inr m, c', evs') \<Longrightarrow> nonneg_fields m"
  by (auto simp: receive_message_def Let_def dest: decode_nonneg split: if_splits option.splits prod.splits sum.splits)

lemma await_nonneg: "await_message evs c = (Inr m, c') \<Longrightarrow> nonneg_fields m"
  by (auto simp: await_message_def dest: receive_nonneg split: prod.splits)

subsection \<open>Calls of the piece manager\<close>

text \<open>A sequence of calls that leads from one state of the piece manager to another.\<close>

definition calls :: "(int set \<Rightarrow> int list) \<Rightarrow> piece_manager \<Rightarrow> piece_manager \<Rightarrow> bool" where
  "calls itr pm pm' \<longleftrightarrow> (\<exists>ops. (\<forall>op \<in> set ops. pm_op_ok op) \<and> pm' = run_ops (pm_exec itr) ops pm)"

lemma calls_refl [simp, intro]: "calls itr pm pm"
  unfolding calls_def run_ops_def by (rule exI [of _ "[]"]) simp

lemma calls_trans [trans]: "calls itr pm pm1 \<Longrightarrow> calls itr pm1 pm2 \<Longrightarrow> calls itr pm pm2"
  unfolding calls_def run_ops_def
  by (elim exE conjE) (rule_tac x = "ops @ opsa" in exI, auto)

lemma calls_one: "pm_exec itr op pm = Inr pm' \<Longrightarrow> pm_op_ok op \<Longrightarrow> calls itr pm pm'"
  unfolding calls_def run_ops_def by (rule exI [of _ "[op]"]) (simp add: attempt_def)

lemma calls_ok: "calls itr pm pm' \<Longrightarrow> pm_ok pm \<Longrightarrow> set_order itr \<Longrightarrow> pm_ok pm' \<and> pm_layout pm' = pm_layout pm"
  unfolding calls_def using pmc.run_inv pmc.run_frame by fastforce

lemma calls_length:
  "calls itr pm pm' \<Longrightarrow> pm_ok pm \<Longrightarrow> set_order itr \<Longrightarrow> length (pm_pieces pm') = length (pm_pieces pm)"
  by (drule (2) calls_ok) (auto simp: pm_layout_def dest: map_eq_imp_length_eq)

subsection \<open>Giving pieces back\<close>

lemma release_piece_effect:
  assumes "0 \<le> i" "i < blen (pm_pieces pm)"
  shows "\<exists>pm'. release_piece pm i = Inr pm' \<and> calls itr pm pm' \<and> length (pm_pieces pm') = length (pm_pieces pm) \<and>
    (\<forall>j < length (pm_pieces pm). pm_pieces pm' ! j =
       (if int j = i \<and> p_state (pm_pieces pm ! j) \<noteq> COMPLETE then piece_reset (pm_pieces pm ! j) else pm_pieces pm ! j))"
proof -
  from assms obtain k where k: "i = int k" "k < length (pm_pieces pm)" by (metis nonneg_int_cases of_nat_less_iff)
  show ?thesis
  proof (cases "p_state (pm_pieces pm ! k) = COMPLETE")
    case True
    with k show ?thesis
      by (intro exI [of _ pm]) (auto simp: release_piece_def py_get_def py_index_nonneg)
  next
    case False
    let ?pm = "(put_piece k (piece_reset (pm_pieces pm ! k)) pm)\<lparr>pm_pending := pm_pending pm - {i}\<rparr>"
    have m: "mark_piece_failed i pm = Inr ?pm" using k by (simp add: mark_piece_failed_def py_index_nonneg)
    then have "calls itr pm ?pm" using assms by (intro calls_one [of itr "MarkFailed i"]) simp_all
    with m k False show ?thesis
      by (intro exI [of _ ?pm]) (auto simp: release_piece_def py_get_def py_index_nonneg put_piece_def nth_list_update)
  qed
qed

lemma release_list_effect:
  assumes "pm_ok pm" "set_order itr" "\<forall>i \<in> set is. 0 \<le> i \<and> i < blen (pm_pieces pm)"
  shows "\<exists>pm'. foldR release_piece pm is = Inr pm' \<and> calls itr pm pm' \<and> length (pm_pieces pm') = length (pm_pieces pm) \<and>
    (\<forall>j < length (pm_pieces pm). pm_pieces pm' ! j =
       (if int j \<in> set is \<and> p_state (pm_pieces pm ! j) \<noteq> COMPLETE then piece_reset (pm_pieces pm ! j) else pm_pieces pm ! j))"
  using assms
proof (induction "is" arbitrary: pm)
  case Nil
  then show ?case by auto
next
  case (Cons i "is")
  from release_piece_effect [of i pm itr] Cons.prems obtain pm1 where
    1: "release_piece pm i = Inr pm1" "calls itr pm pm1" "length (pm_pieces pm1) = length (pm_pieces pm)"
      "\<forall>j < length (pm_pieces pm). pm_pieces pm1 ! j =
       (if int j = i \<and> p_state (pm_pieces pm ! j) \<noteq> COMPLETE then piece_reset (pm_pieces pm ! j) else pm_pieces pm ! j)"
    by auto
  from Cons.IH [of pm1] calls_ok [OF 1(2)] Cons.prems 1(3) obtain pm2 where
    2: "foldR release_piece pm1 is = Inr pm2" "calls itr pm1 pm2" "length (pm_pieces pm2) = length (pm_pieces pm1)"
      "\<forall>j < length (pm_pieces pm1). pm_pieces pm2 ! j =
       (if int j \<in> set is \<and> p_state (pm_pieces pm1 ! j) \<noteq> COMPLETE then piece_reset (pm_pieces pm1 ! j) else pm_pieces pm1 ! j)"
    by auto
  have "piece_reset (piece_reset p) = piece_reset p" for p by (simp add: piece_reset_def)
  with 1 2 calls_trans [OF 1(2) 2(2)] show ?case by (intro exI [of _ pm2]) auto
qed

text \<open>The pieces of a session are pieces of the torrent, and its requests are within bounds.\<close>

definition session_ok :: "nat \<Rightarrow> session \<Rightarrow> bool" where
  "session_ok n s \<longleftrightarrow> distinct (se_in_flight s) \<and> length (se_in_flight s) \<le> PIPELINE_DEPTH \<and>
     (\<forall>i \<in> set (se_active s) \<union> fst ` set (se_in_flight s). 0 \<le> i \<and> i < int n)"

lemma release_all_effect:
  assumes "pm_ok pm" "set_order itr" "session_ok (length (pm_pieces pm)) s"
  shows "\<exists>pm'. release_all itr s pm = Inr pm' \<and> calls itr pm pm' \<and> length (pm_pieces pm') = length (pm_pieces pm) \<and>
    (\<forall>j < length (pm_pieces pm). pm_pieces pm' ! j =
       (if int j \<in> set (se_active s) \<union> fst ` set (se_in_flight s) \<and> p_state (pm_pieces pm ! j) \<noteq> COMPLETE
        then piece_reset (pm_pieces pm ! j) else pm_pieces pm ! j))"
proof -
  have "set (itr (set (se_active s) \<union> fst ` set (se_in_flight s))) = set (se_active s) \<union> fst ` set (se_in_flight s)"
    using assms(2) by (simp add: set_order_def)
  with release_list_effect [OF assms(1,2), of "itr (set (se_active s) \<union> fst ` set (se_in_flight s))"] assms(3)
  show ?thesis unfolding release_all_def session_ok_def by simp
qed

subsection \<open>What one step of a task does\<close>

text \<open>
  The pieces that are PENDING after a step are held by this session, or they were PENDING before
  and not this session's.
\<close>

definition keeps_hold :: "piece_manager \<Rightarrow> session \<Rightarrow> piece_manager \<Rightarrow> session \<Rightarrow> bool" where
  "keeps_hold pm s pm' s' \<longleftrightarrow> (\<forall>j < length (pm_pieces pm). p_state (pm_pieces pm' ! j) = PENDING \<longrightarrow>
     int j \<in> set (se_active s') \<or> p_state (pm_pieces pm ! j) = PENDING \<and> int j \<notin> set (se_active s))"

text \<open>Only the pieces of \<open>D\<close> became COMPLETE.\<close>

definition good_step ::
  "(int set \<Rightarrow> int list) \<Rightarrow> int set \<Rightarrow> piece_manager \<Rightarrow> session \<Rightarrow> piece_manager \<Rightarrow> session \<Rightarrow> bool" where
  "good_step itr D pm s pm' s' \<longleftrightarrow> calls itr pm pm' \<and> session_ok (length (pm_pieces pm)) s' \<and> keeps_hold pm s pm' s' \<and>
     (\<forall>j < length (pm_pieces pm). p_state (pm_pieces pm' ! j) = COMPLETE \<longrightarrow>
        p_state (pm_pieces pm ! j) = COMPLETE \<or> int j \<in> D)"

text \<open>A step that only touches the connection, or the availability of pieces.\<close>

lemma good_step_same:
  assumes "session_ok (length (pm_pieces pm)) s" "calls itr pm pm'" "pm_pieces pm' = pm_pieces pm"
    and "se_active s' = se_active s" "se_in_flight s' = se_in_flight s"
  shows "good_step itr {} pm s pm' s'"
  using assms by (auto simp: good_step_def keeps_hold_def session_ok_def)

lemma record_availability_calls:
  "record_availability peer m pm = Inr pm' \<Longrightarrow> nonneg_fields m \<Longrightarrow> calls itr pm pm' \<and> pm_pieces pm' = pm_pieces pm"
  by (cases m) (auto simp: on_peer_bitfield_def on_peer_have_def res_simps
      intro: calls_one [of itr "OnBitfield k bf" for k bf] calls_one [of itr "OnHave k i" for k i])

subsection \<open>Filling the pipeline\<close>

lemma unrequested_mem:
  assumes "unrequested pm s i = Inr ((off, sz) # u)" "0 \<le> i"
  shows "nat i < length (pm_pieces pm) \<and> (off, sz) \<in> set (missing_blocks (pm_pieces pm ! nat i)) \<and>
    (i, off) \<notin> set (se_in_flight s)"
proof -
  from assms have j: "nat i < length (pm_pieces pm)" and
    f: "filter (\<lambda>(off, sz). (i, off) \<notin> set (se_in_flight s)) (missing_blocks (pm_pieces pm ! nat i)) = (off, sz) # u"
    by (auto simp: unrequested_def py_get_def py_index_nonneg res_simps split: if_splits)
  from f have "(off, sz) \<in> set (filter (\<lambda>(off, sz). (i, off) \<notin> set (se_in_flight s)) (missing_blocks (pm_pieces pm ! nat i)))"
    by simp
  with j show ?thesis by simp
qed

lemma first_unrequested_Some:
  "first_unrequested pm s act = Inr (Some (i, off, sz)) \<Longrightarrow> i \<in> set act \<and> (\<exists>u. unrequested pm s i = Inr ((off, sz) # u))"
  by (induction act) (auto simp: res_simps split: list.splits)

lemma first_unrequested_None:
  "first_unrequested pm s act = Inr None \<Longrightarrow> i \<in> set act \<Longrightarrow> unrequested pm s i = Inr []"
  by (induction act) (auto simp: res_simps split: list.splits)

lemma request_block_effect:
  "request_block drain i off sz s = (r, s') \<Longrightarrow> se_active s' = se_active s \<and>
     se_in_flight s' = (case r of Inl _ \<Rightarrow> se_in_flight s | Inr _ \<Rightarrow> List.insert (i, off) (se_in_flight s))"
  by (auto simp: request_block_def split: prod.splits sum.splits)

lemma session_ok_request:
  assumes "session_ok n s" "length (se_in_flight s) < PIPELINE_DEPTH" "i \<in> set (se_active s)"
    and "request_block drain i off sz s = (r, s')"
  shows "session_ok n s'"
  using assms request_block_effect [OF assms(4)]
  by (auto simp: session_ok_def List.insert_def split: sum.splits)

lemma good_step_request:
  assumes "session_ok (length (pm_pieces pm)) s" "length (se_in_flight s) < PIPELINE_DEPTH" "i \<in> set (se_active s)"
    and "request_block drain i off sz s = (r, s')"
  shows "good_step itr {} pm s pm s'"
  using session_ok_request [OF assms] request_block_effect [OF assms(4)]
  by (auto simp: good_step_def keeps_hold_def)

text \<open>A newly selected piece is the only one that becomes PENDING, and the session holds it.\<close>

lemma good_step_select:
  assumes "select_piece itr peer pm = Inr (Some i, pm1)" "pm_ok pm" "set_order itr"
    and "session_ok (length (pm_pieces pm)) s"
  shows "good_step itr {} pm s pm1 (s\<lparr>se_active := se_active s @ [i]\<rparr>) \<and> length (pm_pieces pm1) = length (pm_pieces pm)"
proof -
  from select_piece_Some [OF assms(1,3,2)] obtain j where j: "i = int j" "j < length (pm_pieces pm)"
      "pm1 = (put_piece j ((pm_pieces pm ! j)\<lparr>p_state := PENDING\<rparr>) pm)\<lparr>pm_pending := insert i (pm_pending pm)\<rparr>"
    by blast
  have "calls itr pm pm1" using assms(1) by (intro calls_one [of itr "SelectPiece peer"]) simp_all
  with j assms(4) show ?thesis
    by (auto simp: good_step_def session_ok_def keeps_hold_def put_piece_def nth_list_update split: if_splits)
qed

lemma good_step_trans:
  assumes "good_step itr {} pm s pm1 s1" "good_step itr {} pm1 s1 pm2 s2" "length (pm_pieces pm1) = length (pm_pieces pm)"
  shows "good_step itr {} pm s pm2 s2"
  using assms calls_trans by (auto simp: good_step_def keeps_hold_def)

text \<open>The ways one round of filling can go.\<close>

lemma fill_once_cases:
  assumes "fill_once itr drain peer pm s = (r, pm', s')"
  obtains (same) "pm' = pm" "s' = s"
  | (request) i off sz r1 where "i \<in> set (se_active s)" "pm' = pm" "request_block drain i off sz s = (r1, s')"
  | (none) "select_piece itr peer pm = Inr (None, pm')" "s' = s"
  | (select) i where "select_piece itr peer pm = Inr (Some i, pm')" "s' = s\<lparr>se_active := se_active s @ [i]\<rparr>"
  | (select_request) i off sz r1 where "select_piece itr peer pm = Inr (Some i, pm')"
      "request_block drain i off sz (s\<lparr>se_active := se_active s @ [i]\<rparr>) = (r1, s')"
  using assms
  by (auto simp: fill_once_def Let_def dest: first_unrequested_Some
      split: sum.splits option.splits list.splits prod.splits)

lemma fill_once_good:
  assumes "fill_once itr drain peer pm s = (r, pm', s')" "pm_ok pm" "set_order itr"
    and "session_ok (length (pm_pieces pm)) s" "length (se_in_flight s) < PIPELINE_DEPTH"
  shows "good_step itr {} pm s pm' s'"
  using assms(1)
proof (cases rule: fill_once_cases)
  case same
  with assms(4) show ?thesis by (auto intro: good_step_same)
next
  case (request i off sz r1)
  with good_step_request [OF assms(4,5)] show ?thesis by blast
next
  case none
  with select_piece_None assms(2,3) have "pm' = pm" by blast
  with none(2) assms(4) show ?thesis by (auto intro: good_step_same)
next
  case (select i)
  with good_step_select [OF select(1) assms(2,3,4)] show ?thesis by simp
next
  case (select_request i off sz r1)
  let ?s = "s\<lparr>se_active := se_active s @ [i]\<rparr>"
  from good_step_select [OF select_request(1) assms(2,3,4)] have g: "good_step itr {} pm s pm' ?s"
    and l: "length (pm_pieces pm') = length (pm_pieces pm)" by simp_all
  have "session_ok (length (pm_pieces pm')) ?s" using g l by (simp add: good_step_def)
  from good_step_request [OF this _ _ select_request(2)] assms(5) good_step_trans [OF g _ l] show ?thesis by simp
qed

subsection \<open>Every step is good\<close>

lemma outcome_simps [simp]:
  "oc_pm (outcome pm s ph) = pm" "oc_session (outcome pm s ph) = s" "oc_phase (outcome pm s ph) = ph"
  "oc_delivered (outcome pm s ph) = []" "oc_done (outcome pm s ph) = False"
  by (simp_all add: outcome_def)

text \<open>What one step must not break, and what it hands to the callback.\<close>

definition good_outcome :: "(int set \<Rightarrow> int list) \<Rightarrow> piece_manager \<Rightarrow> session \<Rightarrow> outcome \<Rightarrow> bool" where
  "good_outcome itr pm s oc \<longleftrightarrow> good_step itr (fst ` set (oc_delivered oc)) pm s (oc_pm oc) (oc_session oc) \<and>
     (\<forall>(i, d) \<in> set (oc_delivered oc). 0 \<le> i \<and> get_piece_data (oc_pm oc) i = Inr d) \<and>
     (oc_done oc \<longrightarrow> is_done (oc_pm oc))"

lemma good_outcome_simps [simp]:
  "good_outcome itr pm s (outcome pm' s' ph) = good_step itr {} pm s pm' s'"
  "good_outcome itr pm s ((outcome pm' s' ph)\<lparr>oc_done := True\<rparr>) = (good_step itr {} pm s pm' s' \<and> is_done pm')"
  "good_outcome itr pm s ((outcome pm' s' ph)\<lparr>oc_delivered := [(i, d)]\<rparr>) =
     (good_step itr {i} pm s pm' s' \<and> 0 \<le> i \<and> get_piece_data pm' i = Inr d)"
  by (auto simp: good_outcome_def)

lemma add_block_hold:
  assumes "add_block i off data pm = Inr (ok, pm')" "0 \<le> i" "pm_ok pm"
  shows "calls itr pm pm' \<and> length (pm_pieces pm') = length (pm_pieces pm) \<and> nat i < length (pm_pieces pm) \<and>
    (ok \<longrightarrow> p_state (pm_pieces pm' ! nat i) = COMPLETE) \<and>
    (\<forall>j < length (pm_pieces pm). p_state (pm_pieces pm' ! j) = PENDING \<longrightarrow> p_state (pm_pieces pm ! j) = PENDING) \<and>
    (\<forall>j < length (pm_pieces pm). p_state (pm_pieces pm' ! j) = COMPLETE \<longrightarrow>
        p_state (pm_pieces pm ! j) = COMPLETE \<or> int j \<in> (if ok then {i} else {}))"
proof -
  have c: "calls itr pm pm'" using assms by (intro calls_one [of itr "AddBlock i off data"]) simp_all
  from add_block_Inr [OF assms(1,2)] obtain j p where j: "i = int j" "j < length (pm_pieces pm)"
      and p: "piece_add_block (pm_pieces pm ! j) off data = Inr p"
      and r: "if is_complete_raw p
       then \<exists>p'. piece_verify p = (ok, p') \<and> pm' = (put_piece j p' pm)\<lparr>pm_pending := pm_pending pm - {int j}\<rparr>
       else \<not> ok \<and> pm' = put_piece j p pm" by blast
  note pok = pm_ok_piece [OF assms(3) j(2)]
  show ?thesis
  proof (cases "is_complete_raw p")
    case True
    with r obtain p' where p': "piece_verify p = (ok, p')"
      "pm' = (put_piece j p' pm)\<lparr>pm_pending := pm_pending pm - {int j}\<rparr>" by auto
    with piece_verify_ok [OF pok p True p'(1)] j c show ?thesis by (auto simp: put_piece_def nth_list_update)
  next
    case False
    with r piece_partial_ok [OF pok p False] j c show ?thesis by (auto simp: put_piece_def nth_list_update)
  qed
qed

lemma session_ok_less:
  "session_ok n s \<Longrightarrow> set (se_active s') \<subseteq> set (se_active s) \<Longrightarrow> se_in_flight s' = removeAll x (se_in_flight s) \<Longrightarrow>
     session_ok n s'"
  unfolding session_ok_def
  by (auto simp: distinct_removeAll intro: order_trans [OF length_removeAll_less_eq])

lemma good_step_drop:
  assumes "calls itr pm pm'" "session_ok (length (pm_pieces pm)) s" "0 \<le> i"
    and "se_in_flight s' = removeAll x (se_in_flight s)"
    and "se_active s' = se_active s \<or> se_active s' = remove1 i (se_active s) \<and> p_state (pm_pieces pm' ! nat i) \<noteq> PENDING"
    and "\<forall>j < length (pm_pieces pm). p_state (pm_pieces pm' ! j) = PENDING \<longrightarrow> p_state (pm_pieces pm ! j) = PENDING"
    and "\<forall>j < length (pm_pieces pm). p_state (pm_pieces pm' ! j) = COMPLETE \<longrightarrow>
        p_state (pm_pieces pm ! j) = COMPLETE \<or> int j \<in> D"
  shows "good_step itr D pm s pm' s'"
proof -
  have "set (se_active s') \<subseteq> set (se_active s)" using assms(5) set_remove1_subset by fastforce
  with assms(2,4) have "session_ok (length (pm_pieces pm)) s'" by (blast intro: session_ok_less)
  moreover have "int j \<in> set (se_active s') \<or> int j \<notin> set (se_active s)"
    if "p_state (pm_pieces pm' ! j) = PENDING" for j
    using assms(3,5) that by (cases "int j = i") (auto simp: in_set_remove1)
  ultimately show ?thesis using assms(1,6,7) by (auto simp: good_step_def keeps_hold_def)
qed

lemma piece_message_good:
  assumes "0 \<le> i" "pm_ok pm" "session_ok (length (pm_pieces pm)) s"
  shows "good_outcome itr pm s (piece_message_step i off d pm s)"
proof (cases "add_block i off d pm")
  case (Inl e)
  with good_step_drop [OF calls_refl assms(3,1)] show ?thesis by (simp add: piece_message_step_def Let_def)
next
  case (Inr x)
  obtain ok pm1 where x: "x = (ok, pm1)" by fastforce
  note hold = add_block_hold [OF Inr [unfolded x] assms(1,2), of itr]
  note drop = good_step_drop [OF _ assms(3,1), of itr pm1]
  show ?thesis
  proof (cases ok)
    case True
    have "get_piece_data pm1 i = Inr (assemble (pm_pieces pm1 ! nat i))"
      using hold True assms(1) nat_less_iff [of i "length (pm_pieces pm)"]
      by (simp add: get_piece_data_def py_get_def py_index_nonneg piece_data_def)
    with True hold drop Inr x assms(1) show ?thesis
      by (auto simp: piece_message_step_def Let_def)
  next
    case False
    have "py_get (pm_pieces pm1) i = Inr (pm_pieces pm1 ! nat i)"
      using hold assms(1) nat_less_iff [of i "length (pm_pieces pm)"] by (simp add: py_get_def py_index_nonneg)
    with False hold drop Inr x show ?thesis
      by (auto simp: piece_message_step_def Let_def)
  qed
qed

lemma choke_good:
  assumes "pm_ok pm" "set_order itr" "session_ok (length (pm_pieces pm)) s"
  shows "good_outcome itr pm s (choke_step itr pm s)"
proof -
  from release_all_effect [OF assms] obtain pm' where r: "release_all itr s pm = Inr pm'" "calls itr pm pm'"
    "\<forall>j < length (pm_pieces pm). pm_pieces pm' ! j =
       (if int j \<in> set (se_active s) \<union> fst ` set (se_in_flight s) \<and> p_state (pm_pieces pm ! j) \<noteq> COMPLETE
        then piece_reset (pm_pieces pm ! j) else pm_pieces pm ! j)" by blast
  then have "keeps_hold pm s pm' (s\<lparr>se_in_flight := [], se_active := []\<rparr>)"
    by (auto simp: keeps_hold_def split: if_splits)
  with r show ?thesis by (simp add: choke_step_def good_step_def session_ok_def)
qed

lemma receive_good:
  assumes "pm_ok pm" "set_order itr" "session_ok (length (pm_pieces pm)) s"
  shows "good_outcome itr pm s (receive_step itr key evs pm s)"
proof -
  obtain r c where r: "await_message evs (se_conn s) = (r, c)" by fastforce
  have ok: "session_ok (length (pm_pieces pm)) (s\<lparr>se_conn := c\<rparr>)" using assms(3) by (simp add: session_ok_def)
  have conn: "good_outcome itr pm (s\<lparr>se_conn := c\<rparr>) oc = good_outcome itr pm s oc" for oc
    by (simp add: good_outcome_def good_step_def keeps_hold_def)
  note same = good_step_same [OF assms(3)]
  show ?thesis
  proof (cases r)
    case (Inl e)
    with r same show ?thesis by (simp add: receive_step_def)
  next
    case (Inr m)
    from await_nonneg r Inr have nn: "nonneg_fields m" by blast
    show ?thesis
    proof (cases m)
      case (PieceMessage i b d)
      with piece_message_good [OF _ assms(1) ok, of i itr b d] nn show ?thesis
        unfolding conn by (simp add: receive_step_def r Inr)
    next
      case ChokeMessage
      with choke_good [OF assms(1,2) ok] show ?thesis unfolding conn by (simp add: receive_step_def r Inr)
    next
      case (HaveMessage i)
      with record_availability_calls [of "peer_key c key" m pm] nn same show ?thesis
        by (auto simp: receive_step_def r Inr Let_def split: sum.split)
    qed (use r Inr same in \<open>simp_all add: receive_step_def Let_def\<close>)
  qed
qed

lemma availability_good:
  assumes "session_ok (length (pm_pieces pm)) s" "await_message evs (se_conn s) = (Inr m, c)"
    and "record_availability peer m pm = Inr pm'"
  shows "good_step itr {} pm s pm' (s\<lparr>se_conn := c\<rparr>)"
  using assms(1) await_nonneg [OF assms(2)] record_availability_calls [OF assms(3)] by (intro good_step_same) auto

lemma fill_good:
  assumes "pm_ok pm" "set_order itr" "session_ok (length (pm_pieces pm)) s"
  shows "good_outcome itr pm s (fill_step itr key drain pm s)"
proof -
  have after: "good_outcome itr pm s (after_fill pm' s')" if "good_step itr {} pm s pm' s'" for pm' s'
    using that by (simp add: after_fill_def)
  have same: "good_step itr {} pm s pm s" using assms(3) by (intro good_step_same) auto
  show ?thesis
  proof (cases "length (se_in_flight s) < PIPELINE_DEPTH")
    case True
    then show ?thesis
      using fill_once_good [OF _ assms True] after same
      by (auto simp: fill_step_def split: sum.split prod.split bool.split)
  next
    case False
    with after [OF same] show ?thesis by (simp add: fill_step_def)
  qed
qed

theorem task_step_good:
  assumes "pm_ok pm" "set_order itr" "session_ok (length (pm_pieces pm)) s"
  shows "good_outcome itr pm s (task_step itr key drain evs pm s ph)"
proof (cases ph)
  case Starting
  then show ?thesis
    using assms(3) by (auto simp: task_step_def start_step_def intro: good_step_same split: prod.split sum.split)
next
  case (Waiting n)
  then show ?thesis
    using assms(3) availability_good [OF assms(3), of evs]
    by (auto simp: task_step_def waiting_step_def Let_def intro: good_step_same split: prod.split sum.split)
next
  case Looping
  then show ?thesis using assms(3) by (auto simp: task_step_def loop_step_def intro: good_step_same)
next
  case Filling
  with fill_good [OF assms] show ?thesis by (simp add: task_step_def)
next
  case Idle
  then show ?thesis
    using assms(3) availability_good [OF assms(3), of evs]
    by (auto simp: task_step_def idle_step_def Let_def intro: good_step_same split: prod.split sum.split)
next
  case Receiving
  with receive_good [OF assms] show ?thesis by (simp add: task_step_def)
qed (use assms(3) in \<open>auto simp: task_step_def intro: good_step_same\<close>)

subsection \<open>The invariant of the pool\<close>

definition held :: "pool \<Rightarrow> bool" where
  "held po \<longleftrightarrow> (\<forall>j < length (pm_pieces (po_pm po)). p_state (pm_pieces (po_pm po) ! j) = PENDING \<longrightarrow>
     (\<exists>(i, t) \<in> set (po_running po). int j \<in> set (se_active (tk_session t))))"

definition verified_log :: "pool \<Rightarrow> bool" where
  "verified_log po \<longleftrightarrow> (\<forall>(i, d) \<in> set (po_log po). 0 \<le> i \<and> nat i < length (pm_pieces (po_pm po)) \<and>
     sha1 d = p_hash (pm_pieces (po_pm po) ! nat i))"

text \<open>Every piece that was completed has been handed to the callback.\<close>

definition logged :: "pool \<Rightarrow> bool" where
  "logged po \<longleftrightarrow> (\<forall>j < length (pm_pieces (po_pm po)). p_state (pm_pieces (po_pm po) ! j) = COMPLETE \<longrightarrow>
     int j \<in> fst ` set (po_log po))"

definition pool_ok :: "pool \<Rightarrow> bool" where
  "pool_ok po \<longleftrightarrow> pm_ok (po_pm po) \<and> dict_ok (po_sessions po) \<and> num_connected po \<le> max 0 (po_max_peers po) \<and>
     dict_ok (po_running po) \<and>
     (\<forall>(i, t) \<in> set (po_running po). i < po_next po \<and> session_ok (length (pm_pieces (po_pm po))) (tk_session t)) \<and>
     (\<not> po_stopping po \<longrightarrow> held po) \<and> verified_log po \<and> logged po"

lemma pool_ok_new: "pm_ok pm \<Longrightarrow> (\<forall>p \<in> set (pm_pieces pm). p_state p = NEEDED) \<Longrightarrow> pool_ok (new_pool pm ih pid n)"
  by (auto simp: pool_ok_def new_pool_def num_connected_def dict_ok_def held_def verified_log_def logged_def)

lemma verified_log_calls:
  assumes "verified_log po" "calls itr (po_pm po) pm'" "pm_ok (po_pm po)" "set_order itr"
    and "\<forall>(i, d) \<in> set new. 0 \<le> i \<and> get_piece_data pm' i = Inr d"
  shows "verified_log (po\<lparr>po_pm := pm', po_log := po_log po @ new\<rparr>)"
proof -
  from calls_ok [OF assms(2-4)] have ok: "pm_ok pm'" and hs: "map p_hash (pm_pieces pm') = map p_hash (pm_pieces (po_pm po))"
    using layout_hashes by blast+
  then have len: "length (pm_pieces pm') = length (pm_pieces (po_pm po))" by (metis length_map)
  have h: "p_hash (pm_pieces pm' ! k) = p_hash (pm_pieces (po_pm po) ! k)" if "k < length (pm_pieces pm')" for k
    using hs len that by (metis nth_map)
  have "nat i < length (pm_pieces pm') \<and> sha1 d = p_hash (pm_pieces pm' ! nat i)"
    if "0 \<le> i" "get_piece_data pm' i = Inr d" for i d
  proof -
    from that have j: "nat i < length (pm_pieces pm')" and d: "piece_data (pm_pieces pm' ! nat i) = Inr d"
      by (auto simp: get_piece_data_def py_get_def py_index_nonneg res_simps split: if_splits)
    with pm_ok_piece [OF ok j] show ?thesis by (auto simp: piece_data_def piece_ok_def split: if_splits)
  qed
  with assms(1,5) len h show ?thesis by (auto simp: verified_log_def)
qed

text \<open>What the invariant gives for one running task, and for the pieces it does not hold.\<close>

lemma running_task:
  assumes "pool_ok po" "dict_get (po_running po) i = Some t"
  shows "pm_ok (po_pm po)" "session_ok (length (pm_pieces (po_pm po))) (tk_session t)" "i < po_next po"
    "dict_ok (po_running po)"
  using assms map_of_SomeD [OF assms(2)] by (auto simp: pool_ok_def)

lemma held_by_another:
  assumes "pool_ok po" "\<not> po_stopping po" "dict_get (po_running po) i = Some t"
    and "j < length (pm_pieces (po_pm po))" "p_state (pm_pieces (po_pm po) ! j) = PENDING"
    and "int j \<notin> set (se_active (tk_session t))"
  obtains k u where "(k, u) \<in> set (po_running po)" "k \<noteq> i" "int j \<in> set (se_active (tk_session u))"
proof -
  from assms(1,2,4,5) obtain k u where u: "(k, u) \<in> set (po_running po)" "int j \<in> set (se_active (tk_session u))"
    by (auto simp: pool_ok_def held_def)
  have "k \<noteq> i" using u assms(3,6) running_task(4) [OF assms(1,3)] by (auto simp: dict_get_mem)
  with u show thesis by (intro that)
qed

lemma step_task_ok:
  assumes "pool_ok po" "set_order itr" "dict_get (po_running po) i = Some t"
  shows "pool_ok (step_task itr i t drain evs po) \<and> calls itr (po_pm po) (po_pm (step_task itr i t drain evs po))"
proof -
  let ?oc = "task_step itr (tk_key t) drain evs (po_pm po) (tk_session t) (tk_phase t)"
  let ?t = "\<lparr>tk_key = tk_key t, tk_session = oc_session ?oc, tk_phase = oc_phase ?oc\<rparr>"
  let ?po = "step_task itr i t drain evs po"
  note task = running_task [OF assms(1,3)]
  note pm = task(1) and s = task(2) and i = task(3) and dk = task(4)
  from task_step_good [OF pm assms(2) s, of "tk_key t" drain evs "tk_phase t"]
  have c: "calls itr (po_pm po) (oc_pm ?oc)" and s': "session_ok (length (pm_pieces (po_pm po))) (oc_session ?oc)"
    and hold: "keeps_hold (po_pm po) (tk_session t) (oc_pm ?oc) (oc_session ?oc)"
    and log: "\<forall>(i, d) \<in> set (oc_delivered ?oc). 0 \<le> i \<and> get_piece_data (oc_pm ?oc) i = Inr d"
    and new: "\<forall>j < length (pm_pieces (po_pm po)). p_state (pm_pieces (oc_pm ?oc) ! j) = COMPLETE \<longrightarrow>
        p_state (pm_pieces (po_pm po) ! j) = COMPLETE \<or> int j \<in> fst ` set (oc_delivered ?oc)"
    by (simp_all add: good_outcome_def good_step_def)
  have len: "length (pm_pieces (oc_pm ?oc)) = length (pm_pieces (po_pm po))" using calls_length c pm assms(2) by blast
  have run: "set (po_running ?po) = insert (i, ?t) {q \<in> set (po_running po). fst q \<noteq> i}"
    using dk by (simp add: step_task_def Let_def set_dict_set)
  have "held ?po" if "\<not> po_stopping po"
    unfolding held_def
  proof (intro allI impI)
    fix j
    assume "j < length (pm_pieces (po_pm ?po))" "p_state (pm_pieces (po_pm ?po) ! j) = PENDING"
    then have j: "j < length (pm_pieces (po_pm po))" "p_state (pm_pieces (oc_pm ?oc) ! j) = PENDING"
      using len by (simp_all add: step_task_def Let_def)
    with hold consider "int j \<in> set (se_active (oc_session ?oc))"
      | "p_state (pm_pieces (po_pm po) ! j) = PENDING" "int j \<notin> set (se_active (tk_session t))"
      by (auto simp: keeps_hold_def)
    then show "\<exists>(i, t) \<in> set (po_running ?po). int j \<in> set (se_active (tk_session t))"
    proof cases
      case 1
      then show ?thesis unfolding run by simp
    next
      case 2
      from held_by_another [OF assms(1) that assms(3) j(1) 2] show ?thesis unfolding run by auto
    qed
  qed
  moreover have "verified_log ?po"
    using verified_log_calls [OF _ c pm assms(2) log] assms(1)
    by (simp add: pool_ok_def step_task_def Let_def verified_log_def)
  moreover have "logged ?po"
    using assms(1) new len by (auto simp: pool_ok_def logged_def step_task_def Let_def image_Un)
  moreover have "\<forall>(k, u) \<in> set (po_running ?po). k < po_next ?po \<and> session_ok (length (pm_pieces (po_pm ?po))) (tk_session u)"
    unfolding run using assms(1) s' i len by (auto simp: pool_ok_def step_task_def Let_def)
  ultimately show ?thesis
    using assms(1) calls_ok [OF c pm assms(2)] c dk
    by (simp add: pool_ok_def step_task_def Let_def num_connected_def dict_ok_set)
qed

text \<open>A session that ends gives up its pieces and so leaves none of them PENDING.\<close>

lemma disconnect_ok:
  assumes "pool_ok po" "set_order itr" "dict_get (po_running po) i = Some t"
  shows "pool_ok (disconnect itr i t po) \<and> calls itr (po_pm po) (po_pm (disconnect itr i t po))"
proof -
  note task = running_task [OF assms(1,3)]
  note pm = task(1) and s = task(2) and dk = task(4)
  from release_all_effect [OF pm assms(2) s] obtain pm' where
    r: "release_all itr (tk_session t) (po_pm po) = Inr pm'" "calls itr (po_pm po) pm'"
      "length (pm_pieces pm') = length (pm_pieces (po_pm po))" and
    eff: "\<forall>j < length (pm_pieces (po_pm po)). pm_pieces pm' ! j =
       (if int j \<in> set (se_active (tk_session t)) \<union> fst ` set (se_in_flight (tk_session t)) \<and>
           p_state (pm_pieces (po_pm po) ! j) \<noteq> COMPLETE
        then piece_reset (pm_pieces (po_pm po) ! j) else pm_pieces (po_pm po) ! j)" by blast
  let ?po = "disconnect itr i t po"
  have po: "po_pm ?po = pm'" "po_running ?po = dict_pop i (po_running po)" "po_log ?po = po_log po"
    "po_stopping ?po = po_stopping po" "po_next ?po = po_next po" "po_max_peers ?po = po_max_peers po"
    "po_sessions ?po = dict_pop (tk_key t) (po_sessions po)"
    using r(1) by (simp_all add: disconnect_def Let_def)
  have "held ?po" if "\<not> po_stopping po"
    unfolding held_def
  proof (intro allI impI)
    fix j
    assume j: "j < length (pm_pieces (po_pm ?po))" "p_state (pm_pieces (po_pm ?po) ! j) = PENDING"
    with eff po r(3) have "p_state (pm_pieces (po_pm po) ! j) = PENDING" "int j \<notin> set (se_active (tk_session t))"
      by (auto split: if_splits)
    with held_by_another [OF assms(1) that assms(3)] j(1) po r(3)
    obtain k u where "(k, u) \<in> set (po_running po)" "k \<noteq> i" "int j \<in> set (se_active (tk_session u))" by metis
    then show "\<exists>(i, t) \<in> set (po_running ?po). int j \<in> set (se_active (tk_session t))"
      unfolding po by (auto simp: set_dict_pop)
  qed
  moreover have "verified_log ?po"
    using verified_log_calls [OF _ r(2) pm assms(2), of "[]"] assms(1) po by (simp add: pool_ok_def verified_log_def)
  moreover have "logged ?po"
    using assms(1) eff r(3) po by (auto simp: pool_ok_def logged_def split: if_splits)
  moreover have "num_connected ?po \<le> max 0 (po_max_peers po)"
    using assms(1) length_dict_pop [of "tk_key t" "po_sessions po"] po
    by (simp add: pool_ok_def num_connected_def)
  ultimately show ?thesis
    using assms(1) calls_ok [OF r(2) pm assms(2)] r(2,3) po
    by (auto simp: pool_ok_def num_connected_def set_dict_pop)
qed

lemma disconnect_max: "po_max_peers (disconnect itr i t po) = po_max_peers po"
  by (simp add: disconnect_def Let_def split: sum.split)

text \<open>Operations that leave the piece manager and the callback's log alone.\<close>

lemma pool_ok_same:
  assumes "pool_ok po" "po_pm po' = po_pm po" "po_log po' = po_log po" "po_max_peers po' = po_max_peers po"
    and "po_stopping po' \<longleftrightarrow> po_stopping po" "po_running po' = po_running po" "po_next po' = po_next po"
    and "dict_ok (po_sessions po')" "num_connected po' \<le> max 0 (po_max_peers po)"
  shows "pool_ok po'"
  using assms by (simp add: pool_ok_def held_def verified_log_def logged_def)

lemma register_session_ok:
  assumes "pool_ok po"
  shows "pool_ok (register_session key conn po) \<and> po_pm (register_session key conn po) = po_pm po"
proof (cases "num_connected po \<ge> po_max_peers po")
  case True
  with assms show ?thesis by (simp add: register_session_def)
next
  case False
  let ?t = "\<lparr>tk_key = key, tk_session = new_session conn, tk_phase = Starting\<rparr>"
  have run: "set (dict_set (po_next po) ?t (po_running po)) = insert (po_next po, ?t) (set (po_running po))"
    using assms by (auto simp: pool_ok_def set_dict_set)
  have "held (register_session key conn po)" if "\<not> po_stopping po"
    using assms that False run by (fastforce simp: pool_ok_def held_def register_session_def)
  moreover have "session_ok n (new_session conn)" for n by (simp add: session_ok_def new_session_def)
  ultimately show ?thesis
    using assms False run length_dict_set [of key "po_next po" "po_sessions po"]
    by (auto simp: pool_ok_def register_session_def verified_log_def num_connected_def logged_def)
qed

lemma finish_connect_ok:
  assumes "pool_ok po"
  shows "pool_ok (finish_connect ip port dial drain evs po) \<and> po_pm (finish_connect ip port dial drain evs po) = po_pm po"
proof -
  let ?po = "po\<lparr>po_adding := remove1 (ip, port) (po_adding po)\<rparr>"
  have ok: "pool_ok ?po"
    using assms by (intro pool_ok_same [OF assms]) (simp_all add: num_connected_def pool_ok_def)
  with register_session_ok [OF this] show ?thesis
    by (auto simp: finish_connect_def Let_def split: prod.split sum.split)
qed

lemma check_peer_ok: "pool_ok po \<Longrightarrow> pool_ok (check_peer ip port po) \<and> po_pm (check_peer ip port po) = po_pm po"
  by (auto simp: check_peer_def pool_ok_def num_connected_def held_def verified_log_def logged_def split: sum.split)

lemma shutdown_running:
  assumes "(i, t') \<in> set (po_running (shutdown_cancel po))"
  shows "\<exists>t. (i, t) \<in> set (po_running po) \<and> tk_session t' = tk_session t"
  using assms by (auto simp: shutdown_cancel_def cancel_task_def split: if_splits)

lemma dict_ok_concat:
  assumes "\<And>k v. f (k, v) = [] \<or> (\<exists>v'. f (k, v) = [(k, v')])" "dict_ok d"
  shows "dict_ok (concat (map f d))"
  using assms(2)
proof (induction d)
  case (Cons p d)
  obtain k v where p: "p = (k, v)" by (cases p)
  have "fst ` set (concat (map f d)) \<subseteq> fst ` set d"
  proof
    fix x
    assume "x \<in> fst ` set (concat (map f d))"
    then obtain q y where "q \<in> set d" "(x, y) \<in> set (f q)" by auto
    with assms(1) [of "fst q" "snd q"] show "x \<in> fst ` set d" by force
  qed
  with Cons assms(1) [of k v] show ?case unfolding p by auto
qed simp

lemma shutdown_cancel_ok:
  assumes "pool_ok po"
  shows "pool_ok (shutdown_cancel po)"
proof -
  have "dict_ok (po_running (shutdown_cancel po))"
    using assms dict_ok_concat [of "\<lambda>(i, t). if i \<in> snd ` set (po_tasks po) then
        (case cancel_task t of None \<Rightarrow> [] | Some t' \<Rightarrow> [(i, t')]) else [(i, t)]" "po_running po"]
    by (simp add: shutdown_cancel_def cancel_task_def pool_ok_def)
  moreover have "i < po_next po \<and> session_ok (length (pm_pieces (po_pm po))) (tk_session t)"
    if "(i, t) \<in> set (po_running (shutdown_cancel po))" for i t
    using shutdown_running [OF that] assms by (auto simp: pool_ok_def)
  moreover have "po_pm (shutdown_cancel po) = po_pm po" "po_sessions (shutdown_cancel po) = po_sessions po"
    "po_max_peers (shutdown_cancel po) = po_max_peers po" "po_next (shutdown_cancel po) = po_next po"
    "po_log (shutdown_cancel po) = po_log po" "po_stopping (shutdown_cancel po)"
    by (simp_all add: shutdown_cancel_def)
  ultimately show ?thesis
    using assms by (auto simp: pool_ok_def num_connected_def verified_log_def logged_def)
qed

lemma pool_exec_ok:
  assumes "pool_exec itr op po = Inr po'" "set_order itr" "pool_ok po"
  shows "pool_ok po' \<and> calls itr (po_pm po) (po_pm po') \<and> po_max_peers po' = po_max_peers po"
proof (cases op)
  case (CheckPeer ip port)
  with assms check_peer_ok [OF assms(3), of ip port] show ?thesis
    by (auto simp: check_peer_def split: sum.splits if_splits)
next
  case (FinishConnect ip port dial drain evs)
  with assms finish_connect_ok [OF assms(3), of ip port dial drain evs] show ?thesis
    by (auto simp: finish_connect_def Let_def register_session_def split: sum.splits if_splits prod.splits)
next
  case (RecordTask key i)
  with assms show ?thesis
    by (auto simp: record_task_def pool_ok_def num_connected_def held_def verified_log_def logged_def split: if_splits)
next
  case (StepTask i drain evs)
  with assms step_task_ok [OF assms(3,2)] show ?thesis
    by (auto simp: step_task_def Let_def split: option.splits if_splits)
next
  case (Disconnect i)
  with assms disconnect_ok [OF assms(3,2)] disconnect_max show ?thesis by (auto split: option.splits if_splits)
next
  case ShutdownCancel
  with assms shutdown_cancel_ok [OF assms(3)] show ?thesis by (auto simp: shutdown_cancel_def)
next
  case ShutdownClear
  with assms show ?thesis
    by (auto simp: shutdown_clear_def pool_ok_def num_connected_def held_def verified_log_def logged_def split: if_splits)
qed

text \<open>The pool as an object driven by operations, started with the piece manager \<open>pm0\<close>.\<close>

interpretation poolc: framed_operations "pool_exec itr" "\<lambda>op. set_order itr"
    "\<lambda>po. pool_ok po \<and> calls itr pm0 (po_pm po)" po_max_peers
  for itr pm0
  by unfold_locales (use pool_exec_ok calls_trans in blast)+

lemma pool_reached:
  assumes "make_manager hs pl tot = Inr pm0" "set_order itr"
    and "po = run_ops (pool_exec itr) ops (new_pool pm0 ih pid n)"
  shows "pool_ok po \<and> calls itr pm0 (po_pm po) \<and> po_max_peers po = n \<and> map p_hash (pm_pieces (po_pm po)) = hs"
proof -
  have pm: "pm_ok pm0" using assms(1) by (rule make_manager_ok)
  have "p_state p = NEEDED" if "p \<in> set (pm_pieces pm0)" for p
    using make_manager_Inr [OF assms(1)] that make_piece_ok by (metis in_set_conv_nth)
  then have "pool_ok (new_pool pm0 ih pid n)" using pool_ok_new pm by blast
  then have ok: "pool_ok (new_pool pm0 ih pid n) \<and> calls itr pm0 (po_pm (new_pool pm0 ih pid n))"
    by (simp add: new_pool_def)
  have inv: "pool_ok po \<and> calls itr pm0 (po_pm po)" "po_max_peers po = n"
    using poolc.run_inv [of ops itr, OF _ ok] poolc.run_frame [of ops itr, OF _ ok] assms(2,3)
    by (simp_all add: new_pool_def)
  with layout_hashes [of "po_pm po" pm0] calls_ok [of itr pm0 "po_pm po"] pm assms(2) make_manager_hashes [OF assms(1)]
  show ?thesis by metis
qed

end
