(* ===== verification/PoolDemo.thy ===== *)
theory PoolDemo
  imports PoolSafety
begin

section \<open>A run of the pool\<close>

text \<open>
  One torrent with one piece of one byte and one peer, from the connection to the end of the
  session, evaluated step by step: the peer answers our handshake, announces its piece,
  unchokes us, is asked for the block and sends it; the piece is verified, handed to the
  callback, and the pool is done.  The theorems on the pool are applied to this run.
\<close>

definition demo_manager :: piece_manager where
  "demo_manager = \<lparr>pm_piece_length = 4, pm_total_length = 1, pm_num_pieces = 1,
     pm_pieces = [\<lparr>p_index = 0, p_length = 1, p_hash = sha1 [7], p_state = NEEDED, p_blocks = [], p_received = 0\<rparr>],
     pm_peer_pieces = [], pm_pending = {}\<rparr>"

lemma demo_manager: "make_manager [sha1 [7]] 4 1 = Inr demo_manager"
  by (simp add: make_manager_def piece_length_at_def make_piece_def demo_manager_def)

definition demo_pool :: "bytes \<Rightarrow> bytes \<Rightarrow> pool" where
  "demo_pool ih pid = new_pool demo_manager ih pid 30"

definition demo_answer :: "bytes \<Rightarrow> bytes" where
  "demo_answer ih = 19 # PROTOCOL_NAME @ replicate 8 0 @ ih @ replicate 20 3"

definition demo_connection :: "bytes \<Rightarrow> bytes \<Rightarrow> connection" where
  "demo_connection ih pid = new_connection\<lparr>
     c_reader := Some \<lparr>rd_buffer = [], rd_eof = False, rd_broken = False\<rparr>,
     c_writer := Some \<lparr>wr_sent = 19 # PROTOCOL_NAME @ replicate 8 0 @ ih @ pid, wr_closing = False\<rparr>,
     c_peer_id := Some (replicate 20 3), c_ip := [49], c_port := 80\<rparr>"

lemma demo_connect:
  assumes "length ih = 20" "length pid = 20"
  shows "connect None None [Arrive (demo_answer ih)] [49] 80 ih pid new_connection = (Inr (), demo_connection ih pid, [])"
proof -
  have "parse_handshake (take 68 (19 # PROTOCOL_NAME @ replicate 8 0 @ ih @ replicate 20 3)) = Inr (ih, replicate 20 3)"
    using parse_handshake_complete [of "replicate 8 0" ih "replicate 20 3" "[]"] assms(1) by simp
  with assms show ?thesis
    by (simp add: connect_def do_handshake_def build_handshake_def handshake_errors_def HANDSHAKE_LEN_def Let_def
        read_now_def demo_answer_def write_bytes_def demo_connection_def)
qed

lemma demo_key: "session_key [49] 80 = Inr [49, 58, 56, 48]"
  by (simp add: session_key_def py_dec_def dec_nat.simps max_str_digits_def)

definition demo_ops :: "bytes \<Rightarrow> pool_op list" where
  "demo_ops ih =
     [CheckPeer [49] 80,
      FinishConnect [49] 80 None None [Arrive (demo_answer ih)],
      RecordTask [49, 58, 56, 48] 0,
      StepTask 0 None [],
      StepTask 0 None [Arrive [0, 0, 0, 2, 5, 128]],
      StepTask 0 None [Arrive [0, 0, 0, 1, 1]],
      StepTask 0 None [],
      StepTask 0 None [],
      StepTask 0 None [],
      StepTask 0 None [Arrive [0, 0, 0, 10, 7, 0, 0, 0, 0, 0, 0, 0, 0, 7]],
      StepTask 0 None [],
      StepTask 0 None [],
      Disconnect 0]"

lemmas message_eval = await_message_def receive_message_def is_connected_def read_now_def be_value_def
  feed_all_def decode_message_def mid_of_def word_at_def slice_def

abbreviation demo_session :: "connection \<Rightarrow> (int \<times> int) list \<Rightarrow> int list \<Rightarrow> session" where
  "demo_session c fl act \<equiv> \<lparr>se_conn = c, se_in_flight = fl, se_active = act\<rparr>"

definition demo_state :: "bytes \<Rightarrow> bytes \<Rightarrow> piece_manager \<Rightarrow> session \<Rightarrow> phase \<Rightarrow> (int \<times> bytes) list \<Rightarrow> bool \<Rightarrow> pool" where
  "demo_state ih pid pm s ph log done = (demo_pool ih pid)\<lparr>po_pm := pm, po_sessions := [([49, 58, 56, 48], 0)],
     po_tasks := [([49, 58, 56, 48], 0)],
     po_running := [(0, \<lparr>tk_key = [49, 58, 56, 48], tk_session = s, tk_phase = ph\<rparr>)],
     po_next := 1, po_log := log, po_done := done\<rparr>"

lemma demo_step:
  "ph \<noteq> Leaving \<Longrightarrow> attempt (pool_exec itr) (StepTask 0 drain evs) (demo_state ih pid pm s ph log done) =
     (let oc = task_step itr [49, 58, 56, 48] drain evs pm s ph
      in demo_state ih pid (oc_pm oc) (oc_session oc) (oc_phase oc) (log @ oc_delivered oc) (done \<or> oc_done oc))"
  by (simp add: attempt_def demo_state_def step_task_def Let_def demo_pool_def new_pool_def)

lemma demo_start:
  assumes "length ih = 20" "length pid = 20"
  shows "run_ops (pool_exec itr) (take 3 (demo_ops ih)) (demo_pool ih pid) =
     demo_state ih pid demo_manager (demo_session (demo_connection ih pid) [] []) Starting [] False"
  by (simp add: demo_ops_def run_ops_def attempt_def check_peer_def num_connected_def demo_pool_def new_pool_def demo_key
      finish_connect_def demo_connect assms register_session_def feed_all_def record_task_def demo_state_def new_session_def
      demo_connection_def)

definition demo_c1 :: "bytes \<Rightarrow> bytes \<Rightarrow> connection" where
  "demo_c1 ih pid = (demo_connection ih pid)\<lparr>am_interested := True, c_writer := map_option (\<lambda>w. w\<lparr>wr_sent := wr_sent w @ [0, 0, 0, 1, 2]\<rparr>) (c_writer (demo_connection ih pid))\<rparr>"

definition demo_c2 :: "bytes \<Rightarrow> bytes \<Rightarrow> connection" where
  "demo_c2 ih pid = (demo_c1 ih pid)\<lparr>peer_choking := False\<rparr>"

definition demo_c3 :: "bytes \<Rightarrow> bytes \<Rightarrow> connection" where
  "demo_c3 ih pid = (demo_c2 ih pid)\<lparr>c_writer := map_option (\<lambda>w. w\<lparr>wr_sent := wr_sent w @ [0, 0, 0, 13, 6, 0, 0, 0, 0, 0, 0, 0, 0, 0, 0, 0, 1]\<rparr>) (c_writer (demo_c2 ih pid))\<rparr>"

lemma demo_peer_key: "peer_key (demo_c1 ih pid) key = Inr (replicate 20 3)" "peer_key (demo_c2 ih pid) key = Inr (replicate 20 3)"
  "peer_key (demo_c3 ih pid) key = Inr (replicate 20 3)"
  by (simp_all add: peer_key_def demo_c1_def demo_c2_def demo_c3_def demo_connection_def numeral_eq_Suc)

lemma demo_1:
  "attempt (pool_exec itr) (StepTask 0 None []) (demo_state ih pid demo_manager (demo_session (demo_connection ih pid) [] []) Starting [] False) =
     demo_state ih pid demo_manager (demo_session (demo_c1 ih pid) [] []) (Waiting 25) [] False"
  by (simp add: demo_step task_step_def start_step_def send_message_def demo_connection_def new_connection_def is_connected_def
      frame_def pack_uint_def be_bytes_numeral write_bytes_def Let_def demo_c1_def)

definition demo_m1 :: piece_manager where
  "demo_m1 = on_peer_bitfield (replicate 20 3) [128] demo_manager"

lemma demo_m1: "demo_m1 = demo_manager\<lparr>pm_peer_pieces := [(replicate 20 3, {0})]\<rparr>"
proof -
  have "bitfield_pieces 1 [128] = {0}" by (auto simp: mem_bitfield_pieces bit_numeral_rec)
  then show ?thesis by (simp add: demo_m1_def demo_manager_def on_peer_bitfield_def)
qed

lemma demo_2:
  "attempt (pool_exec itr) (StepTask 0 None [Arrive [0, 0, 0, 2, 5, 128]]) (demo_state ih pid demo_manager (demo_session (demo_c1 ih pid) [] []) (Waiting 25) [] False) =
     demo_state ih pid demo_m1 (demo_session (demo_c1 ih pid) [] []) (Waiting 24) [] False"
proof -
  have "await_message [Arrive [0, 0, 0, 2, 5, 128]] (demo_c1 ih pid) = (Inr (BitfieldMessage [128]), (demo_c1 ih pid))"
    by (simp add: message_eval demo_c1_def demo_connection_def new_connection_def)
  then show ?thesis by (simp add: demo_step task_step_def waiting_step_def demo_peer_key demo_m1_def)
qed

lemma demo_3:
  "attempt (pool_exec itr) (StepTask 0 None [Arrive [0, 0, 0, 1, 1]]) (demo_state ih pid demo_m1 (demo_session (demo_c1 ih pid) [] []) (Waiting 24) [] False) =
     demo_state ih pid demo_m1 (demo_session (demo_c2 ih pid) [] []) Looping [] False"
proof -
  have "await_message [Arrive [0, 0, 0, 1, 1]] (demo_c1 ih pid) = (Inr UnchokeMessage, (demo_c2 ih pid))"
    by (simp add: message_eval demo_c1_def demo_c2_def demo_connection_def new_connection_def)
  then show ?thesis by (simp add: demo_step task_step_def waiting_step_def demo_peer_key)
qed

definition demo_piece :: "piece_state \<Rightarrow> (int \<times> bytes) list \<Rightarrow> int \<Rightarrow> piece" where
  "demo_piece st bs n = \<lparr>p_index = 0, p_length = 1, p_hash = sha1 [7], p_state = st, p_blocks = bs, p_received = n\<rparr>"

definition demo_m2 :: piece_manager where
  "demo_m2 = demo_m1\<lparr>pm_pieces := [demo_piece PENDING [] 0], pm_pending := {0}\<rparr>"

definition demo_m3 :: piece_manager where
  "demo_m3 = demo_m1\<lparr>pm_pieces := [demo_piece COMPLETE [(0, [7])] 1]\<rparr>"

lemmas demo_pm = demo_m1 demo_m2_def demo_m3_def demo_manager_def demo_piece_def

lemma demo_4:
  "attempt (pool_exec itr) (StepTask 0 None []) (demo_state ih pid demo_m1 (demo_session (demo_c2 ih pid) [] []) Looping [] False) =
     demo_state ih pid demo_m1 (demo_session (demo_c2 ih pid) [] []) Filling [] False"
  by (simp add: demo_step task_step_def loop_step_def is_done_def num_complete_def demo_pm)

lemma demo_5:
  "attempt (pool_exec sorted_list_of_set) (StepTask 0 None []) (demo_state ih pid demo_m1 (demo_session (demo_c2 ih pid) [] []) Filling [] False) =
     demo_state ih pid demo_m2 (demo_session (demo_c3 ih pid) [(0, 0)] [0]) Filling [] False"
proof -
  have sel: "select_piece sorted_list_of_set (replicate 20 3) demo_m1 = Inr (Some 0, demo_m2)"
    by (simp add: select_piece_def peer_set_def demo_pm py_get_def py_index_nonneg put_piece_def)
  have un: "unrequested demo_m2 \<lparr>se_conn = (demo_c2 ih pid), se_in_flight = [], se_active = [0]\<rparr> 0 = Inr [(0, 1)]"
    by (simp add: unrequested_def demo_m2_def py_get_def py_index_nonneg missing_blocks_def demo_piece_def
        missing_from.simps BLOCK_SIZE_def)
  have "send_message None (RequestMessage 0 0 1) (demo_c2 ih pid) = (Inr (), (demo_c3 ih pid))"
    by (simp add: send_message_def demo_c1_def demo_c2_def demo_c3_def demo_connection_def new_connection_def is_connected_def
      frame_def pack_uint_def be_bytes_numeral write_bytes_def Let_def)
  with sel un show ?thesis
    by (simp add: demo_step task_step_def fill_step_def PIPELINE_DEPTH_def demo_peer_key fill_once_def
        request_block_def Let_def)
qed

lemma demo_6:
  "attempt (pool_exec sorted_list_of_set) (StepTask 0 None []) (demo_state ih pid demo_m2 (demo_session (demo_c3 ih pid) [(0, 0)] [0]) Filling [] False) =
     demo_state ih pid demo_m2 (demo_session (demo_c3 ih pid) [(0, 0)] [0]) Receiving [] False"
proof -
  have sel: "select_piece sorted_list_of_set (replicate 20 3) demo_m2 = Inr (None, demo_m2)"
    by (simp add: select_piece_def peer_set_def demo_pm py_get_def py_index_nonneg)
  have un: "unrequested demo_m2 \<lparr>se_conn = (demo_c3 ih pid), se_in_flight = [(0, 0)], se_active = [0]\<rparr> 0 = Inr []"
    by (simp add: unrequested_def demo_m2_def py_get_def py_index_nonneg missing_blocks_def demo_piece_def
        missing_from.simps BLOCK_SIZE_def)
  from sel un show ?thesis
    by (simp add: demo_step task_step_def fill_step_def PIPELINE_DEPTH_def demo_peer_key fill_once_def after_fill_def)
qed

lemma demo_7:
  "attempt (pool_exec itr) (StepTask 0 None [Arrive [0, 0, 0, 10, 7, 0, 0, 0, 0, 0, 0, 0, 0, 7]])
      (demo_state ih pid demo_m2 (demo_session (demo_c3 ih pid) [(0, 0)] [0]) Receiving [] False) =
     demo_state ih pid demo_m3 (demo_session (demo_c3 ih pid) [] []) Delivering [(0, [7])] False"
proof -
  have "await_message [Arrive [0, 0, 0, 10, 7, 0, 0, 0, 0, 0, 0, 0, 0, 7]] (demo_c3 ih pid) = (Inr (PieceMessage 0 0 [7]), (demo_c3 ih pid))"
    by (simp add: message_eval demo_c1_def demo_c2_def demo_c3_def demo_connection_def new_connection_def)
  moreover have "add_block 0 0 [7] demo_m2 = Inr (True, demo_m3)"
    by (simp add: add_block_def demo_m2_def demo_m3_def demo_m1 demo_manager_def py_index_nonneg demo_piece_def
        piece_add_block_def is_complete_raw_def piece_verify_def assemble_def put_piece_def)
  moreover have "get_piece_data demo_m3 0 = Inr [7]"
    by (simp add: get_piece_data_def py_get_def py_index_nonneg demo_m3_def demo_piece_def piece_data_def assemble_def)
  ultimately show ?thesis
    by (simp add: demo_step task_step_def receive_step_def piece_message_step_def outcome_def)
qed

lemma demo_8:
  "attempt (pool_exec itr) (StepTask 0 None []) (demo_state ih pid demo_m3 (demo_session (demo_c3 ih pid) [] []) Delivering [(0, [7])] False) =
     demo_state ih pid demo_m3 (demo_session (demo_c3 ih pid) [] []) Looping [(0, [7])] False"
  by (simp add: demo_step task_step_def)

lemma demo_9:
  "attempt (pool_exec itr) (StepTask 0 None []) (demo_state ih pid demo_m3 (demo_session (demo_c3 ih pid) [] []) Looping [(0, [7])] False) =
     demo_state ih pid demo_m3 (demo_session (demo_c3 ih pid) [] []) Leaving [(0, [7])] True"
  by (simp add: demo_step task_step_def loop_step_def is_done_def num_complete_def demo_pm)

text \<open>One peer, one piece: the whole download.\<close>

lemma demo_run:
  assumes "length ih = 20" "length pid = 20"
  shows "run_ops (pool_exec sorted_list_of_set) (take 12 (demo_ops ih)) (demo_pool ih pid) =
     demo_state ih pid demo_m3 (demo_session (demo_c3 ih pid) [] []) Leaving [(0, [7])] True"
  using demo_start [OF assms, of sorted_list_of_set]
  by (simp add: demo_ops_def run_ops_def demo_1 demo_2 demo_3 demo_4 demo_5 demo_6 demo_7 demo_8 demo_9)

text \<open>The same run, up to where the block is in flight.\<close>

lemma demo_run_half:
  assumes "length ih = 20" "length pid = 20"
  shows "run_ops (pool_exec sorted_list_of_set) (take 9 (demo_ops ih)) (demo_pool ih pid) =
     demo_state ih pid demo_m2 (demo_session (demo_c3 ih pid) [(0, 0)] [0]) Receiving [] False"
  using demo_start [OF assms, of sorted_list_of_set]
  by (simp add: demo_ops_def run_ops_def demo_1 demo_2 demo_3 demo_4 demo_5 demo_6)

text \<open>And up to the unchoke.\<close>

lemma demo_run_unchoked:
  assumes "length ih = 20" "length pid = 20"
  shows "run_ops (pool_exec itr) (take 6 (demo_ops ih)) (demo_pool ih pid) =
     demo_state ih pid demo_m1 (demo_session (demo_c2 ih pid) [] []) Looping [] False"
  using demo_start [OF assms, of itr] by (simp add: demo_ops_def run_ops_def demo_1 demo_2 demo_3)

end
