(* ===== verification/PoolGuarantees.thy ===== *)
theory PoolGuarantees
  imports PoolDemo
begin

section \<open>What the pool guarantees\<close>

text \<open>
  The properties of the pool, each for every interleaving of its operations, for whatever the
  network delivers and whatever calls fail; the demonstration run of \<open>PoolDemo\<close> is the concrete
  input they are applied to.
\<close>

text \<open>
  C5. Only verified data leaves the pool: whatever a piece-complete callback is given has the
  SHA-1 hash that the torrent lists for that piece, whatever the peers sent and however the
  tasks interleave.
\<close>

theorem callback_verified:
  assumes "make_manager hs pl tot = Inr pm0" "set_order itr"
    and "(i, d) \<in> set (po_log (run_ops (pool_exec itr) ops (new_pool pm0 ih pid n)))"
  shows "0 \<le> i \<and> nat i < length hs \<and> sha1 d = hs ! nat i"
proof -
  let ?po = "run_ops (pool_exec itr) ops (new_pool pm0 ih pid n)"
  from pool_reached [OF assms(1,2) refl, of ops ih pid n]
  have "verified_log ?po" and hs: "map p_hash (pm_pieces (po_pm ?po)) = hs" by (simp_all add: pool_ok_def)
  with assms(3) have "0 \<le> i \<and> nat i < length (pm_pieces (po_pm ?po)) \<and> sha1 d = p_hash (pm_pieces (po_pm ?po) ! nat i)"
    by (auto simp: verified_log_def)
  with hs show ?thesis by (metis length_map nth_map)
qed

lemma order_sorted: "set_order sorted_list_of_set"
  by (simp add: set_order_def)

lemma callback_verified_witness:
  "po_log (run_ops (pool_exec sorted_list_of_set) (take 12 (demo_ops (replicate 20 1))) (new_pool demo_manager (replicate 20 1) (replicate 20 2) 30)) =
     [(0, [7])] \<and> nat 0 < length [sha1 [7]] \<and> sha1 [7] = [sha1 [7]] ! nat 0"
proof -
  have l: "po_log (run_ops (pool_exec sorted_list_of_set) (take 12 (demo_ops (replicate 20 1))) (new_pool demo_manager (replicate 20 1) (replicate 20 2) 30)) = [(0, [7])]"
    using demo_run [of "replicate 20 1" "replicate 20 2"] by (simp add: demo_pool_def demo_state_def)
  with callback_verified [OF demo_manager order_sorted, of 0 "[7]" "take 12 (demo_ops (replicate 20 1))" "replicate 20 1" "replicate 20 2" 30]
  show ?thesis by simp
qed



text \<open>
  C6. No piece is stranded: as long as the pool is not shutting down, every piece that is PENDING,
  and so not offered to other peers, is held by a running session.  In particular, when no
  session runs, no piece is PENDING.
\<close>

theorem no_piece_stranded:
  assumes "make_manager hs pl tot = Inr pm0" "set_order itr"
    and "po = run_ops (pool_exec itr) ops (new_pool pm0 ih pid n)" "\<not> po_stopping po"
    and "j < length hs" "p_state (pm_pieces (po_pm po) ! j) = PENDING"
  shows "\<exists>(i, t) \<in> set (po_running po). int j \<in> set (se_active (tk_session t))"
proof -
  from pool_reached [OF assms(1-3)] have ok: "pool_ok po" and hs: "map p_hash (pm_pieces (po_pm po)) = hs" by simp_all
  from hs have "length (pm_pieces (po_pm po)) = length hs" by (metis length_map)
  with ok assms(4-6) show ?thesis by (simp add: pool_ok_def held_def)
qed

lemma no_piece_stranded_witness:
  "\<exists>po. po = run_ops (pool_exec sorted_list_of_set) (take 9 (demo_ops (replicate 20 1))) (new_pool demo_manager (replicate 20 1) (replicate 20 2) 30) \<and>
     p_state (pm_pieces (po_pm po) ! 0) = PENDING \<and>
     (\<exists>(i, t) \<in> set (po_running po). int 0 \<in> set (se_active (tk_session t)))"
proof -
  let ?po = "demo_state (replicate 20 1) (replicate 20 2) demo_m2 (demo_session (demo_c3 (replicate 20 1) (replicate 20 2)) [(0, 0)] [0]) Receiving [] False"
  have r: "?po = run_ops (pool_exec sorted_list_of_set) (take 9 (demo_ops (replicate 20 1))) (new_pool demo_manager (replicate 20 1) (replicate 20 2) 30)"
    using demo_run_half [of "replicate 20 1" "replicate 20 2"] by (simp add: demo_pool_def)
  have p: "\<not> po_stopping ?po" "p_state (pm_pieces (po_pm ?po) ! 0) = PENDING"
    by (simp_all add: demo_state_def demo_pool_def new_pool_def demo_m2_def demo_piece_def)
  from no_piece_stranded [OF demo_manager order_sorted r p(1) _ p(2)] r p(2) show ?thesis by auto
qed



subsection \<open>The end of a session\<close>

text \<open>
  C19. When a session ends, for whatever reason, each piece it was fetching or had requests in
  flight for becomes NEEDED again with nothing received, unless it is COMPLETE; every other
  piece is as before, and the task is gone.
\<close>

theorem session_end_releases:
  assumes "pool_ok po" "set_order itr" "dict_get (po_running po) i = Some t" "j < length (pm_pieces (po_pm po))"
  shows "pm_pieces (po_pm (disconnect itr i t po)) ! j =
      (if int j \<in> set (se_active (tk_session t)) \<union> fst ` set (se_in_flight (tk_session t)) \<and>
          p_state (pm_pieces (po_pm po) ! j) \<noteq> COMPLETE
       then (pm_pieces (po_pm po) ! j)\<lparr>p_state := NEEDED, p_blocks := [], p_received := 0\<rparr>
       else pm_pieces (po_pm po) ! j) \<and>
    dict_get (po_running (disconnect itr i t po)) i = None"
proof -
  from map_of_SomeD [OF assms(3)] assms(1) have "pm_ok (po_pm po)"
    "session_ok (length (pm_pieces (po_pm po))) (tk_session t)" by (auto simp: pool_ok_def)
  from release_all_effect [OF this(1) assms(2) this(2)] obtain pm' where
    "release_all itr (tk_session t) (po_pm po) = Inr pm'"
    "\<forall>j < length (pm_pieces (po_pm po)). pm_pieces pm' ! j =
       (if int j \<in> set (se_active (tk_session t)) \<union> fst ` set (se_in_flight (tk_session t)) \<and>
           p_state (pm_pieces (po_pm po) ! j) \<noteq> COMPLETE
        then piece_reset (pm_pieces (po_pm po) ! j) else pm_pieces (po_pm po) ! j)" by blast
  with assms(4) show ?thesis by (simp add: disconnect_def Let_def dict_simps piece_reset_def)
qed

lemma session_end_releases_witness:
  "pm_pieces (po_pm (disconnect sorted_list_of_set 0
      \<lparr>tk_key = [49, 58, 56, 48], tk_session = demo_session (demo_c3 (replicate 20 1) (replicate 20 2)) [(0, 0)] [0], tk_phase = Receiving\<rparr>
      (demo_state (replicate 20 1) (replicate 20 2) demo_m2 (demo_session (demo_c3 (replicate 20 1) (replicate 20 2)) [(0, 0)] [0]) Receiving [] False))) ! 0 = demo_piece NEEDED [] 0"
proof -
  let ?po = "demo_state (replicate 20 1) (replicate 20 2) demo_m2 (demo_session (demo_c3 (replicate 20 1) (replicate 20 2)) [(0, 0)] [0]) Receiving [] False"
  have "?po = run_ops (pool_exec sorted_list_of_set) (take 9 (demo_ops (replicate 20 1))) (new_pool demo_manager (replicate 20 1) (replicate 20 2) 30)"
    using demo_run_half [of "replicate 20 1" "replicate 20 2"] by (simp add: demo_pool_def)
  from pool_reached [OF demo_manager order_sorted this] have ok: "pool_ok ?po" by simp
  from session_end_releases [OF ok order_sorted, of 0 _ 0] show ?thesis
    by (simp add: demo_state_def demo_m2_def demo_piece_def)
qed

subsection \<open>The request pipeline\<close>

lemma request_sent:
  assumes "is_connected (se_conn s)" "fits (RequestMessage i off sz)"
  shows "\<exists>s'. request_block None i off sz s = (Inr (), s') \<and> is_connected (se_conn s')"
  using assms
  by (auto simp: request_block_def send_message_def encode_message_fits write_bytes_def is_connected_def
      split: option.splits)

text \<open>The sizes for which every request can be encoded.\<close>

definition addressable :: "piece_manager \<Rightarrow> bool" where
  "addressable pm \<longleftrightarrow> blen (pm_pieces pm) < 2 ^ 32 \<and> (\<forall>p \<in> set (pm_pieces pm). p_length p < 2 ^ 32)"

lemma request_fits:
  assumes "pm_ok pm" "addressable pm" "unrequested pm s i = Inr ((off, sz) # u)" "0 \<le> i"
  shows "fits (RequestMessage i off sz)"
proof -
  from unrequested_mem [OF assms(3,4)] have j: "nat i < length (pm_pieces pm)"
    and m: "(off, sz) \<in> set (missing_blocks (pm_pieces pm ! nat i))" by simp_all
  from missing_blocks_mem [OF pm_ok_piece [OF assms(1) j] m] have "0 \<le> off" "0 < sz" "off + sz \<le> p_length (pm_pieces pm ! nat i)"
    by simp_all
  moreover have "p_length (pm_pieces pm ! nat i) < 2 ^ 32" "blen (pm_pieces pm) < 2 ^ 32"
    using assms(2) j by (simp_all add: addressable_def)
  ultimately show ?thesis using assms(4) j by (simp add: u32_ok_def)
qed

lemma fill_once_grows:
  assumes "fill_once itr drain peer pm s = (r, pm', s')"
  shows "set (se_in_flight s) \<subseteq> set (se_in_flight s')"
  using assms
  by (auto simp: fill_once_def Let_def split: sum.splits option.splits prod.splits list.splits
      dest!: request_block_effect)

lemma unrequested_total: "0 \<le> i \<Longrightarrow> i < blen (pm_pieces pm) \<Longrightarrow> \<exists>u. unrequested pm s i = Inr u"
  by (simp add: unrequested_def py_get_def py_index_nonneg)

lemma first_unrequested_total:
  "\<forall>i \<in> set act. 0 \<le> i \<and> i < blen (pm_pieces pm) \<Longrightarrow> \<exists>f. first_unrequested pm s act = Inr f"
proof (induction act)
  case (Cons i act)
  with unrequested_total [of i pm s] obtain u where "unrequested pm s i = Inr u" by auto
  with Cons show ?case by (cases u) auto
qed simp

text \<open>One round succeeds, and keeps what the next round needs.\<close>

text \<open>Filling never fails on a connected session: with nothing left in the active pieces, a newly selected one.\<close>

lemma fill_once_selects:
  assumes "pm_ok pm" "set_order itr" "addressable pm" "is_connected (se_conn s)"
    and "\<forall>i \<in> set (se_active s). 0 \<le> i \<and> i < blen (pm_pieces pm)"
    and none: "first_unrequested pm s (se_active s) = Inr None" and sel: "select_piece itr peer pm = Inr (Some i, pm1)"
  shows "\<exists>b pm' s'. fill_once itr None peer pm s = (Inr b, pm', s') \<and> is_connected (se_conn s') \<and>
    pm_peer_pieces pm' = pm_peer_pieces pm \<and> (b \<or> (\<forall>i \<in> set (se_active s'). unrequested pm' s' i = Inr []))"
proof -
  let ?s = "s\<lparr>se_active := se_active s @ [i]\<rparr>"
  from select_piece_Some [OF sel assms(2,1)] obtain j where j: "i = int j" "j < length (pm_pieces pm)"
    and p1: "pm1 = (put_piece j ((pm_pieces pm ! j)\<lparr>p_state := PENDING\<rparr>) pm)\<lparr>pm_pending := insert i (pm_pending pm)\<rparr>"
    by blast
  have un: "unrequested pm1 ?s k = unrequested pm s k" if "0 \<le> k" for k
    using that j(2) p1
    by (auto simp: unrequested_def py_get_def py_index_nonneg put_piece_def nth_list_update missing_blocks_def)
  have peers: "pm_peer_pieces pm1 = pm_peer_pieces pm" by (simp add: p1 put_piece_def)
  have keep: "\<forall>k \<in> set (se_active s). unrequested pm1 ?s k = Inr []"
    using first_unrequested_None [OF none] un assms(5) by simp
  obtain u where u: "unrequested pm1 ?s i = Inr u" using unrequested_total un j by fastforce
  show ?thesis
  proof (cases u)
    case Nil
    with none sel u keep assms(4) peers show ?thesis by (auto simp: fill_once_def)
  next
    case (Cons q u')
    then obtain off sz where q: "unrequested pm s i = Inr ((off, sz) # u')" using u un j(1) by (cases q) auto
    from request_sent [of ?s i off sz, OF _ request_fits [OF assms(1,3) q]] j(1) assms(4)
    obtain s' where "request_block None i off sz ?s = (Inr (), s')" "is_connected (se_conn s')" by auto
    with none sel un q j(1) peers show ?thesis by (auto simp: fill_once_def)
  qed
qed

lemma fill_once_total:
  assumes "pm_ok pm" "set_order itr" "session_ok (length (pm_pieces pm)) s" "addressable pm" "is_connected (se_conn s)"
    and "\<forall>i \<in> peer_set pm peer. i < blen (pm_pieces pm)"
  shows "\<exists>b pm' s'. fill_once itr None peer pm s = (Inr b, pm', s') \<and> is_connected (se_conn s') \<and>
    pm_peer_pieces pm' = pm_peer_pieces pm \<and> (b \<or> (\<forall>i \<in> set (se_active s'). unrequested pm' s' i = Inr []))"
proof -
  have act: "\<forall>i \<in> set (se_active s). 0 \<le> i \<and> i < blen (pm_pieces pm)" using assms(3) by (auto simp: session_ok_def)
  from first_unrequested_total [OF act] obtain f where f: "first_unrequested pm s (se_active s) = Inr f" by blast
  show ?thesis
  proof (cases f)
    case (Some q)
    then obtain i off sz u where q: "q = (i, off, sz)" "i \<in> set (se_active s)" "unrequested pm s i = Inr ((off, sz) # u)"
      using f first_unrequested_Some by (cases q) blast
    from request_sent [OF assms(5) request_fits [OF assms(1,4) q(3)]] act q(2)
    obtain s' where "request_block None i off sz s = (Inr (), s')" "is_connected (se_conn s')" by auto
    with f Some q(1) show ?thesis by (auto simp: fill_once_def)
  next
    case None
    note none = first_unrequested_None [OF f [unfolded None]]
    have "\<not> (\<exists>e. select_piece itr peer pm = Inl e)"
      using select_piece_raises_iff [OF assms(1,2)] assms(1,6) by (auto simp: pm_ok_def)
    then obtain r pm1 where sel: "select_piece itr peer pm = Inr (r, pm1)" by (cases "select_piece itr peer pm") auto
    show ?thesis
    proof (cases r)
      case None
      with select_piece_None sel assms(1,2) have "pm1 = pm" by blast
      with f \<open>f = None\<close> None sel none assms(5) show ?thesis by (auto simp: fill_once_def)
    next
      case (Some i)
      with fill_once_selects [OF assms(1,2,4,5) act] f \<open>f = None\<close> sel show ?thesis by blast
    qed
  qed
qed

lemma addressable_layout: "pm_layout pm' = pm_layout pm \<Longrightarrow> addressable pm' = addressable pm"
proof -
  assume l: "pm_layout pm' = pm_layout pm"
  then have m: "map (\<lambda>p. (p_index p, p_length p, p_hash p)) (pm_pieces pm') = map (\<lambda>p. (p_index p, p_length p, p_hash p)) (pm_pieces pm)"
    by (simp add: pm_layout_def)
  then have "length (pm_pieces pm') = length (pm_pieces pm)" by (rule map_eq_imp_length_eq)
  moreover from m have "map (fst \<circ> snd) (map (\<lambda>p. (p_index p, p_length p, p_hash p)) (pm_pieces pm')) =
      map (fst \<circ> snd) (map (\<lambda>p. (p_index p, p_length p, p_hash p)) (pm_pieces pm))" by simp
  then have "map p_length (pm_pieces pm') = map p_length (pm_pieces pm)" by (simp add: comp_def)
  then have "p_length ` set (pm_pieces pm') = p_length ` set (pm_pieces pm)" by (metis list.set_map)
  ultimately show ?thesis unfolding addressable_def by (metis (no_types, lifting) imageE imageI)
qed

lemma fill_loop_total:
  assumes "pm_ok pm" "set_order itr" "session_ok (length (pm_pieces pm)) s" "addressable pm" "is_connected (se_conn s)"
    and "\<forall>i \<in> peer_set pm peer. i < blen (pm_pieces pm)"
  shows "\<exists>pm' s'. fill_loop itr peer pm s = (Inr (), pm', s') \<and> session_ok (length (pm_pieces pm)) s' \<and>
    set (se_in_flight s) \<subseteq> set (se_in_flight s') \<and>
    (length (se_in_flight s') = PIPELINE_DEPTH \<or> (\<forall>i \<in> set (se_active s'). unrequested pm' s' i = Inr []))"
  using assms
proof (induction itr peer pm s rule: fill_loop.induct)
  case (1 itr peer pm s)
  show ?case
  proof (cases "length (se_in_flight s) < PIPELINE_DEPTH")
    case False
    with "1.prems"(3) show ?thesis by (subst fill_loop.simps) (auto simp: session_ok_def)
  next
    case True
    from fill_once_total [OF "1.prems"] obtain b pm1 s1 where fo: "fill_once itr None peer pm s = (Inr b, pm1, s1)"
      "is_connected (se_conn s1)" "pm_peer_pieces pm1 = pm_peer_pieces pm"
      "b \<or> (\<forall>i \<in> set (se_active s1). unrequested pm1 s1 i = Inr [])" by blast
    from fill_once_good [OF fo(1) "1.prems"(1-3) True] have c: "calls itr pm pm1"
      and s1: "session_ok (length (pm_pieces pm)) s1" by (simp_all add: good_step_def)
    from calls_ok [OF c "1.prems"(1,2)] have pm1: "pm_ok pm1" "addressable pm1"
      using addressable_layout "1.prems"(4) by blast+
    note len = calls_length [OF c "1.prems"(1,2)]
    have sub: "set (se_in_flight s) \<subseteq> set (se_in_flight s1)" using fill_once_grows [OF fo(1)] .
    show ?thesis
    proof (cases b)
      case False
      with fo True s1 sub show ?thesis by (subst fill_loop.simps) simp
    next
      case b: True
      have "peer_set pm1 peer = peer_set pm peer" using fo(3) by (simp add: peer_set_def)
      with "1.IH" [of "Inr True" "(pm1, s1)" True pm1 s1] True fo b "1.prems"(2,6) pm1 s1 len
      obtain pm' s' where r: "fill_loop itr peer pm1 s1 = (Inr (), pm', s')" "session_ok (length (pm_pieces pm)) s'"
        "set (se_in_flight s1) \<subseteq> set (se_in_flight s')"
        "length (se_in_flight s') = PIPELINE_DEPTH \<or> (\<forall>i \<in> set (se_active s'). unrequested pm' s' i = Inr [])"
        by (auto simp: len)
      moreover have "fill_loop itr peer pm s = fill_loop itr peer pm1 s1"
        by (subst fill_loop.simps) (use True fo(1) b in simp)
      ultimately show ?thesis using sub by auto
    qed
  qed
qed


lemma demo_manager_ok: "pm_ok demo_m1"
  using make_manager_ok [OF demo_manager] on_peer_bitfield_ok by (simp add: demo_m1_def)


subsection \<open>Behaviours worth knowing\<close>

text \<open>
  Two entries for the same peer in one list from the tracker both pass the first check, and the
  second check does not look at the key: both sessions run, one of them outside \<open>_sessions\<close>; and
  when the first one ends, the entry of the other is taken out too.  The second session goes on
  without counting towards \<open>max_peers\<close>.
\<close>

definition twice_ops :: "pool_op list" where
  "twice_ops =
     [CheckPeer [49] 80, CheckPeer [49] 80,
      FinishConnect [49] 80 None None [Arrive (demo_answer (replicate 20 1))], FinishConnect [49] 80 None None [Arrive (demo_answer (replicate 20 1))],
      RecordTask [49, 58, 56, 48] 0, RecordTask [49, 58, 56, 48] 1,
      StepTask 0 (Some OSError) [], Disconnect 0]"

lemma same_peer_twice:
  "let po = run_ops (pool_exec sorted_list_of_set) (take 6 twice_ops) (demo_pool (replicate 20 1) (replicate 20 2));
       po' = run_ops (pool_exec sorted_list_of_set) twice_ops (demo_pool (replicate 20 1) (replicate 20 2))
   in length (po_running po) = 2 \<and> num_connected po = 1 \<and> length (po_running po') = 1 \<and> num_connected po' = 0"
  by (simp add: twice_ops_def run_ops_def attempt_def check_peer_def num_connected_def demo_pool_def new_pool_def demo_key
      finish_connect_def demo_connect register_session_def feed_all_def record_task_def new_session_def
      step_task_def task_step_def start_step_def send_message_def demo_connection_def is_connected_def frame_def
      pack_uint_def be_bytes_numeral write_bytes_def is_os_error_def disconnect_def release_all_def Let_def)

text \<open>
  A block that arrives again for a piece that is COMPLETE already is stored, the piece is
  verified again and handed to the callback a second time.
\<close>

lemma late_block_delivered_again:
  "oc_delivered (piece_message_step 0 0 [7] demo_m3 (demo_session (demo_c3 (replicate 20 1) (replicate 20 2)) [] [])) = [(0, [7])]"
  by (simp add: piece_message_step_def add_block_def demo_m3_def demo_m1 demo_manager_def py_index_nonneg demo_piece_def
        piece_add_block_def is_complete_raw_def piece_verify_def assemble_def put_piece_def get_piece_data_def
        py_get_def piece_data_def outcome_def)

text \<open>One Have message for a piece that does not exist ends the session when it next selects a piece.\<close>

lemma have_out_of_range_ends_session:
  "let pm = on_peer_have (replicate 20 3) 9 demo_m1
   in oc_phase (fill_step sorted_list_of_set key None pm (demo_session (demo_c2 (replicate 20 1) (replicate 20 2)) [] [])) = Leaving"
proof -
  have "sorted_list_of_set {0, 9 :: int} = [0, 9]" by (simp add: sorted_list_of_set_insert_remove)
  then show ?thesis
    by (simp add: fill_step_def PIPELINE_DEPTH_def demo_peer_key fill_once_def select_piece_def peer_set_def
        on_peer_have_def demo_pm insert_commute py_get_def py_index_def Let_def)
qed

text \<open>
  A session that finds everything COMPLETE says so at once, also while another session still awaits
  the callback that writes the last piece; \<open>run_downloader\<close> then goes on to \<open>shutdown\<close>, which
  cancels that session.
\<close>

lemma done_while_delivering:
  assumes "dict_get (po_running po) 0 = Some t0" "tk_phase t0 = Delivering"
    and "dict_get (po_running po) 1 = Some t1" "tk_phase t1 = Looping" "is_done (po_pm po)"
  shows "\<exists>po'. pool_exec itr (StepTask 1 None []) po = Inr po' \<and> po_done po' \<and> dict_get (po_running po') 0 = Some t0"
  using assms by (simp add: step_task_def Let_def task_step_def loop_step_def dict_simps)

end
