(* ===== verification/SeedSession.thy ===== *)
theory SeedSession
  imports PoolGuarantees
begin

section \<open>Downloading from a seed\<close>

text \<open>
  A session with a peer that has the whole content and answers what it is asked for, in any
  order and in any chunks.  Every such run is short, and when it ends, the download is complete.
\<close>

subsection \<open>One honest block\<close>

lemma length_filter_key:
  assumes "distinct (map fst xs)" "(k, v) \<in> set xs"
  shows "Suc (length (filter (\<lambda>g. fst g \<noteq> k) xs)) = length xs"
proof -
  have "filter (\<lambda>g. fst g = k) xs = [(k, v)]"
    using assms
  proof (induction xs)
    case (Cons x xs)
    have "filter (\<lambda>g. fst g = k) xs = []" if "fst x = k"
      using Cons.prems(1) that by (force simp: filter_empty_conv image_iff)
    moreover have "(fst x, b) \<notin> set xs" for b using Cons.prems(1) by (force simp: image_iff)
    ultimately show ?case using Cons by (cases "fst x = k") auto
  qed simp
  then have "length xs = 1 + length (filter (\<lambda>g. fst g \<noteq> k) xs)"
    using sum_length_filter_compl [of "\<lambda>g. fst g = k" xs] by simp
  then show ?thesis by simp
qed

lemma missing_distinct: "0 \<le> p_length p \<Longrightarrow> distinct (map fst (missing_blocks p))"
  using tiles_sorted [OF grid_tiles [of "p_length p"]]
  by (simp add: missing_blocks_filter distinct_map_filter)

lemma missing_dict_set:
  assumes "p_length p' = p_length p" "p_blocks p' = dict_set off b (p_blocks p)"
  shows "missing_blocks p' = filter (\<lambda>g. fst g \<noteq> off) (missing_blocks p)"
  using assms by (auto simp: missing_blocks_filter dict_simps intro!: filter_cong split: if_splits)

lemma seed_block:
  assumes "j < length (pm_pieces pm)" "honest d (pm_pieces pm ! j)" "sha1 d = p_hash (pm_pieces pm ! j)"
    and "(off, sz) \<in> set (missing_blocks (pm_pieces pm ! j))"
  shows "\<exists>ok pm' p'. add_block (int j) off (block_of d (off, sz)) pm = Inr (ok, pm') \<and>
    pm_pieces pm' = (pm_pieces pm)[j := p'] \<and> pm_peer_pieces pm' = pm_peer_pieces pm \<and> honest d p' \<and>
    p_hash p' = p_hash (pm_pieces pm ! j) \<and>
    missing_blocks p' = filter (\<lambda>g. fst g \<noteq> off) (missing_blocks (pm_pieces pm ! j)) \<and>
    (ok \<longleftrightarrow> missing_blocks p' = []) \<and> p_state p' = (if ok then COMPLETE else p_state (pm_pieces pm ! j)) \<and>
    (ok \<longrightarrow> get_piece_data pm' (int j) = Inr d)"
proof -
  let ?p = "pm_pieces pm ! j"
  have g: "(off, sz) \<in> set (grid (blen d))" using assms(2,4) by (auto simp: missing_blocks_filter honest_def)
  from honest_add [OF assms(2) g] obtain p where p: "piece_add_block ?p off (block_of d (off, sz)) = Inr p"
    and hp: "honest d p"
    and pe: "p = ?p\<lparr>p_received := p_received p, p_blocks := dict_set off (block_of d (off, sz)) (p_blocks ?p)\<rparr>" by blast
  have eq: "p_hash p = p_hash ?p" "p_state p = p_state ?p" "p_length p = p_length ?p"
    "p_blocks p = dict_set off (block_of d (off, sz)) (p_blocks ?p)" by (subst pe; simp)+
  note m = missing_dict_set [OF eq(3,4)]
  show ?thesis
  proof (cases "is_complete_raw p")
    case True
    then have none: "missing_blocks p = []" using honest_complete [OF hp] by simp
    with honest_piece_verify [OF hp True] honest_assemble [OF hp] eq m p hp assms(1,3) True show ?thesis
      by (intro exI [of _ True] exI [of _ "(put_piece j (p\<lparr>p_state := COMPLETE\<rparr>) pm)\<lparr>pm_pending := pm_pending pm - {int j}\<rparr>"]
            exI [of _ "p\<lparr>p_state := COMPLETE\<rparr>"])
        (simp add: add_block_def py_index_nonneg put_piece_def get_piece_data_def py_get_def piece_data_def)
  next
    case False
    then have "missing_blocks p \<noteq> []" using honest_complete [OF hp] by simp
    with eq m p hp assms(1) False show ?thesis
      by (intro exI [of _ False] exI [of _ "put_piece j p pm"] exI [of _ p])
        (simp add: add_block_def py_index_nonneg put_piece_def)
  qed
qed

subsection \<open>The invariant of the run\<close>

text \<open>How many blocks of the torrent are missing.\<close>

definition missing_total :: "piece_manager \<Rightarrow> nat" where
  "missing_total pm = sum_list (map (\<lambda>p. length (missing_blocks p)) (pm_pieces pm))"

text \<open>
  The pieces hold nothing but blocks of the content, the peer has announced all of them, exactly the
  session's active pieces are PENDING, and each block in flight is a missing block of one of them.
\<close>

definition content_ok :: "bytes list \<Rightarrow> piece_manager \<Rightarrow> bool" where
  "content_ok cs pm \<longleftrightarrow> length (pm_pieces pm) = length cs \<and>
     (\<forall>j < length cs. honest (cs ! j) (pm_pieces pm ! j) \<and> p_hash (pm_pieces pm ! j) = sha1 (cs ! j))"

definition seed_ok :: "bytes list \<Rightarrow> bytes \<Rightarrow> piece_manager \<Rightarrow> session \<Rightarrow> bool" where
  "seed_ok cs peer pm s \<longleftrightarrow> pm_ok pm \<and> session_ok (length cs) s \<and> addressable pm \<and> content_ok cs pm \<and>
     peer_set pm peer = int ` {..< length cs} \<and> distinct (se_active s) \<and>
     (\<forall>j < length cs. p_state (pm_pieces pm ! j) = PENDING \<longleftrightarrow> int j \<in> set (se_active s)) \<and>
     (\<forall>(i, off) \<in> set (se_in_flight s). i \<in> set (se_active s) \<and> off \<in> fst ` set (missing_blocks (pm_pieces pm ! nat i)))"

text \<open>The connection to the seed: open, with nothing left to read.\<close>

definition seed_connection :: "bytes \<Rightarrow> connection \<Rightarrow> bool" where
  "seed_connection peer c \<longleftrightarrow> live c \<and> buffered c = [] \<and> c_peer_id c = Some peer \<and> peer \<noteq> []"

lemma seed_in_flight:
  assumes "seed_ok cs peer pm s" "(i, off) \<in> set (se_in_flight s)"
  shows "i \<in> set (se_active s) \<and> off \<in> fst ` set (missing_blocks (pm_pieces pm ! nat i))"
  using assms unfolding seed_ok_def by blast

lemma in_flight_missing:
  assumes "seed_ok cs peer pm s"
  shows "length (se_in_flight s) \<le> missing_total pm"
proof -
  let ?M = "\<lambda>j. fst ` set (missing_blocks (pm_pieces pm ! j))"
  have len: "length (pm_pieces pm) = length cs" using assms by (simp add: seed_ok_def content_ok_def)
  have "set (se_in_flight s) \<subseteq> (\<Union>j < length cs. Pair (int j) ` ?M j)"
  proof
    fix q
    assume q: "q \<in> set (se_in_flight s)"
    obtain i off where io: "q = (i, off)" by (cases q)
    with q assms have "0 \<le> i" "i < int (length cs)" "off \<in> ?M (nat i)"
      by (force simp: seed_ok_def session_ok_def)+
    then show "q \<in> (\<Union>j < length cs. Pair (int j) ` ?M j)"
      unfolding io by (intro UN_I [of "nat i"]) auto
  qed
  then have "card (set (se_in_flight s)) \<le> card (\<Union>j < length cs. Pair (int j) ` ?M j)"
    by (intro card_mono) simp_all
  also have "\<dots> \<le> (\<Sum>j < length cs. card (Pair (int j) ` ?M j))" by (rule card_UN_le) simp
  also have "\<dots> \<le> (\<Sum>j < length cs. length (missing_blocks (pm_pieces pm ! j)))"
    by (intro sum_mono order_trans [OF card_image_le] order_trans [OF card_image_le card_length]) simp_all
  also have "\<dots> = missing_total pm" unfolding missing_total_def by (simp add: sum_list_sum_nth len atLeast0LessThan)
  finally show ?thesis using assms by (simp add: seed_ok_def session_ok_def distinct_card)
qed

subsection \<open>Filling the pipeline\<close>

lemma missing_total_put:
  assumes "j < length (pm_pieces pm)" "pm_pieces pm' = (pm_pieces pm)[j := p]"
  shows "missing_total pm' + length (missing_blocks (pm_pieces pm ! j)) = missing_total pm + length (missing_blocks p)"
proof -
  have "length (missing_blocks (pm_pieces pm ! j)) \<le> missing_total pm"
    unfolding missing_total_def using assms(1) by (intro member_le_sum_list) simp_all
  with assms show ?thesis by (simp add: missing_total_def map_update sum_list_update)
qed

lemma seed_connection_write [simp]: "seed_connection peer (write_bytes d c) = seed_connection peer c"
  by (auto simp: seed_connection_def live_def buffered_def write_bytes_def is_connected_def split: option.splits)

lemma seed_connection_live: "seed_connection peer c \<Longrightarrow> is_connected c"
  by (simp add: seed_connection_def live_def)

text \<open>A request for a missing block goes out and keeps the invariant.\<close>

lemma seed_request:
  assumes "seed_ok cs peer pm s" "seed_connection peer (se_conn s)" "i \<in> set (se_active s)"
    and "unrequested pm s i = Inr ((off, sz) # u)" "length (se_in_flight s) < PIPELINE_DEPTH"
  shows "\<exists>s'. request_block None i off sz s = (Inr (), s') \<and> seed_ok cs peer pm s' \<and> seed_connection peer (se_conn s') \<and>
    length (se_in_flight s') = Suc (length (se_in_flight s))"
proof -
  have i: "0 \<le> i" "i < int (length cs)" using assms(1,3) by (auto simp: seed_ok_def session_ok_def)
  have fits: "fits (RequestMessage i off sz)"
    using request_fits [OF _ _ assms(4) i(1)] assms(1) by (simp add: seed_ok_def)
  from unrequested_mem [OF assms(4) i(1)] have m: "off \<in> fst ` set (missing_blocks (pm_pieces pm ! nat i))"
    "(i, off) \<notin> set (se_in_flight s)" by force+
  let ?d = "message_bytes (RequestMessage i off sz)"
  have "encode_message (RequestMessage i off sz) = Inr ?d" using fits by (simp only: encode_message_fits if_True)
  then have "request_block None i off sz s =
      (Inr (), s\<lparr>se_conn := write_bytes ?d (se_conn s), se_in_flight := (i, off) # se_in_flight s\<rparr>)"
    using seed_connection_live [OF assms(2)] m(2) by (simp add: request_block_def send_message_def)
  then show ?thesis using assms(1,2,3,5) i m by (auto simp: seed_ok_def session_ok_def)
qed

text \<open>A NEEDED piece has missing blocks, none of them in flight.\<close>

lemma needed_unrequested:
  assumes "seed_ok cs peer pm s" "j < length cs" "p_state (pm_pieces pm ! j) = NEEDED"
  shows "int j \<notin> set (se_active s) \<and> missing_blocks (pm_pieces pm ! j) \<noteq> [] \<and>
    filter (\<lambda>(off, sz). (int j, off) \<notin> set (se_in_flight s)) (missing_blocks (pm_pieces pm ! j)) = missing_blocks (pm_pieces pm ! j)"
proof -
  have a: "int j \<notin> set (se_active s)" using assms by (auto simp: seed_ok_def)
  have "\<not> is_complete_raw (pm_pieces pm ! j)"
    using pm_ok_piece [of pm j] assms by (simp add: seed_ok_def content_ok_def piece_ok_def)
  then have "missing_blocks (pm_pieces pm ! j) \<noteq> []"
    using honest_complete [of "cs ! j" "pm_pieces pm ! j"] assms by (simp add: seed_ok_def content_ok_def)
  moreover have "(int j, off) \<notin> set (se_in_flight s)" for off
    using a assms(1) by (auto simp: seed_ok_def)
  ultimately show ?thesis using a by simp
qed

lemma seed_select:
  assumes "seed_ok cs peer pm s" "set_order itr" "select_piece itr peer pm = Inr (Some i, pm1)"
  shows "seed_ok cs peer pm1 (s\<lparr>se_active := se_active s @ [i]\<rparr>) \<and> missing_total pm1 = missing_total pm \<and>
    (\<exists>off sz u. unrequested pm1 (s\<lparr>se_active := se_active s @ [i]\<rparr>) i = Inr ((off, sz) # u))"
proof -
  have pm: "pm_ok pm" and len: "length (pm_pieces pm) = length cs" using assms(1) by (simp_all add: seed_ok_def content_ok_def)
  from select_piece_Some [OF assms(3,2) pm] obtain j where j: "i = int j" "j < length (pm_pieces pm)"
    "p_state (pm_pieces pm ! j) = NEEDED"
    "pm1 = (put_piece j ((pm_pieces pm ! j)\<lparr>p_state := PENDING\<rparr>) pm)\<lparr>pm_pending := insert i (pm_pending pm)\<rparr>"
    by blast
  note j = j [unfolded len]
  have ok1: "pm_ok pm1" using select_piece_ok assms(2,3) pm by blast
  have "pm_layout pm1 = pm_layout pm" using select_piece_layout assms(2,3) pm by blast
  with addressable_layout [of pm1 pm] assms(1) have ad: "addressable pm1" by (simp add: seed_ok_def)
  note nu = needed_unrequested [OF assms(1) j(2,3)]
  have pieces: "pm_pieces pm1 = (pm_pieces pm)[j := (pm_pieces pm ! j)\<lparr>p_state := PENDING\<rparr>]"
    and peers: "peer_set pm1 peer = peer_set pm peer" by (simp_all add: j(4) put_piece_def peer_set_def)
  have same: "missing_blocks (pm_pieces pm1 ! k) = missing_blocks (pm_pieces pm ! k)" for k
    by (simp add: pieces nth_list_update len j(2))
  have "unrequested pm1 (s\<lparr>se_active := se_active s @ [i]\<rparr>) i = Inr (missing_blocks (pm_pieces pm ! j))"
    using nu j(1,2) same [of j] by (simp add: unrequested_def py_get_def py_index_nonneg len pieces)
  moreover have "missing_total pm1 = missing_total pm" using missing_total_put [OF _ pieces] j(2) len by simp
  moreover have "seed_ok cs peer pm1 (s\<lparr>se_active := se_active s @ [i]\<rparr>)"
    using assms(1) ok1 ad nu j(1,2) same peers
    by (auto simp: seed_ok_def content_ok_def session_ok_def pieces len nth_list_update)
  ultimately show ?thesis using nu by (cases "missing_blocks (pm_pieces pm ! j)") auto
qed

text \<open>One round: another request, or every missing block of the torrent is in flight.\<close>

lemma seed_fill_once:
  assumes "seed_ok cs peer pm s" "set_order itr" "seed_connection peer (se_conn s)" "length (se_in_flight s) < PIPELINE_DEPTH"
  shows "\<exists>b pm' s'. fill_once itr None peer pm s = (Inr b, pm', s') \<and> seed_ok cs peer pm' s' \<and>
    seed_connection peer (se_conn s') \<and> missing_total pm' = missing_total pm \<and>
    (if b then length (se_in_flight s') = Suc (length (se_in_flight s))
     else pm' = pm \<and> (\<forall>i \<in> set (se_active s). unrequested pm s i = Inr []) \<and> s' = s \<and>
       (\<forall>j < length cs. p_state (pm_pieces pm ! j) \<noteq> NEEDED))"
proof -
  have pm: "pm_ok pm" and len: "length (pm_pieces pm) = length cs" and peers: "peer_set pm peer = int ` {..< length cs}"
    using assms(1) by (simp_all add: seed_ok_def content_ok_def)
  have "\<forall>i \<in> set (se_active s). 0 \<le> i \<and> i < blen (pm_pieces pm)" using assms(1) len by (auto simp: seed_ok_def session_ok_def)
  from first_unrequested_total [OF this] obtain f where f: "first_unrequested pm s (se_active s) = Inr f" by blast
  show ?thesis
  proof (cases f)
    case (Some q)
    then obtain i off sz u where q: "q = (i, off, sz)" "i \<in> set (se_active s)" "unrequested pm s i = Inr ((off, sz) # u)"
      using f first_unrequested_Some by (cases q) blast
    from seed_request [OF assms(1,3) q(2,3) assms(4)] f Some q(1) show ?thesis by (auto simp: fill_once_def)
  next
    case None
    note none = first_unrequested_None [OF f [unfolded None]]
    have "\<not> (\<exists>e. select_piece itr peer pm = Inl e)"
      using select_piece_raises_iff [OF pm assms(2)] pm peers len by (auto simp: pm_ok_def)
    then obtain r pm1 where sel: "select_piece itr peer pm = Inr (r, pm1)" by (cases "select_piece itr peer pm") auto
    show ?thesis
    proof (cases r)
      case None
      with select_piece_None [OF sel [unfolded None] assms(2) pm] sel f \<open>f = None\<close> none assms(1,3) peers len show ?thesis
        by (auto simp: fill_once_def)
    next
      case (Some i)
      let ?s = "s\<lparr>se_active := se_active s @ [i]\<rparr>"
      from seed_select [OF assms(1,2) sel [unfolded Some]] obtain off sz u where
        1: "seed_ok cs peer pm1 ?s" "missing_total pm1 = missing_total pm" "unrequested pm1 ?s i = Inr ((off, sz) # u)" by blast
      from seed_request [OF 1(1) _ _ 1(3)] assms(3,4) obtain s' where
        "request_block None i off sz ?s = (Inr (), s')" "seed_ok cs peer pm1 s'" "seed_connection peer (se_conn s')"
        "length (se_in_flight s') = Suc (length (se_in_flight s))" by auto
      with 1 Some sel f \<open>f = None\<close> show ?thesis by (auto simp: fill_once_def)
    qed
  qed
qed

lemma seed_all_done:
  assumes "seed_ok cs peer pm s" "\<forall>j < length cs. p_state (pm_pieces pm ! j) \<noteq> NEEDED"
    and "se_in_flight s = []" "\<forall>i \<in> set (se_active s). unrequested pm s i = Inr []"
  shows "is_done pm"
proof -
  have pm: "pm_ok pm" and len: "length (pm_pieces pm) = length cs" using assms(1) by (simp_all add: seed_ok_def content_ok_def)
  have "p_state (pm_pieces pm ! j) = COMPLETE" if j: "j < length cs" for j
  proof (rule ccontr)
    have ok: "piece_ok (pm_pieces pm ! j)" using pm_ok_piece [OF pm] j len by simp
    assume c: "p_state (pm_pieces pm ! j) \<noteq> COMPLETE"
    with ok assms(2) j have "p_state (pm_pieces pm ! j) = PENDING"
      by (cases "p_state (pm_pieces pm ! j)") (auto simp: piece_ok_def)
    with assms(1) j have "int j \<in> set (se_active s)" by (simp add: seed_ok_def)
    with assms(3,4) j len have "missing_blocks (pm_pieces pm ! j) = []"
      by (auto simp: unrequested_def py_get_def py_index_nonneg)
    with honest_complete [of "cs ! j" "pm_pieces pm ! j"] assms(1) j ok c show False
      by (simp add: seed_ok_def content_ok_def piece_ok_def)
  qed
  then have "filter (\<lambda>p. p_state p = COMPLETE) (pm_pieces pm) = pm_pieces pm"
    by (auto simp: filter_id_conv in_set_conv_nth len)
  with pm show ?thesis by (simp add: is_done_def num_complete_def pm_ok_def)
qed

subsection \<open>Answers\<close>

lemma feed_arrivals: "fold feed (map Arrive ds) rd = rd\<lparr>rd_buffer := rd_buffer rd @ concat ds\<rparr>"
  by (induction ds arbitrary: rd) simp_all

lemma seed_receive:
  assumes "seed_connection peer c" "encode_message m = Inr (concat chunks)"
  shows "\<exists>c'. await_message (map Arrive chunks) c = (Inr m, c') \<and> seed_connection peer c'"
proof -
  from assms(1) have c: "live c" "buffered c = []" "c_peer_id c = Some peer" "peer \<noteq> []"
    by (simp_all add: seed_connection_def)
  have "read_message (buffered c @ concat chunks) = Inr (m, [])"
    using read_message_encode [OF assms(2), of "[]"] c(2) by simp
  from receive_chunks [OF c(1) this, of True "[]"] obtain rd ds where
    r: "receive_message True (map Arrive chunks) c = (Inr m, received_flags m (c\<lparr>c_reader := Some rd\<rparr>), map Arrive ds)"
      "\<not> rd_broken rd" "\<not> rd_eof rd" "rd_buffer rd @ concat ds = []" by auto
  have "c_peer_id (received_flags m d) = c_peer_id d" for d by (cases m) simp_all
  with r c show ?thesis
    by (auto simp: await_message_def feed_all_def feed_arrivals seed_connection_def live_def buffered_def is_connected_def)
qed

text \<open>A block in flight belongs to an active piece, and is the block of the grid at its offset.\<close>

lemma in_flight_block:
  assumes "seed_ok cs peer pm s" "(i, off) \<in> set (se_in_flight s)" "(off, sz) \<in> set (grid (blen (cs ! nat i)))"
  shows "\<exists>j. i = int j \<and> j < length cs \<and> int j \<in> set (se_active s) \<and> p_state (pm_pieces pm ! j) = PENDING \<and>
    (off, sz) \<in> set (missing_blocks (pm_pieces pm ! j))"
proof -
  from assms(1,2) have i: "i \<in> set (se_active s)" "off \<in> fst ` set (missing_blocks (pm_pieces pm ! nat i))"
    by (auto simp: seed_ok_def)
  with assms(1) have "0 \<le> i \<and> i < int (length cs)" by (simp add: seed_ok_def session_ok_def)
  then obtain j where j: "i = int j" "j < length cs" by (metis nonneg_int_cases of_nat_less_iff)
  with assms(1) have h: "honest (cs ! j) (pm_pieces pm ! j)" by (simp add: seed_ok_def content_ok_def)
  obtain sz' where m: "(off, sz') \<in> set (missing_blocks (pm_pieces pm ! j))" using i(2) j(1) by auto
  moreover from this have "(off, sz') \<in> set (grid (blen (cs ! j)))" using h by (auto simp: missing_blocks_filter honest_def)
  ultimately have "(off, sz) \<in> set (missing_blocks (pm_pieces pm ! j))" using assms(3) j(1) grid_unique by force
  with assms(1) i(1) j show ?thesis by (auto simp: seed_ok_def)
qed

text \<open>The session after the block, whose piece is \<open>ok\<close> or not yet.\<close>

definition after_block :: "int \<Rightarrow> int \<Rightarrow> bool \<Rightarrow> session \<Rightarrow> session" where
  "after_block i off ok s =
     s\<lparr>se_in_flight := removeAll (i, off) (se_in_flight s), se_active := (if ok then remove1 i (se_active s) else se_active s)\<rparr>"

lemma seed_ok_block:
  assumes "seed_ok cs peer pm s" "(int j, off) \<in> set (se_in_flight s)" "j < length cs"
    and "int j \<in> set (se_active s)" "p_state (pm_pieces pm ! j) = PENDING"
    and "add_block (int j) off b pm = Inr (ok, pm')"
    and p': "pm_pieces pm' = (pm_pieces pm)[j := p']" "pm_peer_pieces pm' = pm_peer_pieces pm" "honest (cs ! j) p'"
      "p_hash p' = p_hash (pm_pieces pm ! j)" "missing_blocks p' = filter (\<lambda>g. fst g \<noteq> off) (missing_blocks (pm_pieces pm ! j))"
      "ok \<longleftrightarrow> missing_blocks p' = []" "p_state p' = (if ok then COMPLETE else PENDING)"
  shows "seed_ok cs peer pm' (after_block (int j) off ok s)"
proof -
  let ?s = "after_block (int j) off ok s"
  have pm: "pm_ok pm" and len: "length (pm_pieces pm) = length cs" using assms(1) by (simp_all add: seed_ok_def content_ok_def)
  have "pm_layout pm' = pm_layout pm" using add_block_layout [OF assms(6)] by simp
  with addressable_layout [of pm' pm] assms(1) have "addressable pm'" by (simp add: seed_ok_def)
  moreover have "pm_ok pm'" using add_block_ok [OF assms(6) _ pm] by simp
  moreover have "content_ok cs pm'" using assms(1,3) p'(1,3,4) by (auto simp: seed_ok_def content_ok_def nth_list_update)
  moreover have "session_ok (length cs) ?s"
    by (rule session_ok_less [of _ s _ "(int j, off)"])
      (use assms(1) set_remove1_subset [of "int j" "se_active s"] in \<open>simp_all add: seed_ok_def after_block_def\<close>)
  moreover have "\<forall>k < length cs. p_state (pm_pieces pm' ! k) = PENDING \<longleftrightarrow> int k \<in> set (se_active ?s)"
    using assms(1,3,4) p' len by (auto simp: seed_ok_def nth_list_update after_block_def)
  moreover have fl: "q \<in> set (se_active ?s) \<and> o' \<in> fst ` set (missing_blocks (pm_pieces pm' ! nat q))"
    if "(q, o') \<in> set (se_in_flight ?s)" for q o'
  proof (cases "q = int j")
    case True
    with that seed_in_flight [OF assms(1), of q o'] have "o' \<noteq> off" "o' \<in> fst ` set (missing_blocks (pm_pieces pm ! j))"
      by (auto simp: after_block_def)
    then have "o' \<in> fst ` set (missing_blocks p')" by (force simp: p'(5))
    with True assms(3,4) p'(6) len show ?thesis by (auto simp: p'(1) after_block_def)
  next
    case False
    from that seed_in_flight [OF assms(1), of q o'] have q: "q \<in> set (se_active s)"
      "o' \<in> fst ` set (missing_blocks (pm_pieces pm ! nat q))" by (auto simp: after_block_def)
    with assms(1) have "0 \<le> q" by (simp add: seed_ok_def session_ok_def)
    with False q show ?thesis by (auto simp: p'(1) in_set_remove1 after_block_def)
  qed
  moreover have "\<forall>(q, o') \<in> set (se_in_flight ?s). q \<in> set (se_active ?s) \<and>
      o' \<in> fst ` set (missing_blocks (pm_pieces pm' ! nat q))" using fl by blast
  moreover have "peer_set pm' peer = int ` {..< length cs}" "distinct (se_active ?s)"
    using assms(1) p'(2) by (simp_all add: seed_ok_def peer_set_def after_block_def)
  ultimately show ?thesis unfolding seed_ok_def by blast
qed

lemma seed_answer:
  assumes "seed_ok cs peer pm s" "(i, off) \<in> set (se_in_flight s)" "(off, sz) \<in> set (grid (blen (cs ! nat i)))"
    and oc: "oc = piece_message_step i off (block_of (cs ! nat i) (off, sz)) pm s"
  shows "seed_ok cs peer (oc_pm oc) (oc_session oc) \<and> Suc (missing_total (oc_pm oc)) = missing_total pm \<and>
    Suc (length (se_in_flight (oc_session oc))) = length (se_in_flight s) \<and> se_conn (oc_session oc) = se_conn s \<and>
    \<not> oc_done oc \<and> (oc_phase oc = Looping \<and> oc_delivered oc = [] \<or> oc_phase oc = Delivering \<and> oc_delivered oc = [(i, cs ! nat i)]) \<and>
    (\<forall>k < length cs. p_state (pm_pieces (oc_pm oc) ! k) = COMPLETE \<longrightarrow>
       p_state (pm_pieces pm ! k) = COMPLETE \<or> (int k, cs ! k) \<in> set (oc_delivered oc))"
proof -
  have len: "length (pm_pieces pm) = length cs" using assms(1) by (simp add: seed_ok_def content_ok_def)
  from in_flight_block [OF assms(1-3)] obtain j where j: "i = int j" "j < length cs" "int j \<in> set (se_active s)"
    "p_state (pm_pieces pm ! j) = PENDING" "(off, sz) \<in> set (missing_blocks (pm_pieces pm ! j))" by blast
  from assms(1) j have h: "honest (cs ! j) (pm_pieces pm ! j)" "sha1 (cs ! j) = p_hash (pm_pieces pm ! j)"
    by (simp_all add: seed_ok_def content_ok_def)
  from seed_block [OF _ h j(5)] j len obtain ok pm' p' where
    a: "add_block (int j) off (block_of (cs ! j) (off, sz)) pm = Inr (ok, pm')" and
    p': "pm_pieces pm' = (pm_pieces pm)[j := p']" "pm_peer_pieces pm' = pm_peer_pieces pm" "honest (cs ! j) p'"
      "p_hash p' = p_hash (pm_pieces pm ! j)" "missing_blocks p' = filter (\<lambda>g. fst g \<noteq> off) (missing_blocks (pm_pieces pm ! j))"
      "ok \<longleftrightarrow> missing_blocks p' = []" "p_state p' = (if ok then COMPLETE else PENDING)"
      "ok \<Longrightarrow> get_piece_data pm' i = Inr (cs ! j)" by auto
  have step: "oc_pm oc = pm' \<and> oc_session oc = after_block i off ok s \<and> \<not> oc_done oc \<and>
      (oc_phase oc = Looping \<and> \<not> ok \<and> oc_delivered oc = [] \<or> oc_phase oc = Delivering \<and> ok \<and> oc_delivered oc = [(i, cs ! j)])"
    using a p'(1,7,8) j len
    by (cases ok) (auto simp: oc piece_message_step_def Let_def py_get_def py_index_nonneg after_block_def)
  have "distinct (map fst (missing_blocks (pm_pieces pm ! j)))" using h(1) by (intro missing_distinct) (simp add: honest_def)
  from length_filter_key [OF this j(5)] have "Suc (length (missing_blocks p')) = length (missing_blocks (pm_pieces pm ! j))"
    by (simp add: p'(5))
  with missing_total_put [OF _ p'(1)] j(2) len have "Suc (missing_total pm') = missing_total pm" by fastforce
  moreover have "Suc (length (removeAll (i, off) (se_in_flight s))) = length (se_in_flight s)"
    using assms(1,2) length_pos_if_in_set [OF assms(2)]
    by (simp add: seed_ok_def session_ok_def distinct_remove1_removeAll [symmetric] length_remove1)
  moreover have "seed_ok cs peer pm' (after_block i off ok s)"
    using seed_ok_block [OF assms(1) _ j(2-4) a p'(1-7)] assms(2) j(1) by simp
  moreover have "p_state (pm_pieces pm ! k) = COMPLETE \<or> (int k, cs ! k) \<in> set (oc_delivered oc)"
    if "p_state (pm_pieces pm' ! k) = COMPLETE" for k
    using that step p'(1,7) j len by (cases "k = j") auto
  ultimately show ?thesis using step j(1) by (auto simp: after_block_def)
qed

subsection \<open>Steps of the session\<close>

definition seed_task :: "bytes list \<Rightarrow> bytes \<Rightarrow> piece_manager \<Rightarrow> session \<Rightarrow> phase \<Rightarrow> bool" where
  "seed_task cs peer pm s ph \<longleftrightarrow> seed_ok cs peer pm s \<and> seed_connection peer (se_conn s) \<and>
     ph \<in> {Looping, Filling, Receiving, Delivering, Leaving} \<and> (ph = Receiving \<longrightarrow> se_in_flight s \<noteq> []) \<and>
     (ph = Leaving \<longrightarrow> is_done pm)"

text \<open>
  The rank: a missing block counts four, one that is not in flight one more, and the phases count
  down from the delivery of a piece to the next wait.
\<close>

definition seed_rank :: "piece_manager \<Rightarrow> session \<Rightarrow> phase \<Rightarrow> nat" where
  "seed_rank pm s ph = 4 * missing_total pm + (missing_total pm - length (se_in_flight s)) +
     (case ph of Delivering \<Rightarrow> 3 | Looping \<Rightarrow> 2 | Filling \<Rightarrow> 1 | _ \<Rightarrow> 0)"

definition seed_outcome :: "bytes list \<Rightarrow> bytes \<Rightarrow> piece_manager \<Rightarrow> session \<Rightarrow> phase \<Rightarrow> outcome \<Rightarrow> bool" where
  "seed_outcome cs peer pm s ph oc \<longleftrightarrow> seed_task cs peer (oc_pm oc) (oc_session oc) (oc_phase oc) \<and>
     seed_rank (oc_pm oc) (oc_session oc) (oc_phase oc) < seed_rank pm s ph \<and>
     (oc_phase oc = Leaving \<longrightarrow> oc_done oc) \<and> (\<forall>q \<in> set (oc_delivered oc). 0 \<le> fst q \<and> fst q < blen cs \<and> snd q = cs ! nat (fst q)) \<and>
     (\<forall>k < length cs. p_state (pm_pieces (oc_pm oc) ! k) = COMPLETE \<longrightarrow>
        p_state (pm_pieces pm ! k) = COMPLETE \<or> (int k, cs ! k) \<in> set (oc_delivered oc))"

lemma seed_peer_key: "seed_connection peer c \<Longrightarrow> peer_key c key = Inr peer"
  by (auto simp: seed_connection_def peer_key_def split: list.split)

lemma seed_after_fill:
  assumes "seed_task cs peer pm s Filling" "se_in_flight s = [] \<Longrightarrow> is_done pm"
  shows "seed_outcome cs peer pm s Filling (after_fill pm s)"
  using assms by (auto simp: seed_outcome_def after_fill_def seed_task_def seed_rank_def outcome_def)

lemma seed_fill_step:
  assumes "seed_task cs peer pm s Filling" "set_order itr"
  shows "seed_outcome cs peer pm s Filling (fill_step itr key None pm s)"
proof (cases "length (se_in_flight s) < PIPELINE_DEPTH")
  case False
  then have "se_in_flight s \<noteq> []" by (auto simp: PIPELINE_DEPTH_def)
  with False seed_after_fill [OF assms(1)] show ?thesis by (simp add: fill_step_def)
next
  case True
  from assms(1) have s: "seed_ok cs peer pm s" "seed_connection peer (se_conn s)" by (simp_all add: seed_task_def)
  from seed_fill_once [OF s(1) assms(2) s(2) True] obtain b pm' s' where
    f: "fill_once itr None peer pm s = (Inr b, pm', s')" "seed_ok cs peer pm' s'" "seed_connection peer (se_conn s')"
      "missing_total pm' = missing_total pm" and
    r: "if b then length (se_in_flight s') = Suc (length (se_in_flight s))
     else pm' = pm \<and> (\<forall>i \<in> set (se_active s). unrequested pm s i = Inr []) \<and> s' = s \<and>
       (\<forall>j < length cs. p_state (pm_pieces pm ! j) \<noteq> NEEDED)" by blast
  show ?thesis
  proof (cases b)
    case False
    with r seed_all_done [OF s(1)] seed_after_fill [OF assms(1)] f(1) True seed_peer_key [OF s(2)] show ?thesis
      by (simp add: fill_step_def)
  next
    case b: True
    have "p_state (pm_pieces pm ! k) = COMPLETE" if "p_state (pm_pieces pm' ! k) = COMPLETE" "k < length cs" for k
      using fill_once_good [OF f(1) _ assms(2) _ True] s(1) that
      by (auto simp: good_step_def seed_ok_def content_ok_def)
    with b r f True seed_peer_key [OF s(2)] in_flight_missing [OF f(2)] show ?thesis
      by (auto simp: fill_step_def seed_outcome_def seed_task_def seed_rank_def outcome_def)
  qed
qed

lemma seed_receive_step:
  assumes "seed_task cs peer pm s Receiving" "(i, off) \<in> set (se_in_flight s)" "(off, sz) \<in> set (grid (blen (cs ! nat i)))"
    and "encode_message (PieceMessage i off (block_of (cs ! nat i) (off, sz))) = Inr (concat chunks)"
  shows "seed_outcome cs peer pm s Receiving (receive_step itr key (map Arrive chunks) pm s)"
proof -
  let ?m = "PieceMessage i off (block_of (cs ! nat i) (off, sz))"
  from assms(1) have s: "seed_ok cs peer pm s" "seed_connection peer (se_conn s)" by (simp_all add: seed_task_def)
  from seed_receive [OF s(2) assms(4)] obtain c where
    c: "await_message (map Arrive chunks) (se_conn s) = (Inr ?m, c)" "seed_connection peer c" by blast
  let ?s = "s\<lparr>se_conn := c\<rparr>"
  let ?oc = "piece_message_step i off (block_of (cs ! nat i) (off, sz)) pm ?s"
  have "seed_ok cs peer pm ?s" using s(1) by (simp add: seed_ok_def session_ok_def)
  note a = seed_answer [OF this _ assms(3) refl, simplified, OF assms(2)]
  from in_flight_block [OF s(1) assms(2,3)] have i: "0 \<le> i" "i < blen cs" by auto
  have "receive_step itr key (map Arrive chunks) pm s = ?oc" by (simp add: receive_step_def c(1))
  moreover have "seed_rank (oc_pm ?oc) (oc_session ?oc) (oc_phase ?oc) < seed_rank pm s Receiving"
    using a by (auto simp: seed_rank_def split: phase.split)
  ultimately show ?thesis using a c(2) i by (auto simp: seed_outcome_def seed_task_def)
qed

subsection \<open>Runs of the pool with a seed\<close>

text \<open>
  Session \<open>n\<close> of the pool goes on by itself, or the seed answers one of its requests with the block
  of the content \<open>cs\<close>, in whatever chunks it arrives.
\<close>

inductive seed_step :: "(int set \<Rightarrow> int list) \<Rightarrow> bytes list \<Rightarrow> nat \<Rightarrow> pool \<Rightarrow> pool \<Rightarrow> bool"
  for itr cs n where
  go_on: "dict_get (po_running po) n = Some t \<Longrightarrow> tk_phase t \<in> {Looping, Filling, Delivering} \<Longrightarrow>
    pool_exec itr (StepTask n None []) po = Inr po' \<Longrightarrow> seed_step itr cs n po po'"
| answer: "dict_get (po_running po) n = Some t \<Longrightarrow> tk_phase t = Receiving \<Longrightarrow>
    (i, off) \<in> set (se_in_flight (tk_session t)) \<Longrightarrow> (off, sz) \<in> set (grid (blen (cs ! nat i))) \<Longrightarrow>
    encode_message (PieceMessage i off (block_of (cs ! nat i) (off, sz))) = Inr (concat chunks) \<Longrightarrow>
    pool_exec itr (StepTask n None (map Arrive chunks)) po = Inr po' \<Longrightarrow> seed_step itr cs n po po'"

definition seed_pool :: "bytes list \<Rightarrow> bytes \<Rightarrow> nat \<Rightarrow> pool \<Rightarrow> bool" where
  "seed_pool cs peer n po \<longleftrightarrow>
     (\<exists>t. dict_get (po_running po) n = Some t \<and> seed_task cs peer (po_pm po) (tk_session t) (tk_phase t) \<and>
        (tk_phase t = Leaving \<longrightarrow> po_done po)) \<and>
     (\<forall>q \<in> set (po_log po). 0 \<le> fst q \<and> fst q < blen cs \<and> snd q = cs ! nat (fst q)) \<and>
     (\<forall>k < length cs. p_state (pm_pieces (po_pm po) ! k) = COMPLETE \<longrightarrow> (int k, cs ! k) \<in> set (po_log po))"

definition pool_rank :: "nat \<Rightarrow> pool \<Rightarrow> nat" where
  "pool_rank n po = (case dict_get (po_running po) n of None \<Rightarrow> 0 | Some t \<Rightarrow> seed_rank (po_pm po) (tk_session t) (tk_phase t))"

definition session_over :: "nat \<Rightarrow> pool \<Rightarrow> bool" where
  "session_over n po \<longleftrightarrow> (\<exists>t. dict_get (po_running po) n = Some t \<and> tk_phase t = Leaving)"

lemma seed_outcome_pool:
  assumes "seed_pool cs peer n po" "dict_get (po_running po) n = Some t"
    and "seed_outcome cs peer (po_pm po) (tk_session t) (tk_phase t) (task_step itr (tk_key t) drain evs (po_pm po) (tk_session t) (tk_phase t))"
  shows "seed_pool cs peer n (step_task itr n t drain evs po) \<and> pool_rank n (step_task itr n t drain evs po) < pool_rank n po"
  using assms
  by (auto simp: seed_pool_def pool_rank_def seed_outcome_def step_task_def Let_def dict_simps)

lemma seed_task_outcome:
  assumes "seed_task cs peer pm s ph" "set_order itr" "ph \<in> {Looping, Filling, Delivering}"
  shows "seed_outcome cs peer pm s ph (task_step itr key None [] pm s ph)"
proof (cases ph)
  case Filling
  with seed_fill_step assms show ?thesis by (simp add: task_step_def)
qed (use assms in \<open>auto simp: task_step_def loop_step_def seed_outcome_def seed_task_def seed_rank_def outcome_def\<close>)

lemma seed_step_ok:
  assumes "seed_step itr cs n po po'" "set_order itr \<and> seed_pool cs peer n po"
  shows "seed_pool cs peer n po' \<and> pool_rank n po' < pool_rank n po"
  using assms(1)
proof (cases rule: seed_step.cases)
  case (go_on t)
  note 1 = this
  from assms(2) 1(1) have t: "seed_task cs peer (po_pm po) (tk_session t) (tk_phase t)" by (auto simp: seed_pool_def)
  from 1 have po': "po' = step_task itr n t None [] po" by auto
  from seed_outcome_pool [OF _ 1(1)] seed_task_outcome [OF t _ 1(2)] assms(2) show ?thesis unfolding po' by blast
next
  case (answer t i off sz chunks)
  note 2 = this
  from assms(2) 2(1,2) have t: "seed_task cs peer (po_pm po) (tk_session t) Receiving" by (auto simp: seed_pool_def)
  from 2 have po': "po' = step_task itr n t None (map Arrive chunks) po" by auto
  from seed_outcome_pool [OF _ 2(1), of cs peer itr None "map Arrive chunks"] seed_receive_step [OF t 2(3-5), of itr "tk_key t"]
    assms(2) 2(2) show ?thesis unfolding po' by (simp add: task_step_def)
qed

lemma block_message_fits:
  assumes "seed_ok cs peer pm s" "i = int j" "j < length cs" "(off, sz) \<in> set (grid (blen (cs ! j)))"
  shows "\<exists>d. encode_message (PieceMessage i off (block_of (cs ! j) (off, sz))) = Inr d"
proof -
  have b: "0 \<le> off" "off < p_length (pm_pieces pm ! j)" "blen (block_of (cs ! j) (off, sz)) \<le> BLOCK_SIZE"
    using grid_mem [OF assms(4)] blen_block_of [OF assms(4)] assms(1,3) by (auto simp: seed_ok_def content_ok_def honest_def)
  moreover have "p_length (pm_pieces pm ! j) < 2 ^ 32" "blen cs < 2 ^ 32"
    using assms(1,3) by (auto simp: seed_ok_def content_ok_def addressable_def)
  ultimately have "fits (PieceMessage i off (block_of (cs ! j) (off, sz)))"
    using assms(2,3) by (simp add: u32_ok_def BLOCK_SIZE_def)
  then show ?thesis by (simp only: encode_message_fits if_True) blast
qed

lemma seed_progress:
  assumes "set_order itr \<and> seed_pool cs peer n po" "\<not> session_over n po"
  shows "\<exists>po'. seed_step itr cs n po po'"
proof -
  from assms obtain t where t: "dict_get (po_running po) n = Some t" "tk_phase t \<noteq> Leaving"
      "seed_task cs peer (po_pm po) (tk_session t) (tk_phase t)"
    by (auto simp: seed_pool_def session_over_def)
  have ex: "\<exists>po'. pool_exec itr (StepTask n None evs) po = Inr po'" for evs using t(1,2) by simp
  show ?thesis
  proof (cases "tk_phase t = Receiving")
    case False
    with t(2,3) have "tk_phase t \<in> {Looping, Filling, Delivering}" by (auto simp: seed_task_def)
    with seed_step.go_on [OF t(1)] ex show ?thesis by blast
  next
    case True
    with t(3) obtain i off where f: "(i, off) \<in> set (se_in_flight (tk_session t))" and ok: "seed_ok cs peer (po_pm po) (tk_session t)"
      by (cases "se_in_flight (tk_session t)") (auto simp: seed_task_def)
    from seed_in_flight [OF ok f] have a: "i \<in> set (se_active (tk_session t))"
      "off \<in> fst ` set (missing_blocks (pm_pieces (po_pm po) ! nat i))" by simp_all
    with ok have "0 \<le> i \<and> i < blen cs" by (simp add: seed_ok_def session_ok_def)
    then obtain j where j: "i = int j" "j < length cs" by (metis nonneg_int_cases of_nat_less_iff)
    with a(2) obtain sz where "(off, sz) \<in> set (missing_blocks (pm_pieces (po_pm po) ! j))" by auto
    with ok j(2) have g: "(off, sz) \<in> set (grid (blen (cs ! j)))" by (auto simp: seed_ok_def content_ok_def missing_blocks_filter honest_def)
    from block_message_fits [OF ok j(1,2) g] obtain d where
      "encode_message (PieceMessage i off (block_of (cs ! j) (off, sz))) = Inr (concat [d])" by auto
    with seed_step.answer [OF t(1) True f, of sz cs "[d]"] g j(1) ex show ?thesis by fastforce
  qed
qed

interpretation seedc: ranked_steps "seed_step itr cs n" "\<lambda>po. set_order itr \<and> seed_pool cs peer n po" "pool_rank n" "session_over n"
  for itr cs peer n
  by unfold_locales (use seed_step_ok seed_progress in blast)+

subsection \<open>The download\<close>

text \<open>The pieces of a new manager, and the content that fits them.\<close>

definition content_fits :: "bytes list \<Rightarrow> bytes list \<Rightarrow> piece_manager \<Rightarrow> bool" where
  "content_fits cs hs pm \<longleftrightarrow> length cs = length hs \<and>
     (\<forall>j < length hs. sha1 (cs ! j) = hs ! j \<and> blen (cs ! j) = p_length (pm_pieces pm ! j))"

lemma fresh_content:
  assumes "make_manager hs pl tot = Inr pm" "content_fits cs hs pm"
  shows "content_ok cs pm \<and> (\<forall>j < length cs. p_state (pm_pieces pm ! j) = NEEDED)"
proof -
  note m = make_manager_Inr [OF assms(1)]
  have "honest (cs ! j) (pm_pieces pm ! j) \<and> p_hash (pm_pieces pm ! j) = sha1 (cs ! j) \<and> p_state (pm_pieces pm ! j) = NEEDED"
    if "j < length hs" for j
    using m that make_piece_ok honest_fresh [of "pm_pieces pm ! j" "cs ! j"] assms(2) by (fastforce simp: content_fits_def)
  with m assms(2) show ?thesis by (simp add: content_ok_def content_fits_def)
qed

lemma fresh_missing:
  assumes "make_manager hs pl tot = Inr pm"
  shows "int (missing_total pm) = sum_list (map num_blocks (pm_pieces pm))"
proof -
  note m = make_manager_Inr [OF assms]
  have "int (length (missing_blocks p)) = num_blocks p" if p: "p \<in> set (pm_pieces pm)" for p
  proof -
    from p m obtain j len where "make_piece (int j) len (hs ! j) = Inr p" by (metis in_set_conv_nth)
    with make_piece_ok have "p_blocks p = []" "0 < p_length p" by (auto simp: piece_ok_def)
    then show ?thesis
      using length_missing_from [of 0 "p_length p"] by (simp add: missing_blocks_def num_blocks_def)
  qed
  then have "map (\<lambda>p. int (length (missing_blocks p))) (pm_pieces pm) = map num_blocks (pm_pieces pm)" by simp
  then show ?thesis unfolding missing_total_def sum_list_of_nat [symmetric] map_map comp_def by (simp only:)
qed

lemma seed_pool_start:
  assumes "make_manager hs pl tot = Inr pm0" "addressable pm0" "content_fits cs hs pm0"
    and "bitfield_pieces (blen hs) bf = int ` {..< length hs}" "po_pm po = on_peer_bitfield peer bf pm0" "po_log po = []"
    and "dict_get (po_running po) n = Some \<lparr>tk_key = key, tk_session = new_session c, tk_phase = Looping\<rparr>"
    and "seed_connection peer c"
  shows "seed_pool cs peer n po \<and> int (pool_rank n po) = 5 * sum_list (map num_blocks (pm_pieces pm0)) + 2"
proof -
  note m = make_manager_Inr [OF assms(1)] and f = fresh_content [OF assms(1,3)]
  have len: "length cs = length hs" using assms(3) by (simp add: content_fits_def)
  have ok: "pm_ok (on_peer_bitfield peer bf pm0)" using make_manager_ok [OF assms(1)] by (rule on_peer_bitfield_ok)
  have "seed_ok cs peer (on_peer_bitfield peer bf pm0) (new_session c)"
    using ok f m assms(2,4) len
    by (auto simp: seed_ok_def session_ok_def new_session_def addressable_def content_ok_def on_peer_bitfield_def peer_set_def)
  with assms(5-8) f have "seed_pool cs peer n po"
    by (auto simp: seed_pool_def seed_task_def new_session_def on_peer_bitfield_def)
  moreover have "missing_total (on_peer_bitfield peer bf pm0) = missing_total pm0"
    by (simp add: missing_total_def on_peer_bitfield_def)
  ultimately show ?thesis
    using fresh_missing [OF assms(1)] assms(5,7) by (simp add: pool_rank_def seed_rank_def new_session_def)
qed

lemma seed_pool_over:
  assumes "seed_pool cs peer n po" "session_over n po" "j < length cs"
  shows "po_done po \<and> is_done (po_pm po) \<and> (int j, cs ! j) \<in> set (po_log po) \<and> get_piece_data (po_pm po) (int j) = Inr (cs ! j)"
proof -
  from assms(1,2) obtain t :: task where "seed_task cs peer (po_pm po) (tk_session t) Leaving" and "po_done po"
    by (auto simp: seed_pool_def session_over_def)
  then have t: "seed_ok cs peer (po_pm po) (tk_session t)" "is_done (po_pm po)" "po_done po" by (simp_all add: seed_task_def)
  then have ok: "pm_ok (po_pm po)" and len: "length (pm_pieces (po_pm po)) = length cs"
    and h: "honest (cs ! j) (pm_pieces (po_pm po) ! j)" using assms(3) by (simp_all add: seed_ok_def content_ok_def)
  have c: "p_state (pm_pieces (po_pm po) ! j) = COMPLETE" using all_complete [OF ok t(2)] assms(3) len by simp
  with pm_ok_piece [OF ok] assms(3) len have "is_complete_raw (pm_pieces (po_pm po) ! j)" by (simp add: piece_ok_def)
  with honest_complete [OF h] honest_assemble [OF h] have "assemble (pm_pieces (po_pm po) ! j) = cs ! j" by simp
  then have "get_piece_data (po_pm po) (int j) = Inr (cs ! j)"
    using c assms(3) len by (simp add: get_piece_data_def py_get_def py_index_nonneg piece_data_def)
  with t c assms(1,3) show ?thesis by (simp add: seed_pool_def)
qed

text \<open>
  A download from a seed ends: from the moment a peer that has every piece has unchoked us, and as
  long as it answers one of the requests in flight whenever we wait, each run of the session takes
  at most five steps per block and two more, never stops before it is over, and when it is over,
  the pool is done, every piece has been handed to the callback with exactly the content, and
  the manager has it.
\<close>

theorem seed_download:
  assumes "make_manager hs pl tot = Inr pm0" "addressable pm0" "content_fits cs hs pm0"
    and "bitfield_pieces (blen hs) bf = int ` {..< length hs}" "po_pm po = on_peer_bitfield peer bf pm0" "po_log po = []"
    and "dict_get (po_running po) n = Some \<lparr>tk_key = key, tk_session = new_session c, tk_phase = Looping\<rparr>"
    and "seed_connection peer c" "set_order itr" "(seed_step itr cs n ^^ k) po po'"
  shows "int k \<le> 5 * sum_list (map num_blocks (pm_pieces pm0)) + 2 \<and>
    ((\<exists>po''. seed_step itr cs n po' po'') \<or>
     po_done po' \<and> is_done (po_pm po') \<and> (\<forall>j < length hs. (int j, cs ! j) \<in> set (po_log po') \<and>
       get_piece_data (po_pm po') (int j) = Inr (cs ! j)))"
proof -
  from seed_pool_start [OF assms(1-8)] assms(9)
  have inv: "set_order itr \<and> seed_pool cs peer n po" and r: "int (pool_rank n po) = 5 * sum_list (map num_blocks (pm_pieces pm0)) + 2"
    by simp_all
  have "int k \<le> 5 * sum_list (map num_blocks (pm_pieces pm0)) + 2"
    using seedc.run_rank [OF assms(10) inv] unfolding r [symmetric] by simp
  moreover have "po_done po' \<and> is_done (po_pm po') \<and> (\<forall>j < length hs. (int j, cs ! j) \<in> set (po_log po') \<and>
       get_piece_data (po_pm po') (int j) = Inr (cs ! j))" if stuck: "\<not> (\<exists>po''. seed_step itr cs n po' po'')"
  proof -
    have inv': "seed_pool cs peer n po'" using seedc.run_inv [OF assms(10) inv] by simp
    have over: "session_over n po'" using seedc.run_ends [OF assms(10) inv stuck] .
    with inv' have "po_done po' \<and> is_done (po_pm po')" by (auto simp: seed_pool_def session_over_def seed_task_def)
    with seed_pool_over [OF inv' over] assms(3) show ?thesis by (simp add: content_fits_def)
  qed
  ultimately show ?thesis by blast
qed

text \<open>The run of \<open>PoolDemo\<close> from the unchoke on, in six steps.\<close>

lemma demo_go:
  assumes "ph \<in> {Looping, Filling, Delivering}"
  shows "seed_step itr cs 0 (demo_state ih pid pm s ph log d)
    (attempt (pool_exec itr) (StepTask 0 None []) (demo_state ih pid pm s ph log d))"
  using assms by (intro seed_step.go_on) (auto simp: demo_state_def attempt_def)

lemma demo_seed_answer:
  "seed_step sorted_list_of_set [[7]] 0
     (demo_state ih pid demo_m2 (demo_session (demo_c3 ih pid) [(0, 0)] [0]) Receiving [] False)
     (demo_state ih pid demo_m3 (demo_session (demo_c3 ih pid) [] []) Delivering [(0, [7])] False)"
    (is "seed_step _ _ _ ?po ?po'")
proof (rule seed_step.answer)
  let ?d = "[0, 0, 0, 10, 7, 0, 0, 0, 0, 0, 0, 0, 0, 7]"
  show "(0, 1) \<in> set (grid (blen ([[7]] ! nat 0)))" by (simp add: grid_def missing_from.simps BLOCK_SIZE_def)
  show "encode_message (PieceMessage 0 0 (block_of ([[7]] ! nat 0) (0, 1))) = Inr (concat [?d])"
    by (simp add: block_of_def slice_def frame_def pack_uint_def be_bytes_numeral)
  have "attempt (pool_exec sorted_list_of_set) (StepTask 0 None [Arrive ?d]) ?po = ?po'" by (rule demo_7)
  then show "pool_exec sorted_list_of_set (StepTask 0 None (map Arrive [?d])) ?po = Inr ?po'"
    by (simp add: demo_state_def attempt_def)
qed (simp add: demo_state_def, simp_all)

lemma demo_seed_run:
  "(seed_step sorted_list_of_set [[7]] 0 ^^ 6)
     (demo_state ih pid demo_m1 (demo_session (demo_c2 ih pid) [] []) Looping [] False)
     (demo_state ih pid demo_m3 (demo_session (demo_c3 ih pid) [] []) Leaving [(0, [7])] True)"
proof -
  note go = demo_go [where itr = sorted_list_of_set and cs = "[[7]]" and ih = ih and pid = pid]
  have s1: "seed_step sorted_list_of_set [[7]] 0
      (demo_state ih pid demo_m1 (demo_session (demo_c2 ih pid) [] []) Looping [] False)
      (demo_state ih pid demo_m1 (demo_session (demo_c2 ih pid) [] []) Filling [] False)"
    using go [of Looping] by (metis demo_4 insertI1)
  have s2: "seed_step sorted_list_of_set [[7]] 0
      (demo_state ih pid demo_m1 (demo_session (demo_c2 ih pid) [] []) Filling [] False)
      (demo_state ih pid demo_m2 (demo_session (demo_c3 ih pid) [(0, 0)] [0]) Filling [] False)"
    using go [of Filling] by (metis demo_5 insertCI)
  have s3: "seed_step sorted_list_of_set [[7]] 0
      (demo_state ih pid demo_m2 (demo_session (demo_c3 ih pid) [(0, 0)] [0]) Filling [] False)
      (demo_state ih pid demo_m2 (demo_session (demo_c3 ih pid) [(0, 0)] [0]) Receiving [] False)"
    using go [of Filling] by (metis demo_6 insertCI)
  have s4: "seed_step sorted_list_of_set [[7]] 0
      (demo_state ih pid demo_m3 (demo_session (demo_c3 ih pid) [] []) Delivering [(0, [7])] False)
      (demo_state ih pid demo_m3 (demo_session (demo_c3 ih pid) [] []) Looping [(0, [7])] False)"
    using go [of Delivering] by (metis demo_8 insertCI)
  have s5: "seed_step sorted_list_of_set [[7]] 0
      (demo_state ih pid demo_m3 (demo_session (demo_c3 ih pid) [] []) Looping [(0, [7])] False)
      (demo_state ih pid demo_m3 (demo_session (demo_c3 ih pid) [] []) Leaving [(0, [7])] True)"
    using go [of Looping] by (metis demo_9 insertI1)
  have six: "(6 :: nat) = Suc (Suc (Suc (Suc (Suc (Suc 0)))))" by simp
  show ?thesis
    unfolding six
    by (rule relpowp_Suc_I, rule relpowp_Suc_I, rule relpowp_Suc_I, rule relpowp_Suc_I, rule relpowp_Suc_I, rule relpowp_Suc_I,
        rule relpowp_0_I, rule s1, rule s2, rule s3, rule demo_seed_answer, rule s4, rule s5)
qed

lemma seed_download_witness:
  "\<exists>po'. (seed_step sorted_list_of_set [[7]] 0 ^^ 6)
     (demo_state (replicate 20 1) (replicate 20 2) demo_m1 (demo_session (demo_c2 (replicate 20 1) (replicate 20 2)) [] []) Looping [] False) po' \<and>
     int 6 \<le> 5 * sum_list (map num_blocks (pm_pieces demo_manager)) + 2 \<and> po_done po' \<and> get_piece_data (po_pm po') (int 0) = Inr [7]"
proof -
  note run = demo_seed_run [of "replicate 20 1" "replicate 20 2"]
  have b: "bitfield_pieces (blen [sha1 [7]]) [128] = int ` {..< length [sha1 [7]]}"
    by (auto simp: mem_bitfield_pieces bit_numeral_rec)
  have a: "addressable demo_manager" "content_fits [[7]] [sha1 [7]] demo_manager"
    by (simp_all add: addressable_def content_fits_def demo_manager_def)
  have c: "seed_connection (replicate 20 3) (demo_c2 (replicate 20 1) (replicate 20 2))"
    by (simp add: seed_connection_def live_def buffered_def is_connected_def demo_c2_def demo_c1_def demo_connection_def)
  have "\<not> (\<exists>po''. seed_step sorted_list_of_set [[7]] 0
      (demo_state (replicate 20 1) (replicate 20 2) demo_m3 (demo_session (demo_c3 (replicate 20 1) (replicate 20 2)) [] []) Leaving [(0, [7])] True) po'')"
    (is "\<not> (\<exists>po''. seed_step _ _ _ ?end po'')")
  proof (rule notI, elim exE)
    fix po''
    assume "seed_step sorted_list_of_set [[7]] 0 ?end po''"
    then show False by cases (auto simp: demo_state_def)
  qed
  with seed_download [OF demo_manager a b, of _ "replicate 20 3" 0 "[49, 58, 56, 48]" "demo_c2 (replicate 20 1) (replicate 20 2)"
      sorted_list_of_set 6, OF _ _ _ c order_sorted run] run
  show ?thesis by (auto simp: demo_state_def demo_m1_def new_session_def)
qed

end
