(* ===== verification/PrintedNumbers.thy ===== *)
theory PrintedNumbers
  imports Display Tracker
begin

section \<open>Numbers from outside can be printed\<close>

text \<open>
  Python refuses to print an integer of more than 4300 digits (ValueError).  The programs print
  numbers that come from a torrent file or from a tracker; the lemmas here say that all of them
  are short enough, because they were read from at most 4300 digits or from a few bytes.
\<close>

lemma printable_div: "printable i \<Longrightarrow> 0 < k \<Longrightarrow> printable (i div k)"
proof (rule printable_le)
  assume k: "0 < k"
  show "\<bar>i div k\<bar> \<le> \<bar>i\<bar>"
  proof (cases "0 \<le> i")
    case True
    with k zdiv_mono2 [of i 1 k] have "i div k \<le> i" "0 \<le> i div k" by (simp_all add: pos_imp_zdiv_nonneg_iff)
    then show ?thesis by simp
  next
    case False
    with k zdiv_mono2_neg [of i 1 k] have "i \<le> i div k" by simp
    moreover have "i div k < 0" using False k by (simp add: pos_imp_zdiv_neg_iff)
    ultimately show ?thesis by simp
  qed
qed

lemma printable_int: "py_dec i = Inr ds \<Longrightarrow> printable i"
  unfolding printable_def by (rule py_int_bound [OF py_int_dec])

lemma printable_bytes: "0 \<le> i \<Longrightarrow> i < 256 ^ k \<Longrightarrow> k \<le> 8 \<Longrightarrow> printable i"
proof -
  assume i: "0 \<le> i" "i < 256 ^ k" "k \<le> 8"
  have "(256 :: int) ^ k \<le> 256 ^ 8" using i(3) by (intro power_increasing) simp_all
  also have "(256 :: int) ^ 8 \<le> 10 ^ 20" by simp
  also have "(10 :: int) ^ 20 \<le> 10 ^ max_str_digits" by (intro power_increasing) (simp_all add: max_str_digits_def)
  finally show ?thesis using i by (simp add: printable_def)
qed

lemma printable_small: "\<bar>i\<bar> < 2 ^ 64 \<Longrightarrow> printable i"
  using printable_bytes [of "\<bar>i\<bar>" 8] by (simp add: printable_def)

lemma py_int_of_printable: "rewritable v \<Longrightarrow> py_int_of v = Inr i \<Longrightarrow> printable i"
  using printable_int py_int_bound
  by (cases v) (auto simp: py_int_of_def rewritable_def encodable_def printable_def bindR_Inr_iff)

lemma get_first_rewritable: "rewritable (PyDict d) \<Longrightarrow> get_first d key = PyNone \<or> rewritable (get_first d key)"
  by (auto simp: get_first_def py_lookup_def split: option.splits
      dest!: map_of_SomeD intro: conjunct1 [OF rewritable_dict_mem])

definition response_printable :: "tracker_response \<Rightarrow> bool" where
  "response_printable r \<longleftrightarrow> printable (tr_interval r) \<and>
     (\<forall>x \<in> {tr_min_interval r, tr_seeders r, tr_leechers r}. \<forall>i. x = Some i \<longrightarrow> printable i) \<and>
     (\<forall>p \<in> set (tr_peers r). printable (pi_port p))"

lemma compact_peers_printable: "p \<in> set (compact_peers b) \<Longrightarrow> printable (pi_port p)"
proof (induction b rule: compact_peers.induct)
  case (1 a b c d e f rest)
  have "printable (be_value [e, f])"
    using be_value_range [of "[e, f]"] by (intro printable_bytes [where k = "length [e, f]"]) simp_all
  with 1 show ?case by auto
qed simp_all

lemma parse_peers_printable:
  assumes "parse_peers v = Inr ps" "rewritable v" "p \<in> set ps"
  shows "printable (pi_port p)"
proof (cases v)
  case (PyBytes b)
  with assms(1,3) show ?thesis
    by (auto simp: parse_peers_def parse_compact_peers_def compact_peers_printable split: if_splits)
next
  case (PyList es)
  with assms(1) have "mapR parse_dict_peer es = Inr ps" by (simp add: parse_peers_def)
  with assms(3) obtain e where e: "e \<in> set es" "parse_dict_peer e = Inr p" using mapR_mem by fastforce
  then obtain d i where d: "e = PyDict d" "py_int_of (get_either d ''port'') = Inr i" "pi_port p = i" "get_either d ''port'' \<noteq> PyNone"
    by (auto simp: parse_dict_peer_def Let_def res_simps split: pyval.splits if_splits)
  from rewritable_list_mem e(1) assms(2) PyList d(1) have "rewritable (PyDict d)" by blast
  from get_either_rewritable [OF this, of "''port''"] d show ?thesis using py_int_of_printable by auto
qed (use assms in \<open>auto simp: parse_peers_def\<close>)

lemma optional_int_printable: "optional_int v = Inr (Some i) \<Longrightarrow> v = PyNone \<or> rewritable v \<Longrightarrow> printable i"
  using py_int_of_printable by (auto simp: optional_int_def bindR_Inr_iff split: if_splits)

lemma from_bencode_printable:
  assumes "from_bencode d = Inr r" "rewritable (PyDict d)"
  shows "response_printable r"
proof -
  from assms(1) have "get_first d ''interval'' \<noteq> PyNone" "get_first d ''peers'' \<noteq> PyNone"
    "parse_peers (get_first d ''peers'') = Inr (tr_peers r)" "py_int_of (get_first d ''interval'') = Inr (tr_interval r)"
    "optional_int (get_first d ''min interval'') = Inr (tr_min_interval r)"
    "optional_int (get_first d ''complete'') = Inr (tr_seeders r)"
    "optional_int (get_first d ''incomplete'') = Inr (tr_leechers r)"
    by (auto simp: from_bencode_def Let_def bindR_Inr_iff if_Inl_eq_Inr split: if_splits)
  with get_first_rewritable [OF assms(2)] show ?thesis
    using parse_peers_printable py_int_of_printable optional_int_printable
    by (auto simp: response_printable_def) metis+
qed

lemma do_announce_Inr:
  assumes "do_announce http base rq = Inr r"
  shows "\<exists>raw d. decode_data raw = Inr (PyDict d) \<and> from_bencode d = Inr r"
proof -
  from assms obtain url where url: "http_url base rq = Inr url" by (auto simp: do_announce_def bindR_Inr_iff)
  with assms obtain raw where raw: "http url = Reply 200 raw"
    by (cases "http url") (auto simp: do_announce_def split: if_splits)
  show ?thesis
  proof (cases "decode_data raw")
    case (Inl e)
    with assms url raw show ?thesis by (cases e) (simp_all add: do_announce_def)
  next
    case (Inr v)
    with assms url raw show ?thesis by (cases v) (auto simp: do_announce_def)
  qed
qed

lemma announce_printable:
  assumes "announce udp http t rq = Inr r"
  shows "response_printable r"
proof -
  from assms obtain u where "ask_tracker udp http (rq\<lparr>rq_info_hash := t_info_hash t\<rparr>) u = Inr r"
    unfolding announce_eq using try_urls_Inr by (auto split: if_splits)
  then consider (udp) "udp_announce (udp u) (rq\<lparr>rq_info_hash := t_info_hash t\<rparr>) = Inr r"
    | (http) "do_announce http u (rq\<lparr>rq_info_hash := t_info_hash t\<rparr>) = Inr r"
    by (auto simp: ask_tracker_def split: if_splits)
  then show ?thesis
  proof cases
    case udp
    then obtain tx resp where "parse_announce_reply tx resp = Inr r"
      by (auto simp: udp_announce_def socket_errors_def bindR_Inr_iff split: if_splits sum.splits exc.splits)
    then have "tr_peers r = compact_peers (drop 20 resp)" "tr_interval r = be_value (slice 8 12 resp)"
      "tr_min_interval r = None" "tr_seeders r = Some (be_value (slice 16 20 resp))"
      "tr_leechers r = Some (be_value (slice 12 16 resp))"
      by (auto simp: parse_announce_reply_def parse_compact_peers_def Let_def split: if_splits)
    moreover have "printable (be_value (slice a b resp))" if "b - a \<le> 8" for a b
      using that be_value_range [of "slice a b resp"]
      by (intro printable_bytes [where k = "length (slice a b resp)"]) (simp_all add: slice_def)
    ultimately show ?thesis using compact_peers_printable by (auto simp: response_printable_def)
  next
    case http
    then obtain raw d where "decode_data raw = Inr (PyDict d)" "from_bencode d = Inr r" using do_announce_Inr by blast
    with from_bencode_printable decode_rewritable show ?thesis by blast
  qed
qed

lemma piece_length_printable:
  assumes "from_bytes data = Inr t"
  shows "printable (t_piece_length t)"
proof -
  from assms obtain info where r: "rewritable (PyDict info)"
    and p: "parse_info info = Inr (t_piece_length t, t_piece_hashes t, t_name t, t_is_private t, t_files t)"
    by (rule from_bytes_Inr)
  from p have "get_either info ''piece length'' = PyInt (t_piece_length t)"
    by (auto simp: parse_info_def get_required_def Let_def res_simps split: pyval.splits if_splits)
  with get_either_rewritable [OF r, of "''piece length''"] py_int_of_printable show ?thesis
    by (simp add: py_int_of_def)
qed

lemma files_le_length:
  assumes "torrent_ok t"
  shows "0 \<le> blen (t_files t) \<and> blen (t_files t) \<le> total_length t"
proof -
  have "blen fs \<le> sum_list (map fi_length fs)" if "\<forall>f \<in> set fs. 0 < fi_length f" for fs
    using that by (induction fs) auto
  from this [of "t_files t"] assms show ?thesis by (simp add: torrent_ok_def total_length_def)
qed

end
