(* ===== verification/Downloader.thy ===== *)
theory Downloader
  imports PoolSafety FileStore PrintedNumbers
begin

section \<open>The downloader (client/main.py, \<open>run_downloader\<close>)\<close>

text \<open>
  What \<open>run_downloader\<close> adds to the components: it sets them up from one torrent file, gives the
  pool the callback that writes a verified piece and counts it, announces to the trackers, and
  shuts everything down at the end.  The whole client is the pool, the writer with the disk, and
  the counters; a client operation is an operation of the pool, followed by the callback for each
  piece the pool has handed out.

  The lemmas: every operation keeps the invariant \<open>client_ok\<close>, by which each piece the writer has
  taken reads back from the disk as it was taken last, and the counters count what was taken; the
  writer stays the one that was opened.
\<close>

subsection \<open>The callback\<close>

record downloader =
  dl_writer :: writer
  dl_disk :: disk
  dl_downloaded :: int
  dl_completed :: int
  dl_done :: bool

text \<open>\<open>max_pieces\<close> is None or a number, and zero counts as no limit.\<close>

definition target_pieces :: "int option \<Rightarrow> int \<Rightarrow> int" where
  "target_pieces max_pieces total_pieces =
     (case max_pieces of None \<Rightarrow> total_pieces | Some m \<Rightarrow> if m \<noteq> 0 then min total_pieces m else total_pieces)"

definition limit_reached :: "int option \<Rightarrow> int \<Rightarrow> bool" where
  "limit_reached max_pieces n = (case max_pieces of None \<Rightarrow> False | Some m \<Rightarrow> m \<noteq> 0 \<and> n \<ge> m)"

text \<open>\<open>on_piece_complete\<close>: nothing is counted unless the write succeeded.\<close>

definition on_piece_complete ::
  "(ustr \<Rightarrow> nat res) \<Rightarrow> ((nat \<times> int \<times> bytes) list \<Rightarrow> (nat \<times> int \<times> bytes) list) \<Rightarrow> int option \<Rightarrow> bool \<Rightarrow>
     int \<times> bytes \<Rightarrow> downloader \<Rightarrow> downloader res" where
  "on_piece_complete os sched max_pieces pm_done q dl =
     bindR (write_piece os sched (fst q) (snd q) (dl_writer dl, dl_disk dl)) (\<lambda>(w, d).
       let completed = dl_completed dl + 1 in
       Inr (dl\<lparr>dl_writer := w, dl_disk := d, dl_downloaded := dl_downloaded dl + blen (snd q),
               dl_completed := completed,
               dl_done := dl_done dl \<or> limit_reached max_pieces completed \<or> pm_done\<rparr>))"

text \<open>\<open>_on_piece_done\<close> of the pool: an exception of the callback is logged and dropped.\<close>

definition piece_done ::
  "(ustr \<Rightarrow> nat res) \<Rightarrow> ((nat \<times> int \<times> bytes) list \<Rightarrow> (nat \<times> int \<times> bytes) list) \<Rightarrow> int option \<Rightarrow> bool \<Rightarrow>
     int \<times> bytes \<Rightarrow> downloader \<Rightarrow> downloader" where
  "piece_done os sched max_pieces pm_done = attempt (on_piece_complete os sched max_pieces pm_done)"

subsection \<open>The client\<close>

record client =
  cl_torrent :: torrent
  cl_dl :: downloader
  cl_pool :: pool

definition client_peer_id :: "bytes \<Rightarrow> bytes" where
  "client_peer_id random = ascii ''-FT0001-'' @ random"

text \<open>
  The set-up, in the order of the code: the torrent file, the writer with its files, the piece
  manager, the pool.  \<open>contents\<close> is what the torrent file holds, None if there is none.
\<close>

definition open_client ::
  "(ustr \<Rightarrow> nat res) \<Rightarrow> ustr \<Rightarrow> torrent \<Rightarrow> disk \<Rightarrow> bytes \<Rightarrow> int \<Rightarrow> client res" where
  "open_client os output_dir t disk random max_peers =
     bindR (make_writer os output_dir t disk) (\<lambda>(w, d).
     bindR (make_manager (t_piece_hashes t) (t_piece_length t) (total_length t)) (\<lambda>pm.
       Inr \<lparr>cl_torrent = t,
            cl_dl = \<lparr>dl_writer = w, dl_disk = d, dl_downloaded = 0, dl_completed = 0, dl_done = False\<rparr>,
            cl_pool = new_pool pm (t_info_hash t) (client_peer_id random) max_peers\<rparr>))"

definition set_up ::
  "(ustr \<Rightarrow> nat res) \<Rightarrow> ustr \<Rightarrow> bytes option \<Rightarrow> disk \<Rightarrow> bytes \<Rightarrow> int \<Rightarrow> client res" where
  "set_up os output_dir contents disk random max_peers =
     bindR (from_path contents) (\<lambda>t. open_client os output_dir t disk random max_peers)"

text \<open>One operation of the pool, and the callback for the pieces it has handed out.\<close>

definition client_exec ::
  "(int set \<Rightarrow> int list) \<Rightarrow> (ustr \<Rightarrow> nat res) \<Rightarrow> ((nat \<times> int \<times> bytes) list \<Rightarrow> (nat \<times> int \<times> bytes) list) \<Rightarrow> int option \<Rightarrow>
     pool_op \<Rightarrow> client \<Rightarrow> unit + client" where
  "client_exec itr os sched max_pieces op cl =
     bindR (pool_exec itr op (cl_pool cl)) (\<lambda>po.
       Inr (cl\<lparr>cl_pool := po,
               cl_dl := fold (piece_done os sched max_pieces (is_done (po_pm po)))
                          (drop (length (po_log (cl_pool cl))) (po_log po)) (cl_dl cl)\<rparr>))"

subsection \<open>Announcements\<close>

definition first_announce :: "torrent \<Rightarrow> bytes \<Rightarrow> request" where
  "first_announce t peer_id =
     \<lparr>rq_info_hash = t_info_hash t, rq_peer_id = peer_id, rq_port = 6881, rq_uploaded = 0, rq_downloaded = 0,
      rq_left = total_length t, rq_event = Some Started, rq_compact = 1, rq_numwant = 50\<rparr>"

definition reannounce_request :: "torrent \<Rightarrow> bytes \<Rightarrow> downloader \<Rightarrow> request" where
  "reannounce_request t peer_id dl =
     \<lparr>rq_info_hash = t_info_hash t, rq_peer_id = peer_id, rq_port = 6881, rq_uploaded = 0,
      rq_downloaded = dl_downloaded dl, rq_left = max 0 (total_length t - dl_downloaded dl),
      rq_event = None, rq_compact = 1, rq_numwant = 50\<rparr>"

definition reannounce_interval :: "tracker_response \<Rightarrow> int" where
  "reannounce_interval resp = max (tr_interval resp) 30"

text \<open>\<open>pool.add_peers(resp.peers)\<close>: one coroutine for each peer of the answer.\<close>

definition add_peers :: "tracker_response \<Rightarrow> pool_op list" where
  "add_peers resp = map (\<lambda>p. CheckPeer (pi_ip p) (pi_port p)) (tr_peers resp)"

text \<open>
  One round of \<open>reannounce_loop\<close>: the peers it gives to \<open>add_peers\<close>.  Every exception is dropped.
\<close>

definition reannounce ::
  "(ustr \<Rightarrow> udp_world) \<Rightarrow> (ustr \<Rightarrow> http_reply) \<Rightarrow> bytes \<Rightarrow> client \<Rightarrow> pool_op list" where
  "reannounce udp http peer_id cl =
     (if dl_done (cl_dl cl) then []
      else case announce udp http (cl_torrent cl) (reannounce_request (cl_torrent cl) peer_id (cl_dl cl)) of
        Inl e \<Rightarrow> []
      | Inr resp \<Rightarrow> add_peers resp)"

text \<open>
  A round with the \<open>asyncio.sleep\<close> before it: whether the coroutine was suspended, and the peers.  An
  interval that is too large for a float makes \<open>sleep\<close> raise OverflowError before it suspends,
  and that exception is dropped too.
\<close>

definition reannounce_round ::
  "(ustr \<Rightarrow> udp_world) \<Rightarrow> (ustr \<Rightarrow> http_reply) \<Rightarrow> bytes \<Rightarrow> tracker_response \<Rightarrow> client \<Rightarrow> bool \<times> pool_op list" where
  "reannounce_round udp http peer_id first cl =
     (case int_float (reannounce_interval first) of
        Inl e \<Rightarrow> (False, [])
      | Inr seconds \<Rightarrow> (True, reannounce udp http peer_id cl))"

subsection \<open>What is printed at the start and at the end\<close>

definition bold :: "ustr \<Rightarrow> ustr" where
  "bold s = [27] @ ucs ''[1m'' @ s @ [27] @ ucs ''[0m''"

definition torrent_summary :: "torrent \<Rightarrow> ustr \<Rightarrow> int option \<Rightarrow> ustr res list" where
  "torrent_summary t output_dir max_pieces =
     [line [lit ''  Name       : '', Inr (bold (utf8_decode (t_name t)))],
      line [lit ''  Info Hash  : '', Inr (hex_text (t_info_hash t))],
      line [lit ''  Total Size : '', format_bytes (PInt (total_length t)), lit '' across '', text_int (blen (t_files t)), lit '' file(s)''],
      line [lit ''  Pieces     : '', Inr (group_digits (nat (num_pieces t))), lit '' ('', text_int (t_piece_length t div 1024), lit '' KB each)''],
      line [lit ''  Output Dir : '', Inr output_dir]] @
     (case max_pieces of None \<Rightarrow> []
      | Some m \<Rightarrow> if m \<noteq> 0 then [line [lit ''  Target     : Demo limit of '', text_int m, lit '' piece(s)'']] else [])"

text \<open>The report after the shutdown; \<open>total_time\<close> is measured, \<open>path\<close> is \<open>os.path.abspath(output_dir)\<close>.\<close>

definition final_report :: "rat \<Rightarrow> ustr \<Rightarrow> downloader \<Rightarrow> ustr res list" where
  "final_report total_time path dl =
     (case (if 0 < total_time then int_over_float (dl_downloaded dl) (Fin total_time) else Inr (Fin 0)) of
        Inl e \<Rightarrow> [Inl e]
      | Inr avg_speed \<Rightarrow>
         [Inr ([10, 27] @ ucs ''[1m'' @ [27] @ ucs ''[32m=== Download Complete ==='' @ [27] @ ucs ''[0m''),
          line [lit ''  Downloaded : '', format_bytes (PInt (dl_downloaded dl)), lit '' in '', text_int (dl_completed dl), lit '' piece(s)''],
          line [lit ''  Time taken : '', Inr (format_time (Fin total_time))],
          line [lit ''  Avg speed  : '', format_bytes (PFloat avg_speed), lit ''/s''],
          line [lit ''  Output     : '', Inr (path @ [10])]])"

subsection \<open>The whole run\<close>

text \<open>
  The end of \<open>run_downloader\<close>: the pool is shut down and the files are closed.  \<open>ends\<close> is what the
  tasks do while \<open>shutdown\<close> waits for them.
\<close>

definition close_files :: "client \<Rightarrow> client" where
  "close_files cl = cl\<lparr>cl_dl := (cl_dl cl)\<lparr>dl_writer := close (dl_writer (cl_dl cl))\<rparr>\<rparr>"

definition shut_down ::
  "(int set \<Rightarrow> int list) \<Rightarrow> (ustr \<Rightarrow> nat res) \<Rightarrow> ((nat \<times> int \<times> bytes) list \<Rightarrow> (nat \<times> int \<times> bytes) list) \<Rightarrow> int option \<Rightarrow>
     pool_op list \<Rightarrow> client \<Rightarrow> client" where
  "shut_down itr os sched max_pieces ends cl =
     close_files (run_ops (client_exec itr os sched max_pieces) (ShutdownCancel # ends @ [ShutdownClear]) cl)"

text \<open>
  \<open>run_downloader\<close>: the torrent file and its summary, the set-up, the first announce, which ends the
  run when it fails with TrackerError, the peers it brought, then everything that happens until one
  of the two events is set or the user interrupts, \<open>ops\<close>, and the end.  Of what is printed only
  the summary is kept, since it can raise.
\<close>

definition run_downloader ::
  "(int set \<Rightarrow> int list) \<Rightarrow> (ustr \<Rightarrow> nat res) \<Rightarrow> ((nat \<times> int \<times> bytes) list \<Rightarrow> (nat \<times> int \<times> bytes) list) \<Rightarrow>
     (ustr \<Rightarrow> udp_world) \<Rightarrow> (ustr \<Rightarrow> http_reply) \<Rightarrow> pool_op list \<Rightarrow> pool_op list \<Rightarrow>
     bytes option \<Rightarrow> ustr \<Rightarrow> int \<Rightarrow> int option \<Rightarrow> disk \<Rightarrow> bytes \<Rightarrow> client res" where
  "run_downloader itr os sched udp http ops ends contents output_dir max_peers max_pieces disk random =
     bindR (from_path contents) (\<lambda>t.
     bindR (snd (print_lines (torrent_summary t output_dir max_pieces))) (\<lambda>_.
     bindR (open_client os output_dir t disk random max_peers) (\<lambda>cl.
       case announce udp http t (first_announce t (client_peer_id random)) of
         Inl (TrackerError m) \<Rightarrow> Inr (close_files cl)
       | Inl e \<Rightarrow> Inl e
       | Inr resp \<Rightarrow>
           Inr (shut_down itr os sched max_pieces ends
                  (run_ops (client_exec itr os sched max_pieces) (add_peers resp @ ops) cl)))))"

subsection \<open>What the callback does to the disk\<close>

lemma piece_done_eq:
  assumes "ready (dl_writer dl) (dl_disk dl)"
  shows "piece_done os sched mp pd (i, data) dl =
    (if i < 0 \<or> num_pieces (fw_torrent (dl_writer dl)) \<le> i \<or> blen data \<noteq> piece_size (fw_torrent (dl_writer dl)) i then dl
     else dl\<lparr>dl_disk := stream_put (dl_writer dl) sched (piece_start (fw_torrent (dl_writer dl)) i) data (dl_disk dl),
             dl_downloaded := dl_downloaded dl + blen data, dl_completed := dl_completed dl + 1,
             dl_done := dl_done dl \<or> limit_reached mp (dl_completed dl + 1) \<or> pd\<rparr>)"
  by (simp add: piece_done_def attempt_def on_piece_complete_def write_piece_eq [OF assms] Let_def)

text \<open>The pieces of a log that the writer takes.\<close>

definition takes :: "torrent \<Rightarrow> int \<times> bytes \<Rightarrow> bool" where
  "takes t q \<longleftrightarrow> 0 \<le> fst q \<and> fst q < num_pieces t \<and> blen (snd q) = piece_size t (fst q)"

text \<open>The data the writer took last for each piece: what the disk is to hold.\<close>

definition last_taken :: "torrent \<Rightarrow> (int \<times> bytes) list \<Rightarrow> int \<rightharpoonup> bytes" where
  "last_taken t lg = map_of (rev (filter (takes t) lg))"

lemma last_taken_snoc:
  "last_taken t (lg @ [q]) = (if takes t q then (last_taken t lg)(fst q \<mapsto> snd q) else last_taken t lg)"
  by (cases q) (simp add: last_taken_def)

lemma last_taken_mem: "last_taken t lg i = Some d \<Longrightarrow> (i, d) \<in> set lg"
  by (auto simp: last_taken_def dest: map_of_SomeD)

lemma last_taken_Some:
  assumes "(i, d) \<in> set lg" "takes t (i, d)"
  shows "\<exists>d'. last_taken t lg i = Some d'"
proof -
  have "(i, d) \<in> set (rev (filter (takes t) lg))" using assms by simp
  then show ?thesis unfolding last_taken_def by (meson weak_map_of_SomeI)
qed

text \<open>
  The state after a log: each piece the writer took reads back as it was taken last, and the
  counters count what was taken.
\<close>

definition dl_ok :: "(ustr \<Rightarrow> nat res) \<Rightarrow> torrent \<Rightarrow> (int \<times> bytes) list \<Rightarrow> downloader \<Rightarrow> bool" where
  "dl_ok os t lg dl \<longleftrightarrow> ready (dl_writer dl) (dl_disk dl) \<and> fw_torrent (dl_writer dl) = t \<and>
     (\<forall>i d. last_taken t lg i = Some d \<longrightarrow>
        read_piece os i None (dl_writer dl, dl_disk dl) = Inr (d, dl_writer dl, dl_disk dl)) \<and>
     dl_completed dl = blen (filter (takes t) lg) \<and>
     dl_downloaded dl = sum_list (map (\<lambda>q. blen (snd q)) (filter (takes t) lg))"

lemma piece_done_ok:
  assumes "dl_ok os t lg dl" "any_order sched"
  shows "dl_ok os t (lg @ [q]) (piece_done os sched mp pd q dl)"
proof -
  obtain i data where q: "q = (i, data)" by (cases q)
  let ?dl = "piece_done os sched mp pd (i, data) dl" and ?w = "dl_writer dl" and ?d = "dl_disk dl"
  from assms(1) have r: "ready ?w ?d" and t: "fw_torrent ?w = t" by (simp_all add: dl_ok_def)
  show ?thesis
  proof (cases "takes t q")
    case False
    then have "?dl = dl" unfolding q piece_done_eq [OF r] by (auto simp: takes_def t)
    with False assms(1) q show ?thesis by (simp add: dl_ok_def last_taken_snoc)
  next
    case True
    let ?d' = "stream_put ?w sched (piece_start t i) data ?d"
    have i: "0 \<le> i" "i < num_pieces t" "blen data = piece_size t i" using True by (simp_all add: takes_def q)
    have dl: "?dl = dl\<lparr>dl_disk := ?d', dl_downloaded := dl_downloaded dl + blen data,
        dl_completed := dl_completed dl + 1, dl_done := dl_done dl \<or> limit_reached mp (dl_completed dl + 1) \<or> pd\<rparr>"
      unfolding piece_done_eq [OF r] using i by (simp add: t)
    have w: "write_piece os sched i data (?w, ?d) = Inr (?w, ?d')" using i by (simp add: write_piece_eq [OF r] t)
    have "read_piece os k None (?w, ?d') = Inr (d, ?w, ?d')"
      if "((last_taken t lg)(i \<mapsto> data)) k = Some d" for k d
    proof (cases "k = i")
      case True
      with read_after_write [OF r assms(2) w] that show ?thesis by simp
    next
      case False
      with that assms(1) have "read_piece os k None (?w, ?d) = Inr (d, ?w, ?d)" by (simp add: dl_ok_def)
      with read_other_after_write [OF r assms(2) w False] show ?thesis by simp
    qed
    moreover have "ready ?w ?d'" using ready_put [OF r assms(2)] .
    ultimately show ?thesis using assms(1) True q by (simp add: dl_ok_def dl last_taken_snoc)
  qed
qed

lemma piece_done_fold:
  assumes "dl_ok os t lg dl" "any_order sched"
  shows "dl_ok os t (lg @ new) (fold (piece_done os sched mp pd) new dl)"
  using assms
proof (induction new arbitrary: lg dl)
  case (Cons q new)
  from Cons.prems piece_done_ok [of os t lg dl sched q mp pd] have "dl_ok os t (lg @ [q]) (piece_done os sched mp pd q dl)" by simp
  from Cons.IH [OF this] Cons.prems show ?case by simp
qed simp

subsection \<open>The client as a whole\<close>

definition client_ok :: "(ustr \<Rightarrow> nat res) \<Rightarrow> client \<Rightarrow> bool" where
  "client_ok os cl \<longleftrightarrow> pool_ok (cl_pool cl) \<and>
     map p_hash (pm_pieces (po_pm (cl_pool cl))) = t_piece_hashes (cl_torrent cl) \<and>
     dl_ok os (cl_torrent cl) (po_log (cl_pool cl)) (cl_dl cl)"

text \<open>The log only grows.\<close>

lemma pool_exec_log:
  assumes "pool_exec itr op po = Inr po'"
  shows "\<exists>new. po_log po' = po_log po @ new"
  using assms
  by (cases op)
    (auto simp: check_peer_def finish_connect_def register_session_def record_task_def step_task_def disconnect_def
      shutdown_cancel_def shutdown_clear_def Let_def split: if_splits sum.splits prod.splits option.splits)

lemma client_exec_ok:
  assumes "client_exec itr os sched mp op cl = Inr cl'" "set_order itr \<and> any_order sched" "client_ok os cl"
  shows "client_ok os cl' \<and> cl_torrent cl' = cl_torrent cl"
proof -
  from assms(1) obtain po where po: "pool_exec itr op (cl_pool cl) = Inr po"
    and cl': "cl' = cl\<lparr>cl_pool := po, cl_dl := fold (piece_done os sched mp (is_done (po_pm po)))
                          (drop (length (po_log (cl_pool cl))) (po_log po)) (cl_dl cl)\<rparr>"
    by (auto simp: client_exec_def res_simps)
  from pool_exec_log [OF po] obtain new where new: "po_log po = po_log (cl_pool cl) @ new" by blast
  from pool_exec_ok [OF po] assms(2,3) have ok: "pool_ok po" and c: "calls itr (po_pm (cl_pool cl)) (po_pm po)"
    by (simp_all add: client_ok_def)
  have hs: "map p_hash (pm_pieces (po_pm po)) = t_piece_hashes (cl_torrent cl)"
    using layout_hashes [OF calls_ok [OF c, THEN conjunct2]] assms(2,3) by (simp add: client_ok_def pool_ok_def)
  from piece_done_fold [of os "cl_torrent cl" "po_log (cl_pool cl)" "cl_dl cl" sched new] assms(2,3)
  show ?thesis using ok hs by (simp add: client_ok_def cl' new)
qed

interpretation clientc: framed_operations "client_exec itr os sched mp" "\<lambda>op. set_order itr \<and> any_order sched"
    "client_ok os" cl_torrent
  for itr os sched mp
  by unfold_locales (use client_exec_ok in blast)+

text \<open>A parsed torrent always gives a piece manager.\<close>

lemma make_manager_torrent:
  assumes "torrent_ok t" "0 < total_length t"
  shows "\<exists>pm. make_manager (t_piece_hashes t) (t_piece_length t) (total_length t) = Inr pm"
proof -
  have pl: "0 < t_piece_length t" using assms(1) by (simp add: torrent_ok_def)
  have "\<exists>p. bindR (piece_length_at n (t_piece_length t) (total_length t) (int i)) (\<lambda>len. make_piece (int i) len h) = Inr p"
    if "length h = 20" for i h n
    using that pl by (auto simp: piece_length_at_def make_piece_def Let_def)
  then have "\<exists>ps. mapR (\<lambda>(i, h). bindR (piece_length_at (blen (t_piece_hashes t)) (t_piece_length t) (total_length t) (int i))
      (\<lambda>len. make_piece (int i) len h)) (enumerate 0 (t_piece_hashes t)) = Inr ps"
    using assms(1) by (intro mapR_exists) (auto simp: torrent_ok_def in_set_enumerate_eq)
  then show ?thesis by (auto simp: make_manager_def)
qed

lemma make_writer_fields:
  "make_writer os dir t d = Inr (w, d') \<Longrightarrow> fw_torrent w = t \<and> fw_closed w = False"
  by (auto simp: make_writer_def open_files_def res_simps split: prod.splits)

lemma set_up_ok:
  assumes "set_up os dir contents disk random n = Inr cl"
    and "ready (dl_writer (cl_dl cl)) (dl_disk (cl_dl cl))"
  shows "client_ok os cl"
proof -
  from assms(1) obtain t w d pm where t: "from_path contents = Inr t"
    and w: "make_writer os dir t disk = Inr (w, d)"
    and pm: "make_manager (t_piece_hashes t) (t_piece_length t) (total_length t) = Inr pm"
    and cl: "cl = \<lparr>cl_torrent = t, cl_dl = \<lparr>dl_writer = w, dl_disk = d, dl_downloaded = 0, dl_completed = 0, dl_done = False\<rparr>,
            cl_pool = new_pool pm (t_info_hash t) (client_peer_id random) n\<rparr>"
    by (auto simp: set_up_def open_client_def res_simps)
  have "pool_ok (cl_pool cl) \<and> map p_hash (pm_pieces (po_pm (cl_pool cl))) = t_piece_hashes t \<and> po_log (cl_pool cl) = []"
    using pool_reached [OF pm, of sorted_list_of_set "cl_pool cl" "[]"]
    by (simp add: cl set_order_def run_ops_def) (simp add: new_pool_def)
  then show ?thesis using assms(2) make_writer_fields [OF w] by (simp add: client_ok_def dl_ok_def last_taken_def cl)
qed

text \<open>What was handed out and taken is on the disk, as it was handed out last.\<close>

lemma client_disk:
  assumes "client_ok os cl" "(i, d) \<in> set (po_log (cl_pool cl))" "blen d = piece_size (cl_torrent cl) i"
  shows "\<exists>r. (i, r) \<in> set (po_log (cl_pool cl)) \<and> sha1 r = t_piece_hashes (cl_torrent cl) ! nat i \<and>
    read_piece os i None (dl_writer (cl_dl cl), dl_disk (cl_dl cl)) = Inr (r, dl_writer (cl_dl cl), dl_disk (cl_dl cl))"
proof -
  have hs: "map p_hash (pm_pieces (po_pm (cl_pool cl))) = t_piece_hashes (cl_torrent cl)" using assms(1) by (simp add: client_ok_def)
  have v: "0 \<le> k \<and> nat k < length (t_piece_hashes (cl_torrent cl)) \<and> sha1 e = t_piece_hashes (cl_torrent cl) ! nat k"
    if "(k, e) \<in> set (po_log (cl_pool cl))" for k e
  proof -
    from assms(1) that have "0 \<le> k \<and> nat k < length (pm_pieces (po_pm (cl_pool cl))) \<and>
        sha1 e = p_hash (pm_pieces (po_pm (cl_pool cl)) ! nat k)"
      by (auto simp: client_ok_def pool_ok_def verified_log_def)
    with hs show ?thesis by (metis length_map nth_map)
  qed
  with assms(2,3) have "takes (cl_torrent cl) (i, d)" by (force simp: takes_def num_pieces_def)
  from last_taken_Some [OF assms(2) this] obtain r where r: "last_taken (cl_torrent cl) (po_log (cl_pool cl)) i = Some r" by blast
  with assms(1) v [OF last_taken_mem [OF r]] show ?thesis
    by (intro exI [of _ r]) (simp add: client_ok_def dl_ok_def last_taken_mem)
qed

text \<open>The writer stays the one that was opened.\<close>

lemma piece_done_writer: "ready (dl_writer dl) (dl_disk dl) \<Longrightarrow> dl_writer (piece_done os sched mp pd q dl) = dl_writer dl"
  by (cases q) (simp add: piece_done_eq)

lemma client_exec_writer:
  assumes "client_exec itr os sched mp op cl = Inr cl'" "any_order sched" "client_ok os cl"
  shows "dl_writer (cl_dl cl') = dl_writer (cl_dl cl)"
proof -
  have "dl_writer (fold (piece_done os sched mp pd) new dl) = dl_writer dl" if "dl_ok os t lg dl" for t lg new dl pd
    using that
  proof (induction new arbitrary: lg dl)
    case (Cons q new)
    from Cons.IH [OF piece_done_ok [OF Cons.prems assms(2)]] piece_done_writer Cons.prems show ?case
      by (simp add: dl_ok_def)
  qed simp
  with assms(1,3) show ?thesis by (auto simp: client_exec_def client_ok_def res_simps)
qed

interpretation client_writer: framed_operations "client_exec itr os sched mp" "\<lambda>op. set_order itr \<and> any_order sched"
    "client_ok os" "\<lambda>cl. dl_writer (cl_dl cl)"
  for itr os sched mp
  by unfold_locales (use client_exec_writer in blast)

end
