(* ===== verification/LiveStats.thy ===== *)
theory LiveStats
  imports PrintedNumbers
begin

section \<open>Swarm statistics (client/live_stats.py)\<close>

text \<open>
  The second program of the repository: it parses a torrent, announces once with a fixed peer id
  and prints what the tracker answered.  What \<open>main\<close> prints is the list of its lines; an exception
  ends it.

  The lemmas: what \<open>main\<close> prints when all goes well; which exceptions leave it.
\<close>

subsection \<open>Lines\<close>

text \<open>\<open>bytes.decode()\<close> without \<open>errors=\<close>: only well-formed UTF-8 is accepted.\<close>

definition strict_decode :: "bytes \<Rightarrow> ustr res" where
  "strict_decode b = (let s = utf8_decode b in if utf8_encode s = Inr b then Inr s else Inl UnicodeDecodeError)"

definition text_bool :: "bool \<Rightarrow> ustr" where
  "text_bool b = ucs (if b then ''True'' else ''False'')"

definition text_option :: "int option \<Rightarrow> ustr res" where
  "text_option x = (case x of None \<Rightarrow> lit ''None'' | Some i \<Rightarrow> text_int i)"

definition rule_line :: "ustr res" where
  "rule_line = Inr (replicate 60 61)"

definition heading :: "string \<Rightarrow> ustr res list" where
  "heading title = [rule_line, lit (''  '' @ title), rule_line]"

definition backup_lines :: "torrent \<Rightarrow> ustr res list" where
  "backup_lines t =
     (if t_announce_list t = [] then []
      else lit ''  Backups   :'' #
        map (\<lambda>url. Inr (replicate 14 32 @ url)) (filter (\<lambda>url. url \<noteq> t_announce t) (concat (t_announce_list t))))"

definition torrent_info :: "torrent \<Rightarrow> ustr res list" where
  "torrent_info t =
     [lit ''''] @ heading ''Torrent Info'' @
     [line [lit ''  Name      : '', strict_decode (t_name t)],
      line [lit ''  Info hash : '', Inr (hex_text (t_info_hash t))],
      line [lit ''  Size      : '', bindR (int_div (total_length t) (1024 ^ 3)) (\<lambda>x. Inr (format_fixed 2 x)), lit '' GB''],
      line [lit ''  Pieces    : '', Inr (group_digits (nat (num_pieces t))), lit ''  ('',
            text_int (t_piece_length t div 1024), lit '' KB each)''],
      line [lit ''  Files     : '', text_int (blen (t_files t))],
      line [lit ''  Private   : '', Inr (text_bool (t_is_private t))],
      line [lit ''  Tracker   : '', Inr (t_announce t)]] @
     backup_lines t @ [lit '''', lit ''  Announcing to tracker...'', lit '''']"

definition peer_line :: "peer_info \<Rightarrow> ustr res" where
  "peer_line p = line [lit ''    '', Inr (pi_ip p), lit '':'', text_int (pi_port p)]"

definition swarm_stats :: "tracker_response \<Rightarrow> ustr res list" where
  "swarm_stats r =
     heading ''Live Swarm Stats'' @
     [line [lit ''  Seeders   : '', text_option (tr_seeders r)],
      line [lit ''  Leechers  : '', text_option (tr_leechers r)],
      line [lit ''  Peers got : '', text_int (blen (tr_peers r))],
      line [lit ''  Interval  : '', text_int (tr_interval r), lit ''s  (re-announce every '',
            text_int (tr_interval r div 60), lit '' min)'']] @
     (case tr_min_interval r of None \<Rightarrow> []
      | Some i \<Rightarrow> if i \<noteq> 0 then [line [lit ''  Min intv. : '', text_int i, lit ''s'']] else []) @
     (case tr_warning r of None \<Rightarrow> []
      | Some w \<Rightarrow> if w \<noteq> [] then [line [lit ''  Warning   : '', Inr w]] else []) @
     [lit '''', lit ''  Peer List:'', Inr (ucs ''  '' @ replicate 40 45)] @
     map peer_line (tr_peers r) @ [rule_line, lit '''']"

subsection \<open>The program\<close>

definition stats_request :: "torrent \<Rightarrow> request" where
  "stats_request t =
     \<lparr>rq_info_hash = t_info_hash t, rq_peer_id = ascii ''-AG0001-'' @ replicate 12 120, rq_port = 6881,
      rq_uploaded = 0, rq_downloaded = 0, rq_left = total_length t, rq_event = Some Started, rq_compact = 1,
      rq_numwant = 50\<rparr>"

text \<open>\<open>main\<close>; \<open>contents\<close> is what the torrent file holds, None if there is none.\<close>

definition live_stats ::
  "(ustr \<Rightarrow> udp_world) \<Rightarrow> (ustr \<Rightarrow> http_reply) \<Rightarrow> bytes option \<Rightarrow> printed" where
  "live_stats udp http contents =
     (case from_path contents of
        Inl e \<Rightarrow> ([], Inl e)
      | Inr t \<Rightarrow>
          and_then (print_lines (torrent_info t))
            (case announce udp http t (stats_request t) of
               Inl (TrackerError m) \<Rightarrow> print_lines [lit (''  ERROR: '' @ m)]
             | Inl e \<Rightarrow> ([], Inl e)
             | Inr r \<Rightarrow> print_lines (swarm_stats r)))"

subsection \<open>What it prints\<close>

lemma strict_decode_iff: "strict_decode b = Inr s \<longleftrightarrow> utf8_encode s = Inr b"
  using utf8_decode_encode [of s b "[]"] by (auto simp: strict_decode_def Let_def)

lemma size_fits:
  assumes "displayable n"
  shows "\<exists>x. int_div n (1024 ^ 3) = Inr x"
proof -
  have "(of_int \<bar>n\<bar> :: rat) < of_int (2 ^ 1023)" using assms unfolding displayable_def by (simp only: of_int_less_iff)
  also have "\<dots> = 2 powi 1023" by simp
  finally have n: "\<bar>of_int n :: rat\<bar> < 2 powi 1023" by simp
  have "\<bar>of_int n / of_int (1024 ^ 3)\<bar> \<le> \<bar>of_int n :: rat\<bar>"
    by (simp add: abs_divide divide_le_eq mult_le_cancel_left1)
  with n have "\<bar>of_int n / of_int (1024 ^ 3) :: rat\<bar> < 2 powi 1023" by linarith
  from to_float_finite [OF this] show ?thesis by (auto simp: int_div_def)
qed

lemma torrent_info_ok:
  assumes "from_bytes data = Inr t" "utf8_encode name = Inr (t_name t)" "displayable (total_length t)"
  shows "\<forall>l \<in> set (torrent_info t). \<exists>s. l = Inr s"
proof -
  from from_bytes_ok [OF assms(1)] have ok: "torrent_ok t" by simp
  have "strict_decode (t_name t) = Inr name" using assms(2) strict_decode_iff by blast
  moreover obtain x where "int_div (total_length t) (1024 ^ 3) = Inr x" using size_fits [OF assms(3)] by blast
  moreover obtain u where "text_int (t_piece_length t div 1024) = Inr u"
    using text_int_printable printable_div [OF piece_length_printable [OF assms(1)], of 1024] by auto
  moreover have "printable (blen (t_files t))"
    using files_le_length [OF ok] printable_le [OF displayable_printable [OF assms(3)]] by simp
  then obtain v where "text_int (blen (t_files t)) = Inr v" using text_int_printable by blast
  ultimately show ?thesis
    by (auto simp: torrent_info_def heading_def rule_line_def backup_lines_def lit_def line_def)
qed

lemma swarm_stats_ok:
  assumes "response_printable r" "printable (blen (tr_peers r))"
  shows "\<forall>l \<in> set (swarm_stats r). \<exists>s. l = Inr s"
proof -
  have "\<exists>s. text_option x = Inr s" if "x \<in> {tr_seeders r, tr_leechers r}" for x
  proof (cases x)
    case (Some i)
    with that assms(1) have "printable i" by (auto simp: response_printable_def)
    with Some text_int_printable show ?thesis by (simp add: text_option_def)
  qed (simp add: text_option_def lit_def)
  moreover have "\<exists>s. text_int i = Inr s" if "i \<in> {blen (tr_peers r), tr_interval r, tr_interval r div 60}" for i
    using that assms text_int_printable printable_div by (fastforce simp: response_printable_def)
  moreover have "\<exists>s. text_int i = Inr s" if "tr_min_interval r = Some i" for i
    using that assms(1) text_int_printable by (simp add: response_printable_def)
  moreover have "\<exists>s. peer_line p = Inr s" if "p \<in> set (tr_peers r)" for p
    unfolding peer_line_def using that assms(1) text_int_printable
    by (intro line_Inr) (auto simp: lit_def response_printable_def)
  ultimately show ?thesis
    by (auto simp: swarm_stats_def heading_def rule_line_def lit_def intro!: line_Inr split: option.splits)
qed

lemma live_stats_prints:
  assumes "from_path contents = Inr t" "utf8_encode name = Inr (t_name t)" "displayable (total_length t)"
    and "announce udp http t (stats_request t) = Inr r" "printable (blen (tr_peers r))"
  shows "\<exists>pre peers. live_stats udp http contents = (pre @ peers @ [replicate 60 61, []], Inr ()) \<and>
    map Inr peers = map peer_line (tr_peers r)"
proof -
  from assms(1) obtain data where d: "from_bytes data = Inr t"
    by (auto simp: from_path_def split: option.splits)
  from print_lines_all [OF torrent_info_ok [OF d assms(2,3)]] obtain out1 where
    1: "print_lines (torrent_info t) = (out1, Inr ())" by blast
  from print_lines_all [OF swarm_stats_ok [OF announce_printable [OF assms(4)] assms(5)]] obtain out2 where
    2: "print_lines (swarm_stats r) = (out2, Inr ())" "swarm_stats r = map Inr out2" by blast
  obtain front where "swarm_stats r = front @ map peer_line (tr_peers r) @ [rule_line, lit '''']"
    by (simp add: swarm_stats_def)
  with 2(2) have "map Inr out2 = front @ map peer_line (tr_peers r) @ [rule_line, lit '''']" by simp
  then obtain a b c where o: "out2 = a @ b @ c" "map Inr b = map peer_line (tr_peers r)" "map Inr c = [rule_line, lit '''']"
    by (auto simp: map_eq_append_conv append_eq_map_conv)
  from o(3) have "c = [replicate 60 61, []]" by (auto simp: rule_line_def lit_def)
  with o 1 2 assms(1,4) show ?thesis
    by (intro exI [of _ "out1 @ a"] exI [of _ b]) (simp add: live_stats_def and_then_def)
qed

lemma live_stats_raises:
  assumes "snd (live_stats udp http contents) = Inl e"
  shows "from_path contents = Inl e \<or>
    (\<exists>t. from_path contents = Inr t \<and>
      ((\<forall>s. utf8_encode s \<noteq> Inr (t_name t)) \<or> \<not> displayable (total_length t) \<or>
       (\<exists>r. announce udp http t (stats_request t) = Inr r \<and> \<not> printable (blen (tr_peers r)))))"
proof (cases "from_path contents")
  case (Inr t)
  show ?thesis
  proof (rule ccontr)
    assume n: "\<not> ?thesis"
    from Inr obtain data where d: "from_bytes data = Inr t"
      by (auto simp: from_path_def split: option.splits)
    from n Inr obtain s where s: "utf8_encode s = Inr (t_name t)" "displayable (total_length t)" by blast
    from print_lines_all [OF torrent_info_ok [OF d s]] obtain out where
      1: "print_lines (torrent_info t) = (out, Inr ())" by blast
    show False
    proof (cases "announce udp http t (stats_request t)")
      case (Inl e')
      then obtain m where "e' = TrackerError m" using announce_Inl by blast
      with assms Inr 1 Inl show False by (simp add: live_stats_def and_then_def lit_def)
    next
      case r: (Inr r)
      with n Inr have "printable (blen (tr_peers r))" by blast
      from live_stats_prints [OF Inr s r this] assms show False by auto
    qed
  qed
qed (use assms in \<open>simp add: live_stats_def\<close>)

text \<open>A name that is not UTF-8 ends the program in the first lines.\<close>

lemma name_not_utf8:
  assumes "from_path contents = Inr t" "\<forall>s. utf8_encode s \<noteq> Inr (t_name t)"
  shows "snd (live_stats udp http contents) = Inl UnicodeDecodeError"
proof -
  have "strict_decode (t_name t) = Inl UnicodeDecodeError" using assms(2) by (simp add: strict_decode_def Let_def)
  then have "snd (print_lines (torrent_info t)) = Inl UnicodeDecodeError"
    by (simp add: torrent_info_def heading_def rule_line_def lit_def line_def split: prod.splits)
  with assms(1) show ?thesis by (simp add: live_stats_def and_then_def)
qed

end
