(* ===== verification/ClientRuns.thy ===== *)
theory ClientRuns
  imports Downloader PoolDemo SeedSession LiveStats
begin

section \<open>Runs of the client\<close>

text \<open>
  What holds in every state of a client that was set up: the invariant, the pool inside the
  client, the lengths of the pieces.  The client whose session downloads from a seed.  The whole
  of \<open>run_downloader\<close>: how it ends, and what is on the disk then.  One run with all its values, for
  the witnesses.
\<close>

lemma set_up_ready:
  assumes "set_up os dir contents disk random n = Inr cl"
    and "distinct (map (\<lambda>f. os (path_join dir (fi_path f))) (t_files (cl_torrent cl)))"
    and "\<forall>f \<in> set (t_files (cl_torrent cl)). \<exists>h. os (path_join dir (fi_path f)) = Inr h"
  shows "client_ok os cl \<and> torrent_ok (cl_torrent cl)"
proof -
  from assms(1) obtain raw t w d pm where t: "contents = Some raw" "from_bytes raw = Inr t"
    and w: "make_writer os dir t disk = Inr (w, d)"
    and cl: "cl_torrent cl = t" "dl_writer (cl_dl cl) = w" "dl_disk (cl_dl cl) = d"
    by (auto simp: set_up_def open_client_def from_path_def res_simps split: option.splits)
  from t(2) have ok: "torrent_ok t" using from_bytes_ok by blast
  with make_writer_opens [OF ok, of os dir disk] assms(2,3) w cl have "ready w d" by auto
  with set_up_ok [OF assms(1)] ok cl show ?thesis by simp
qed

lemma client_reached:
  assumes "set_up os dir contents disk random n = Inr cl0"
    and "distinct (map (\<lambda>f. os (path_join dir (fi_path f))) (t_files (cl_torrent cl0)))"
    and "\<forall>f \<in> set (t_files (cl_torrent cl0)). \<exists>h. os (path_join dir (fi_path f)) = Inr h"
    and "set_order itr" "any_order sched" "cl = run_ops (client_exec itr os sched mp) ops cl0"
  shows "client_ok os cl \<and> cl_torrent cl = cl_torrent cl0"
  using clientc.run_inv [of ops itr sched os cl0 mp] clientc.run_frame [of ops itr sched os cl0 mp]
    set_up_ready [OF assms(1-3)] assms(4-6) by simp

lemma client_pool:
  "cl_pool (run_ops (client_exec itr os sched mp) ops cl) = run_ops (pool_exec itr) ops (cl_pool cl)"
  unfolding run_ops_def
  by (induction ops arbitrary: cl) (auto simp: attempt_def client_exec_def split: sum.split)

lemma lengths_agree:
  assumes "from_bytes raw = Inr t" "num_pieces t = (total_length t + t_piece_length t - 1) div t_piece_length t"
    and "make_manager (t_piece_hashes t) (t_piece_length t) (total_length t) = Inr pm" "j < length (t_piece_hashes t)"
  shows "p_length (pm_pieces pm ! j) = piece_size t (int j)"
proof -
  let ?pl = "t_piece_length t" and ?tot = "total_length t" and ?n = "blen (t_piece_hashes t)"
  from from_bytes_ok [OF assms(1)] have pl: "0 < ?pl" "0 < ?tot" "\<forall>h \<in> set (t_piece_hashes t). length h = 20"
    by (simp_all add: torrent_ok_def)
  have n: "?n = (?tot + ?pl - 1) div ?pl" using assms(2) by (simp add: num_pieces_def)
  from manager_lengths [OF pl n] assms(3) have
    l: "\<forall>j < length (t_piece_hashes t). p_length (pm_pieces pm ! j) = (if int j < ?n - 1 then ?pl else ?tot - (?n - 1) * ?pl)"
    and r: "\<forall>p \<in> set (pm_pieces pm). p_length p \<le> ?pl" by auto
  have last: "0 < ?tot - (?n - 1) * ?pl"
    unfolding last_piece_length [OF pl(1) n, symmetric] using pl(1) by simp
  have r: "p_length (pm_pieces pm ! j) \<le> ?pl" using r assms(4) make_manager_Inr [OF assms(3)] by simp
  show ?thesis
  proof (cases "int j < ?n - 1")
    case True
    then have "(int j + 1) * ?pl \<le> (?n - 1) * ?pl" using pl(1) by (intro mult_right_mono) simp_all
    then have "?pl \<le> ?tot - int j * ?pl" using last by (simp add: algebra_simps)
    with True l assms(4) show ?thesis by (simp add: piece_size_def piece_start_def)
  next
    case False
    with assms(4) have j: "int j = ?n - 1" by linarith
    with l assms(4) r show ?thesis by (simp add: piece_size_def piece_start_def)
  qed
qed

subsection \<open>A session with a seed\<close>

text \<open>The client while one of its sessions downloads from a seed, as in \<open>SeedSession\<close>.\<close>

definition seed_client ::
  "(int set \<Rightarrow> int list) \<Rightarrow> (ustr \<Rightarrow> nat res) \<Rightarrow> ((nat \<times> int \<times> bytes) list \<Rightarrow> (nat \<times> int \<times> bytes) list) \<Rightarrow> int option \<Rightarrow>
     bytes list \<Rightarrow> nat \<Rightarrow> client \<Rightarrow> client \<Rightarrow> bool" where
  "seed_client itr os sched mp cs n cl cl' \<longleftrightarrow>
     (\<exists>op. client_exec itr os sched mp op cl = Inr cl') \<and> seed_step itr cs n (cl_pool cl) (cl_pool cl')"

lemma seed_client_run:
  assumes "(seed_client itr os sched mp cs n ^^ k) cl cl'"
  shows "(seed_step itr cs n ^^ k) (cl_pool cl) (cl_pool cl') \<and> (\<exists>ops. cl' = run_ops (client_exec itr os sched mp) ops cl)"
  using assms
proof (induction k arbitrary: cl')
  case 0
  then show ?case by (auto simp: run_ops_def intro: exI [of _ "[]"])
next
  case (Suc k)
  then obtain cl1 where c: "(seed_client itr os sched mp cs n ^^ k) cl cl1" "seed_client itr os sched mp cs n cl1 cl'"
    by (elim relpowp_Suc_E)
  from c(2) obtain op where 1: "client_exec itr os sched mp op cl1 = Inr cl'" "seed_step itr cs n (cl_pool cl1) (cl_pool cl')"
    by (auto simp: seed_client_def)
  from Suc.IH [OF c(1)] obtain ops where "(seed_step itr cs n ^^ k) (cl_pool cl) (cl_pool cl1)"
    "cl1 = run_ops (client_exec itr os sched mp) ops cl" by blast
  with 1 show ?case by (intro conjI exI [of _ "ops @ [op]"]) (auto simp: run_ops_def attempt_def)
qed

lemma seed_client_progress:
  assumes "seed_step itr cs n (cl_pool cl) po'"
  shows "\<exists>cl'. seed_client itr os sched mp cs n cl cl' \<and> cl_pool cl' = po'"
proof -
  from assms obtain op where "pool_exec itr op (cl_pool cl) = Inr po'" by (cases rule: seed_step.cases) blast+
  then obtain cl' where "client_exec itr os sched mp op cl = Inr cl'" "cl_pool cl' = po'" by (simp add: client_exec_def)
  with assms show ?thesis by (auto simp: seed_client_def)
qed

lemma seed_client_lift:
  assumes "(seed_step itr cs n ^^ k) (cl_pool cl) po'"
  shows "\<exists>cl'. (seed_client itr os sched mp cs n ^^ k) cl cl' \<and> cl_pool cl' = po'"
  using assms
proof (induction k arbitrary: po')
  case (Suc k)
  then obtain po1 where "(seed_step itr cs n ^^ k) (cl_pool cl) po1" "seed_step itr cs n po1 po'"
    by (elim relpowp_Suc_E)
  with Suc.IH obtain cl1 where 1: "(seed_client itr os sched mp cs n ^^ k) cl cl1" "seed_step itr cs n (cl_pool cl1) po'" by blast
  from seed_client_progress [OF 1(2)] 1(1) show ?case by (blast intro: relpowp_Suc_I)
qed auto

lemma set_up_manager:
  "set_up os dir contents disk random m = Inr cl \<Longrightarrow>
     make_manager (t_piece_hashes (cl_torrent cl)) (t_piece_length (cl_torrent cl)) (total_length (cl_torrent cl)) =
       Inr (po_pm (cl_pool cl)) \<and> (\<exists>raw. from_bytes raw = Inr (cl_torrent cl))"
  by (auto simp: set_up_def open_client_def from_path_def new_pool_def res_simps split: option.splits prod.splits)

subsection \<open>The whole run\<close>

text \<open>The summary can be computed for any torrent that is shorter than 2^1023 bytes.\<close>

lemma summary_ok:
  assumes "from_bytes raw = Inr t" "displayable (total_length t)" "\<forall>m. mp = Some m \<longrightarrow> printable m"
  shows "snd (print_lines (torrent_summary t dir mp)) = Inr ()"
proof -
  from from_bytes_ok [OF assms(1)] have ok: "torrent_ok t" by simp
  obtain a where "format_bytes (PInt (total_length t)) = Inr a" using format_bytes_total [OF assms(2)] by blast
  moreover obtain b where "text_int (t_piece_length t div 1024) = Inr b"
    using text_int_printable printable_div [OF piece_length_printable [OF assms(1)], of 1024] by auto
  moreover have "printable (blen (t_files t))"
    using files_le_length [OF ok] printable_le [OF displayable_printable [OF assms(2)]] by simp
  then obtain c where "text_int (blen (t_files t)) = Inr c" using text_int_printable by blast
  moreover have "\<exists>s. text_int m = Inr s" if "mp = Some m" for m using that assms(3) text_int_printable by blast
  ultimately have "\<forall>l \<in> set (torrent_summary t dir mp). \<exists>s. l = Inr s"
    by (auto simp: torrent_summary_def lit_def line_def split: option.splits)
  from print_lines_all [OF this] show ?thesis by auto
qed

lemma final_report_ok:
  assumes "displayable (dl_downloaded dl)" "printable (dl_completed dl)"
  shows "\<forall>l \<in> set (final_report time path dl). \<exists>s. l = Inr s"
proof -
  obtain v where v: "(if 0 < time then int_over_float (dl_downloaded dl) (Fin time) else Inr (Fin 0)) = Inr v"
    using int_over_float_total [OF assms(1), of "Fin time"] by (cases "0 < time") (auto simp: float_less_def)
  obtain a where a: "format_bytes (PInt (dl_downloaded dl)) = Inr a" using format_bytes_total [OF assms(1)] by blast
  obtain b where b: "text_int (dl_completed dl) = Inr b" using text_int_printable [OF assms(2)] by blast
  have c: "format_bytes (PFloat v) = Inr (format_units v units)" by (simp add: format_bytes_def)
  show ?thesis unfolding final_report_def v a b by (simp add: c lit_def line_def)
qed

text \<open>Once \<open>shutdown\<close> has begun, it stays so, and its end is possible.\<close>

interpretation pool_stopping: operations "pool_exec itr" "\<lambda>op. True" po_stopping for itr
proof
  fix op po po'
  assume "pool_exec itr op po = Inr po'" "po_stopping po"
  then show "po_stopping po'"
    by (cases op) (auto simp: check_peer_def finish_connect_def register_session_def record_task_def step_task_def
        disconnect_def shutdown_cancel_def shutdown_clear_def Let_def split: if_splits sum.splits prod.splits option.splits)
qed

lemma run_ops_append: "run_ops exec (xs @ ys) s = run_ops exec ys (run_ops exec xs s)"
  by (simp add: run_ops_def)

lemma shut_down_end:
  "\<exists>ops. shut_down itr os sched mp ends cl = close_files (run_ops (client_exec itr os sched mp) ops cl)"
  "num_connected (cl_pool (shut_down itr os sched mp ends cl)) = 0 \<and> po_tasks (cl_pool (shut_down itr os sched mp ends cl)) = []"
proof -
  let ?po = "run_ops (pool_exec itr) (ShutdownCancel # ends) (cl_pool cl)"
  have "po_stopping (attempt (pool_exec itr) ShutdownCancel (cl_pool cl))" by (simp add: attempt_def shutdown_cancel_def)
  from pool_stopping.run_inv [OF _ this, of ends itr] have "po_stopping ?po" by (simp add: run_ops_def)
  then have "run_ops (pool_exec itr) (ShutdownCancel # ends @ [ShutdownClear]) (cl_pool cl) = shutdown_clear ?po"
    by (simp add: run_ops_def attempt_def)
  then show "num_connected (cl_pool (shut_down itr os sched mp ends cl)) = 0 \<and> po_tasks (cl_pool (shut_down itr os sched mp ends cl)) = []"
    by (simp add: shut_down_def close_files_def client_pool shutdown_clear_def num_connected_def)
qed (auto simp: shut_down_def)

text \<open>How the run ends when it returns: after some operations on the client that was set up.\<close>

lemma run_downloader_Inr:
  assumes "run_downloader itr os sched udp http ops ends contents dir n mp disk random = Inr cl"
  obtains t cl0 ops' where "from_path contents = Inr t" "open_client os dir t disk random n = Inr cl0"
    "cl = close_files (run_ops (client_exec itr os sched mp) ops' cl0)"
    "num_connected (cl_pool cl) = 0" "po_tasks (cl_pool cl) = []"
proof -
  from assms obtain t cl0 where t: "from_path contents = Inr t" and c: "open_client os dir t disk random n = Inr cl0"
    and r: "(case announce udp http t (first_announce t (client_peer_id random)) of
        Inl (TrackerError m) \<Rightarrow> Inr (close_files cl0) | Inl e \<Rightarrow> Inl e
      | Inr resp \<Rightarrow> Inr (shut_down itr os sched mp ends (run_ops (client_exec itr os sched mp) (add_peers resp @ ops) cl0))) = Inr cl"
    by (auto simp: run_downloader_def bindR_Inr_iff)
  show thesis
  proof (cases "announce udp http t (first_announce t (client_peer_id random))")
    case (Inl e)
    with announce_Inl [OF Inl] r have cl: "cl = close_files cl0" by auto
    from c have "num_connected (cl_pool cl0) = 0 \<and> po_tasks (cl_pool cl0) = []"
      by (auto simp: open_client_def new_pool_def num_connected_def bindR_Inr_iff)
    with that [OF t c, of "[]"] cl show thesis by (simp add: run_ops_def close_files_def)
  next
    case (Inr resp)
    let ?cl1 = "run_ops (client_exec itr os sched mp) (add_peers resp @ ops) cl0"
    from Inr r have cl: "cl = shut_down itr os sched mp ends ?cl1" by simp
    from shut_down_end(1) [of itr os sched mp ends ?cl1] obtain ops' where
      "cl = close_files (run_ops (client_exec itr os sched mp) (add_peers resp @ ops @ ops') cl0)"
      unfolding cl by (auto simp: run_ops_append)
    with that [OF t c] shut_down_end(2) [of itr os sched mp ends ?cl1] show thesis unfolding cl by blast
  qed
qed

lemma run_downloader_returns:
  assumes "from_bytes raw = Inr t" "open_client os dir t disk random n = Inr cl0"
    and "displayable (total_length t)" "\<forall>m. mp = Some m \<longrightarrow> printable m"
  shows "\<exists>cl. run_downloader itr os sched udp http ops ends (Some raw) dir n mp disk random = Inr cl"
proof (cases "announce udp http t (first_announce t (client_peer_id random))")
  case (Inl e)
  with announce_Inl [OF Inl] assms(1,2) summary_ok [OF assms(1,3,4)] show ?thesis
    by (auto simp: run_downloader_def from_path_def)
qed (use assms(1,2) summary_ok [OF assms(1,3,4)] in \<open>simp add: run_downloader_def from_path_def\<close>)

text \<open>The files after the run, opened again.\<close>

lemma run_downloader_disk:
  assumes "run_downloader itr os sched udp http ops ends contents dir n mp disk random = Inr cl"
    and "from_path contents = Inr t" "set_order itr" "any_order sched"
    and "distinct (map (\<lambda>f. os (path_join dir (fi_path f))) (t_files t))"
    and "\<forall>f \<in> set (t_files t). \<exists>h. os (path_join dir (fi_path f)) = Inr h"
  obtains w where "make_writer os dir t (dl_disk (cl_dl cl)) = Inr (w, dl_disk (cl_dl cl))"
    "\<And>i d. (i, d) \<in> set (po_log (cl_pool cl)) \<Longrightarrow> blen d = piece_size t i \<Longrightarrow>
       \<exists>r. read_piece os i None (w, dl_disk (cl_dl cl)) = Inr (r, w, dl_disk (cl_dl cl)) \<and> sha1 r = t_piece_hashes t ! nat i"
proof -
  obtain cl0 ops' where
    c: "open_client os dir t disk random n = Inr cl0" and
    cl: "cl = close_files (run_ops (client_exec itr os sched mp) ops' cl0)"
    by (rule run_downloader_Inr [OF assms(1)]) (use assms(2) in auto)
  let ?cl1 = "run_ops (client_exec itr os sched mp) ops' cl0"
  have set_up: "set_up os dir contents disk random n = Inr cl0" using assms(2) c by (simp add: set_up_def)
  have t: "cl_torrent cl0 = t" using c by (auto simp: open_client_def bindR_Inr_iff)
  note files = assms(5,6) [folded t]
  have ok0: "client_ok os cl0" using set_up_ready [OF set_up files] by simp
  from client_reached [OF set_up files assms(3,4), of ?cl1 mp ops'] have ok: "client_ok os ?cl1" "cl_torrent ?cl1 = t"
    by (simp_all add: t)
  from c obtain d0 where "make_writer os dir t disk = Inr (dl_writer (cl_dl cl0), d0)"
    by (auto simp: open_client_def bindR_Inr_iff)
  moreover have w: "dl_writer (cl_dl ?cl1) = dl_writer (cl_dl cl0)"
    using client_writer.run_frame [of ops' itr sched os cl0 mp] ok0 assms(3,4) by simp
  moreover have "ready (dl_writer (cl_dl ?cl1)) (dl_disk (cl_dl ?cl1))" using ok(1) by (simp add: client_ok_def dl_ok_def)
  ultimately have m: "make_writer os dir t (dl_disk (cl_dl ?cl1)) = Inr (dl_writer (cl_dl ?cl1), dl_disk (cl_dl ?cl1))"
    using reopen by metis
  have eq: "dl_disk (cl_dl cl) = dl_disk (cl_dl ?cl1)" "cl_pool cl = cl_pool ?cl1" by (simp_all add: cl close_files_def)
  show thesis
  proof (rule that [of "dl_writer (cl_dl ?cl1)"])
    show "make_writer os dir t (dl_disk (cl_dl cl)) = Inr (dl_writer (cl_dl ?cl1), dl_disk (cl_dl cl))" using m eq by simp
  next
    fix i d
    assume "(i, d) \<in> set (po_log (cl_pool cl))" "blen d = piece_size t i"
    with client_disk [OF ok(1), of i d] ok(2) eq show "\<exists>r. read_piece os i None (dl_writer (cl_dl ?cl1), dl_disk (cl_dl cl)) =
        Inr (r, dl_writer (cl_dl ?cl1), dl_disk (cl_dl cl)) \<and> sha1 r = t_piece_hashes t ! nat i"
      by auto
  qed
qed

text \<open>A torrent of 2^1024 bytes or more: the summary raises, before any file is opened.\<close>

lemma format_bytes_overflow: "2 ^ 1024 \<le> i \<Longrightarrow> format_bytes (PInt i) = Inl OverflowError"
proof -
  assume i: "2 ^ 1024 \<le> i"
  have "(1024 :: int) = 2 ^ 10" by simp
  also have "(2 :: int) ^ 10 \<le> 2 ^ 1024" by (rule power_increasing) simp_all
  finally have "\<not> \<bar>i\<bar> < 1024" using i by linarith
  with int_float_overflow [OF i] show ?thesis by (simp add: format_bytes_def)
qed

lemma huge_torrent_raises:
  assumes "from_path contents = Inr t" "2 ^ 1024 \<le> total_length t"
  shows "run_downloader itr os sched udp http ops ends contents dir n mp disk random = Inl OverflowError"
proof -
  have "snd (print_lines (torrent_summary t dir mp)) = Inl OverflowError"
    by (simp add: torrent_summary_def line_def lit_def format_bytes_overflow [OF assms(2)] split: prod.splits)
  with assms(1) show ?thesis by (simp add: run_downloader_def)
qed

lemma open_client_succeeds:
  assumes "from_bytes raw = Inr t"
    and "distinct (map (\<lambda>f. os (path_join dir (fi_path f))) (t_files t))"
    and "\<forall>f \<in> set (t_files t). \<exists>h. os (path_join dir (fi_path f)) = Inr h"
  shows "\<exists>cl. open_client os dir t disk random n = Inr cl \<and> cl_torrent cl = t \<and>
    ready (dl_writer (cl_dl cl)) (dl_disk (cl_dl cl)) \<and> num_connected (cl_pool cl) = 0 \<and>
    length (pm_pieces (po_pm (cl_pool cl))) = length (t_piece_hashes t) \<and>
    (\<forall>p \<in> set (pm_pieces (po_pm (cl_pool cl))). p_state p = NEEDED)"
proof -
  from from_bytes_ok [OF assms(1)] have ok: "torrent_ok t" "0 < total_length t" by simp_all
  from make_writer_opens [OF ok(1) assms(3,2), of disk] obtain w d where
    w: "make_writer os dir t disk = Inr (w, d)" "ready w d" by blast
  from make_manager_torrent [OF ok] obtain pm where
    pm: "make_manager (t_piece_hashes t) (t_piece_length t) (total_length t) = Inr pm" by blast
  note m = make_manager_Inr [OF pm]
  have "p_state p = NEEDED" if "p \<in> set (pm_pieces pm)" for p
    using m that make_piece_ok by (metis in_set_conv_nth)
  with m w pm show ?thesis
    by (simp add: open_client_def num_connected_def) (simp add: new_pool_def)
qed

lemma run_downloader_closed:
  assumes "run_downloader itr os sched udp http ops ends (Some raw) dir n mp disk random = Inr cl"
    and "from_bytes raw = Inr t" "set_order itr" "any_order sched"
    and "distinct (map (\<lambda>f. os (path_join dir (fi_path f))) (t_files t))"
    and "\<forall>f \<in> set (t_files t). \<exists>h. os (path_join dir (fi_path f)) = Inr h"
  shows "fw_closed (dl_writer (cl_dl cl)) \<and> fw_files (dl_writer (cl_dl cl)) = []"
proof -
  obtain cl0 ops' where
    c: "open_client os dir t disk random n = Inr cl0"
    and cl: "cl = close_files (run_ops (client_exec itr os sched mp) ops' cl0)"
    by (rule run_downloader_Inr [OF assms(1)]) (use assms(2) in \<open>auto simp: from_path_def\<close>)
  have set_up: "set_up os dir (Some raw) disk random n = Inr cl0"
    using assms(2) c by (simp add: set_up_def from_path_def)
  have t: "cl_torrent cl0 = t" using c by (auto simp: open_client_def bindR_Inr_iff)
  from client_reached [OF set_up assms(5,6) [folded t] assms(3,4) refl]
  have "ready (dl_writer (cl_dl (run_ops (client_exec itr os sched mp) ops' cl0))) (dl_disk (cl_dl (run_ops (client_exec itr os sched mp) ops' cl0)))"
    by (simp add: client_ok_def dl_ok_def)
  then show ?thesis by (simp add: cl close_files_def close_def ready_def)
qed

text \<open>
  An interval of 2^1024 seconds from the tracker: no round of the loop suspends, so the event loop
  does not get to run anything else.
\<close>

lemma reannounce_never_waits:
  assumes "2 ^ 1024 \<le> tr_interval first"
  shows "reannounce_round udp http peer_id first cl = (False, [])"
proof -
  have "2 ^ 1024 \<le> reannounce_interval first" using assms unfolding reannounce_interval_def by linarith
  from int_float_overflow [OF this] show ?thesis by (simp only: reannounce_round_def sum.case)
qed

subsection \<open>A run of the client\<close>

definition demo_info :: bytes where
  "demo_info = ascii ''d6:lengthi1e4:name1:n12:piece lengthi4e6:pieces20:'' @ sha1 [7] @ ascii ''e''"

definition demo_file :: bytes where
  "demo_file = ascii ''d8:announce8:http://h4:info'' @ demo_info @ ascii ''e''"

definition demo_torrent :: torrent where
  "demo_torrent = \<lparr>t_announce = ucs ''http://h'', t_info_hash = sha1 demo_info, t_piece_hashes = [sha1 [7]],
     t_piece_length = 4, t_files = [\<lparr>fi_path = utf8_decode [110], fi_length = 1\<rparr>], t_name = [110],
     t_announce_list = [], t_comment = None, t_created_by = None, t_creation_date = PyNone, t_is_private = False\<rparr>"

lemma demo_parsed: "from_bytes demo_file = Inr demo_torrent"
proof -
  have i: "encode (single_info [110] 4 [sha1 [7]] 1) = Inr demo_info"
    by (simp add: single_info_def encode_items_def encode_eval demo_info_def)
  have d: "encode (single_meta (ascii ''http://h'') (single_info [110] 4 [sha1 [7]] 1)) = Inr demo_file"
    using i by (simp add: single_meta_def encode_items_def encode_eval demo_file_def)
  have c: "\<forall>i \<in> set [0..<21]. \<not> occurs_at (ascii ''4:info'') i (ascii ''d8:announce8:http://h4:info'')" by code_simp
  have "\<not> occurs_at (ascii ''4:info'') i demo_file" if "i < 21" for i
    using c that occurs_at_prefix [of i "ascii ''4:info''" "ascii ''d8:announce8:http://h4:info''" "demo_info @ ascii ''e''"]
    by (simp add: demo_file_def)
  moreover have "length demo_file - length demo_info - 7 = 21" by (simp add: demo_file_def)
  moreover have "utf8_decode (ascii ''http://h'') = ucs ''http://h''" by code_simp
  ultimately show ?thesis
    using from_bytes_single [OF d i] by (simp add: demo_torrent_def)
qed

text \<open>The client set up from that file, and the run of \<open>PoolDemo\<close> in it.\<close>

definition demo_os :: "ustr \<Rightarrow> nat res" where
  "demo_os path = Inr 0"

definition demo_dl :: downloader where
  "demo_dl = \<lparr>dl_writer = \<lparr>fw_torrent = demo_torrent,
       fw_spans = [\<lparr>sp_info = \<lparr>fi_path = [110], fi_length = 1\<rparr>, sp_path = [47, 110], sp_start = 0, sp_end = 1\<rparr>],
       fw_files = [([47, 110], 0)], fw_closed = False\<rparr>,
     dl_disk = [0 \<mapsto> []], dl_downloaded = 0, dl_completed = 0, dl_done = False\<rparr>"

definition demo_client :: client where
  "demo_client = \<lparr>cl_torrent = demo_torrent, cl_dl = demo_dl,
     cl_pool = demo_pool (sha1 demo_info) (client_peer_id (replicate 12 5))\<rparr>"

lemma demo_name: "utf8_decode [110] = [110]"
  by code_simp

lemma demo_set_up: "set_up demo_os [47] (Some demo_file) Map.empty (replicate 12 5) 30 = Inr demo_client"
proof -
  have p: "path_join [47] [110] = [47, 110]" by code_simp
  have t: "total_length demo_torrent = 1" by (simp add: total_length_def demo_torrent_def)
  have m: "make_manager (t_piece_hashes demo_torrent) (t_piece_length demo_torrent) 1 = Inr demo_manager"
    using demo_manager by (simp add: demo_torrent_def)
  have w: "make_writer demo_os [47] demo_torrent Map.empty = Inr (dl_writer demo_dl, dl_disk demo_dl)"
    using p by (simp add: make_writer_def open_files_def demo_torrent_def demo_name open_one_def demo_os_def demo_dl_def)
  show ?thesis
    unfolding set_up_def open_client_def from_path_def option.case demo_parsed bindR_simps w m t
    by (simp add: demo_client_def demo_pool_def m t) (simp add: demo_torrent_def demo_dl_def)
qed

lemma demo_files:
  "distinct (map (\<lambda>f. demo_os (path_join [47] (fi_path f))) (t_files (cl_torrent demo_client)))"
  "\<forall>f \<in> set (t_files (cl_torrent demo_client)). \<exists>h. demo_os (path_join [47] (fi_path f)) = Inr h"
  by (simp_all add: demo_client_def demo_torrent_def demo_os_def)

definition demo_end :: client where
  "demo_end = run_ops (client_exec sorted_list_of_set demo_os rev None) (take 12 (demo_ops (sha1 demo_info))) demo_client"

lemma demo_end_pool: "po_log (cl_pool demo_end) = [(0, [7])] \<and> is_done (po_pm (cl_pool demo_end))"
proof -
  have "length (client_peer_id (replicate 12 5)) = 20" by (simp add: client_peer_id_def)
  from demo_run [OF length_sha1 this] show ?thesis
    by (simp add: demo_end_def client_pool demo_client_def demo_state_def is_done_def num_complete_def demo_pm)
qed

subsection \<open>A tracker's answer\<close>

text \<open>The tracker of that torrent answers with compact peers.\<close>

definition compact_answer :: "bytes \<Rightarrow> pyval" where
  "compact_answer b = PyDict [(KBytes (ascii ''interval''), PyInt 1800), (KBytes (ascii ''peers''), PyBytes b)]"

definition answered :: "peer_info list \<Rightarrow> tracker_response" where
  "answered ps = \<lparr>tr_interval = 1800, tr_peers = ps, tr_min_interval = None, tr_seeders = None, tr_leechers = None,
     tr_tracker_id = None, tr_warning = None\<rparr>"

lemma demo_announce:
  assumes "encode (compact_answer b) = Inr body" "parse_compact_peers b = Inr ps"
    and "\<exists>q. http_url (ucs ''http://h'') (rq\<lparr>rq_info_hash := t_info_hash demo_torrent\<rparr>) = Inr q"
  shows "announce udp (\<lambda>url. Reply 200 body) demo_torrent rq = Inr (answered ps)"
proof -
  let ?d = "[(KBytes (ascii ''interval''), PyInt 1800), (KBytes (ascii ''peers''), PyBytes b)]"
  have "distinct_keys (compact_answer b)" by (simp add: compact_answer_def key_bytes_def)
  with assms(1) have d: "decode_data body = Inr (PyDict ?d)"
    using decode_data_encode by (fastforce simp: compact_answer_def key_bytes_def)
  have f: "from_bencode ?d = Inr (answered ps)"
    by (simp add: from_bencode_def get_first_def py_lookup_def optional_text_def optional_int_def py_int_of_def parse_peers_def
        answered_def assms(2) Let_def)
  have u: "build_url_list demo_torrent = [ucs ''http://h'']"
    by (simp add: build_url_list_def demo_torrent_def add_url_def supported_url_def starts_with_text_def)
  from assms(3) have "ask_tracker udp (\<lambda>url. Reply 200 body) (rq\<lparr>rq_info_hash := t_info_hash demo_torrent\<rparr>) (ucs ''http://h'') =
      from_bencode ?d"
    by (auto simp: ask_tracker_def starts_with_text_def do_announce_def d)
  from this [unfolded f] show ?thesis unfolding announce_eq u by simp
qed

text \<open>The tracker that knows no peers, and the one that knows one.\<close>

definition no_peers :: "ustr \<Rightarrow> http_reply" where
  "no_peers url = Reply 200 (ascii ''d8:intervali1800e5:peers0:e'')"

definition one_peer :: "ustr \<Rightarrow> http_reply" where
  "one_peer url = Reply 200 (ascii ''d8:intervali1800e5:peers6:'' @ [127, 0, 0, 1, 26, 225] @ ascii ''e'')"

lemma demo_no_peers: "announce udp no_peers demo_torrent (first_announce demo_torrent (client_peer_id random)) = Inr (answered [])"
  unfolding no_peers_def [abs_def]
proof (rule demo_announce)
  show "encode (compact_answer []) = Inr (ascii ''d8:intervali1800e5:peers0:e'')"
    by (simp add: compact_answer_def encode_items_def encode_eval)
qed (simp_all add: parse_compact_peers_def first_announce_def http_url_def query_eval total_length_def demo_torrent_def encode_eval)

lemma demo_one_peer: "announce udp one_peer demo_torrent (stats_request demo_torrent) =
    Inr (answered [\<lparr>pi_ip = ucs ''127.0.0.1'', pi_port = 6881\<rparr>])"
  unfolding one_peer_def [abs_def]
proof (rule demo_announce)
  show "encode (compact_answer [127, 0, 0, 1, 26, 225]) = Inr (ascii ''d8:intervali1800e5:peers6:'' @ [127, 0, 0, 1, 26, 225] @ ascii ''e'')"
    by (simp add: compact_answer_def encode_items_def encode_eval)
  have "be_value [127, 0, 0, 1] = 2130706433" "be_value [26, 225] = 6881" by code_simp+
  then show "parse_compact_peers [127, 0, 0, 1, 26, 225] = Inr [\<lparr>pi_ip = ucs ''127.0.0.1'', pi_port = 6881\<rparr>]"
    unfolding parse_compact_peers_def by (simp only: compact_peers.simps dotted_localhost) simp
qed (simp add: stats_request_def http_url_def query_eval total_length_def demo_torrent_def encode_eval)

text \<open>The whole program on that torrent, with the operations of \<open>PoolDemo\<close>.\<close>

definition demo_run_result :: "client res" where
  "demo_run_result = run_downloader sorted_list_of_set demo_os rev (\<lambda>u. sample_world) no_peers
     (take 12 (demo_ops (sha1 demo_info))) [] (Some demo_file) [47] 30 None Map.empty (replicate 12 5)"

lemma demo_open: "open_client demo_os [47] demo_torrent Map.empty (replicate 12 5) 30 = Inr demo_client"
  using demo_set_up demo_parsed by (simp add: set_up_def from_path_def)

lemma demo_run_log: "\<exists>cl. demo_run_result = Inr cl \<and> po_log (cl_pool cl) = [(0, [7])]"
proof -
  have "displayable (total_length demo_torrent)" by (simp add: displayable_def total_length_def demo_torrent_def)
  with summary_ok [OF demo_parsed this, of None "[47]"] have
    r: "demo_run_result = Inr (shut_down sorted_list_of_set demo_os rev None [] demo_end)"
    by (simp add: demo_run_result_def run_downloader_def from_path_def demo_parsed demo_open demo_no_peers add_peers_def answered_def
        demo_end_def)
  have "po_log (cl_pool (shut_down sorted_list_of_set demo_os rev None [] demo_end)) = po_log (cl_pool demo_end)"
    by (simp add: shut_down_def close_files_def client_pool)
      (simp add: run_ops_def attempt_def shutdown_cancel_def shutdown_clear_def)
  with r demo_end_pool show ?thesis
    by (intro exI [of _ "shut_down sorted_list_of_set demo_os rev None [] demo_end"]) simp
qed

end
