(* ===== verification/CommandLine.thy ===== *)
theory CommandLine
  imports ClientRuns
begin

section \<open>The command line (client/main.py, \<open>main\<close>)\<close>

text \<open>
  The arguments \<open>main\<close> declares and what \<open>argparse\<close> makes of a command line with them: options in
  their short and long spellings, abbreviations, values that are attached or follow, the one
  optional positional argument, and the exits.  The interpreter is the one pyproject.toml asks
  for, in which an ambiguous option is an error when its turn comes.  Of the Unicode database only
  the classes are used that \<open>int()\<close> looks at; they are an argument.

  The lemmas: every command line written out of options and at most one torrent is read as it was
  meant, in whatever order and spelling; which exits there are; and what the values that \<open>main\<close>
  does not check do to the run.
\<close>

subsection \<open>The declared arguments\<close>

datatype action = Help | Output | Peers | MaxPieces

definition option_strings :: "(ustr \<times> action) list" where
  "option_strings =
     [(ucs ''-h'', Help), (ucs ''--help'', Help), (ucs ''-o'', Output), (ucs ''--output'', Output),
      (ucs ''-p'', Peers), (ucs ''--peers'', Peers), (ucs ''-m'', MaxPieces), (ucs ''--max-pieces'', MaxPieces)]"

record arguments =
  ar_torrent :: ustr
  ar_output :: ustr
  ar_peers :: int
  ar_max_pieces :: "int option"

definition default_arguments :: arguments where
  "default_arguments =
     \<lparr>ar_torrent = ucs ''ubuntu-24.04.4-live-server-amd64.iso.torrent'', ar_output = ucs ''./downloads'',
      ar_peers = 30, ar_max_pieces = None\<rparr>"

text \<open>
  \<open>type=int\<close>: \<open>int\<close> of a text turns blanks and decimal digits of any script into ASCII first, and
  everything else that is not ASCII into a character no number has.
\<close>

datatype uclass = Blank | Digit nat | Other

definition ascii_digits :: "(nat \<Rightarrow> uclass) \<Rightarrow> ustr \<Rightarrow> bytes" where
  "ascii_digits ucd s =
     map (\<lambda>c. if c < 127 then of_nat c
              else case ucd c of Blank \<Rightarrow> 32 | Digit d \<Rightarrow> of_nat (48 + d) | Other \<Rightarrow> 63) s"

definition int_of_text :: "(nat \<Rightarrow> uclass) \<Rightarrow> ustr \<Rightarrow> int res" where
  "int_of_text ucd s = py_int (ascii_digits ucd s)"

text \<open>The end of a run that \<open>parser.error\<close> or the help brings about: SystemExit with its code.\<close>

definition usage_error :: int where
  "usage_error = 2"

definition store :: "(nat \<Rightarrow> uclass) \<Rightarrow> action \<Rightarrow> ustr \<Rightarrow> arguments \<Rightarrow> int + arguments" where
  "store ucd act v ns =
     (case act of
        Help \<Rightarrow> Inl 0
      | Output \<Rightarrow> Inr (ns\<lparr>ar_output := v\<rparr>)
      | Peers \<Rightarrow> (case int_of_text ucd v of Inl _ \<Rightarrow> Inl usage_error | Inr n \<Rightarrow> Inr (ns\<lparr>ar_peers := n\<rparr>))
      | MaxPieces \<Rightarrow> (case int_of_text ucd v of Inl _ \<Rightarrow> Inl usage_error | Inr n \<Rightarrow> Inr (ns\<lparr>ar_max_pieces := Some n\<rparr>)))"

subsection \<open>Options and arguments\<close>

text \<open>
  What a single word of the command line is.  An option may carry its value: \<open>Attached\<close> after an
  equals sign, \<open>Glued\<close> right behind a short option.
\<close>

datatype carried = Nothing | Attached ustr | Glued ustr

datatype word_class = Plain | Ambiguous | Unknown | Known action bool carried

definition is_short :: "ustr \<Rightarrow> bool" where
  "is_short name \<longleftrightarrow> 2 \<le> length name \<and> name ! 1 \<noteq> 45"

text \<open>The part before the first equals sign, and what follows it.\<close>

definition before_equals :: "ustr \<Rightarrow> ustr" where
  "before_equals w = takeWhile (\<lambda>c. c \<noteq> 61) w"

definition after_equals :: "ustr \<Rightarrow> carried" where
  "after_equals w = (if 61 \<in> set w then Attached (tl (dropWhile (\<lambda>c. c \<noteq> 61) w)) else Nothing)"

text \<open>\<open>_get_option_tuples\<close>: abbreviations of long options, and short options with a value glued to them.\<close>

definition option_tuples :: "ustr \<Rightarrow> word_class list" where
  "option_tuples w =
     (if is_short w
      then (case map_of option_strings (take 2 w) of None \<Rightarrow> [] | Some act \<Rightarrow> [Known act True (Glued (drop 2 w))])
      else map (\<lambda>(name, act). Known act False (after_equals w))
             (filter (\<lambda>(name, act). take (length (before_equals w)) name = before_equals w) option_strings))"

text \<open>A word that looks like a negative number is an argument, since no option looks like one.\<close>

definition is_decimal :: "(nat \<Rightarrow> uclass) \<Rightarrow> nat \<Rightarrow> bool" where
  "is_decimal ucd c \<longleftrightarrow> 48 \<le> c \<and> c \<le> 57 \<or> 127 \<le> c \<and> (case ucd c of Digit _ \<Rightarrow> True | _ \<Rightarrow> False)"

definition negative_number :: "(nat \<Rightarrow> uclass) \<Rightarrow> ustr \<Rightarrow> bool" where
  "negative_number ucd w =
     (let s = (if w \<noteq> [] \<and> last w = 10 then butlast w else w); ds = dropWhile (is_decimal ucd) (tl s) in
      s \<noteq> [] \<and> hd s = 45 \<and> 1 < length s \<and>
      (ds = [] \<or> hd ds = 46 \<and> 1 < length ds \<and> list_all (is_decimal ucd) (tl ds)))"

text \<open>\<open>_parse_optional\<close>.\<close>

definition parse_optional :: "(nat \<Rightarrow> uclass) \<Rightarrow> ustr \<Rightarrow> word_class" where
  "parse_optional ucd w =
     (if w = [] \<or> hd w \<noteq> 45 then Plain
      else case map_of option_strings w of
        Some act \<Rightarrow> Known act (is_short w) Nothing
      | None \<Rightarrow>
          if length w = 1 then Plain
          else case (if 61 \<in> set w then map_of option_strings (before_equals w) else None) of
            Some act \<Rightarrow> Known act (is_short w) (after_equals w)
          | None \<Rightarrow>
              case option_tuples w of
                [] \<Rightarrow> if negative_number ucd w \<or> 32 \<in> set w then Plain else Unknown
              | [t] \<Rightarrow> t
              | _ \<Rightarrow> Ambiguous)"

definition dashes :: ustr where
  "dashes = ucs ''--''"

definition is_argument :: "(nat \<Rightarrow> uclass) \<Rightarrow> ustr \<Rightarrow> bool" where
  "is_argument ucd w \<longleftrightarrow> w \<noteq> dashes \<and> parse_optional ucd w = Plain"

text \<open>
  \<open>-h\<close> with letters glued to it: they are read as further short options.  The help is printed when
  that has worked, and nothing after it is.
\<close>

fun help_cluster :: "(nat \<Rightarrow> uclass) \<Rightarrow> ustr \<Rightarrow> ustr list \<Rightarrow> int" where
  "help_cluster ucd [] ws = 0"
| "help_cluster ucd (c # cs) ws =
     (if c = 45 then usage_error
      else case map_of option_strings [45, c] of
        None \<Rightarrow> 0
      | Some Help \<Rightarrow> if cs \<noteq> [] \<and> hd cs = 61 then usage_error else help_cluster ucd cs ws
      | Some _ \<Rightarrow> if cs \<noteq> [] \<or> ws \<noteq> [] \<and> is_argument ucd (hd ws) then 0 else usage_error)"

definition help_exit :: "(nat \<Rightarrow> uclass) \<Rightarrow> carried \<Rightarrow> ustr list \<Rightarrow> int" where
  "help_exit ucd c ws = (case c of Nothing \<Rightarrow> 0 | Attached _ \<Rightarrow> usage_error | Glued cs \<Rightarrow> help_cluster ucd cs ws)"

subsection \<open>Parsing\<close>

text \<open>
  \<open>parse_args\<close>, word by word: whether the torrent is still to come, whether there were words nobody
  took, and the namespace.  After \<open>--\<close> every word is an argument; the dashes are taken together
  with the argument before or after them.
\<close>

definition finish :: "bool \<Rightarrow> arguments \<Rightarrow> int + arguments" where
  "finish extras ns = (if extras then Inl usage_error else Inr ns)"

function parse_words :: "(nat \<Rightarrow> uclass) \<Rightarrow> bool \<Rightarrow> bool \<Rightarrow> arguments \<Rightarrow> ustr list \<Rightarrow> int + arguments" where
  "parse_words ucd open_pos extras ns [] = finish extras ns"
| "parse_words ucd open_pos extras ns (w # ws) =
     (if w = dashes then
        (if open_pos then finish (extras \<or> 1 < length ws) (if ws = [] then ns else ns\<lparr>ar_torrent := hd ws\<rparr>)
         else Inl usage_error)
      else case parse_optional ucd w of
        Plain \<Rightarrow>
          if \<not> open_pos then parse_words ucd False True ns ws
          else if ws \<noteq> [] \<and> hd ws = dashes then finish (extras \<or> 1 < length ws) (ns\<lparr>ar_torrent := w\<rparr>)
          else parse_words ucd False extras (ns\<lparr>ar_torrent := w\<rparr>) ws
      | Ambiguous \<Rightarrow> Inl usage_error
      | Unknown \<Rightarrow> parse_words ucd open_pos True ns ws
      | Known act short c \<Rightarrow>
          if act = Help then Inl (help_exit ucd c ws)
          else case c of
            Nothing \<Rightarrow>
              if ws \<noteq> [] \<and> is_argument ucd (hd ws)
              then bindR (store ucd act (hd ws) ns) (\<lambda>ns. parse_words ucd open_pos extras ns (tl ws))
              else Inl usage_error
          | Attached v \<Rightarrow> bindR (store ucd act v ns) (\<lambda>ns. parse_words ucd open_pos extras ns ws)
          | Glued v \<Rightarrow> bindR (store ucd act v ns) (\<lambda>ns. parse_words ucd open_pos extras ns ws))"
  by pat_completeness auto

termination
  by (relation "measure (\<lambda>(ucd, open_pos, extras, ns, ws). length ws)") auto

definition parse_args :: "(nat \<Rightarrow> uclass) \<Rightarrow> ustr list \<Rightarrow> int + arguments" where
  "parse_args ucd argv = parse_words ucd True False default_arguments argv"

lemmas word_eval = parse_optional_def option_strings_def is_short_def before_equals_def after_equals_def option_tuples_def

text \<open>There is no exit but those of the help and of a usage error.\<close>

lemma help_cluster_codes: "help_cluster ucd cs ws = 0 \<or> help_cluster ucd cs ws = usage_error"
  by (induction ucd cs ws rule: help_cluster.induct) (auto split: option.splits action.splits)

lemma help_exit_codes: "help_exit ucd c ws = 0 \<or> help_exit ucd c ws = usage_error"
  using help_cluster_codes by (auto simp: help_exit_def split: carried.splits)

lemma store_codes: "store ucd act v ns = Inl code \<Longrightarrow> code = 0 \<or> code = usage_error"
  by (auto simp: store_def split: action.splits sum.splits)

lemma parse_words_codes: "parse_words ucd open_pos extras ns ws = Inl code \<Longrightarrow> code = 0 \<or> code = usage_error"
proof (induction ucd open_pos extras ns ws rule: parse_words.induct)
  case (2 ucd open_pos extras ns w ws)
  show ?case
    using "2.prems" "2.IH" help_exit_codes [of ucd _ ws]
    by (auto simp: finish_def bindR_Inl_iff dest: store_codes split: if_splits word_class.splits carried.splits)
qed (simp add: finish_def split: if_splits)

subsection \<open>The grammar of the command line\<close>

text \<open>
  The command lines that are accepted, as one would describe them: a sequence of options with
  their values and at most one torrent, and possibly a \<open>--\<close> at the end, with the torrent behind it
  or before it.
\<close>

definition short_name :: "action \<Rightarrow> ustr" where
  "short_name act = (case act of Help \<Rightarrow> ucs ''-h'' | Output \<Rightarrow> ucs ''-o'' | Peers \<Rightarrow> ucs ''-p'' | MaxPieces \<Rightarrow> ucs ''-m'')"

definition long_name :: "action \<Rightarrow> ustr" where
  "long_name act =
     (case act of Help \<Rightarrow> ucs ''--help'' | Output \<Rightarrow> ucs ''--output'' | Peers \<Rightarrow> ucs ''--peers'' | MaxPieces \<Rightarrow> ucs ''--max-pieces'')"

text \<open>The ways to write an option: its short name, its long name, and what is left of that one when it is cut off.\<close>

definition spellings :: "action \<Rightarrow> ustr list" where
  "spellings act = short_name act # map (\<lambda>k. take k (long_name act)) [3 ..< Suc (length (long_name act))]"

datatype item =
    Torrent ustr
  | Separate action ustr ustr  \<comment> \<open>the name and the value as two words\<close>
  | Equals action ustr ustr  \<comment> \<open>joined by an equals sign\<close>
  | Joined action ustr  \<comment> \<open>the short name and the value as one word\<close>

fun render :: "item \<Rightarrow> ustr list" where
  "render (Torrent v) = [v]"
| "render (Separate act name v) = [name, v]"
| "render (Equals act name v) = [name @ 61 # v]"
| "render (Joined act v) = [short_name act @ v]"

fun item_ok :: "(nat \<Rightarrow> uclass) \<Rightarrow> item \<Rightarrow> bool" where
  "item_ok ucd (Torrent v) \<longleftrightarrow> is_argument ucd v"
| "item_ok ucd (Separate act name v) \<longleftrightarrow> act \<noteq> Help \<and> name \<in> set (spellings act) \<and> is_argument ucd v"
| "item_ok ucd (Equals act name v) \<longleftrightarrow> act \<noteq> Help \<and> name \<in> set (spellings act)"
| "item_ok ucd (Joined act v) \<longleftrightarrow> act \<noteq> Help \<and> v \<noteq> [] \<and> hd v \<noteq> 61"

text \<open>What an item asks for, and a list of items: the last one counts.\<close>

fun item_store :: "(nat \<Rightarrow> uclass) \<Rightarrow> item \<Rightarrow> arguments \<Rightarrow> int + arguments" where
  "item_store ucd (Torrent v) ns = Inr (ns\<lparr>ar_torrent := v\<rparr>)"
| "item_store ucd (Separate act name v) ns = store ucd act v ns"
| "item_store ucd (Equals act name v) ns = store ucd act v ns"
| "item_store ucd (Joined act v) ns = store ucd act v ns"

fun store_all :: "(nat \<Rightarrow> uclass) \<Rightarrow> item list \<Rightarrow> arguments \<Rightarrow> int + arguments" where
  "store_all ucd [] ns = Inr ns"
| "store_all ucd (it # its) ns = bindR (item_store ucd it ns) (store_all ucd its)"

fun is_torrent :: "item \<Rightarrow> bool" where
  "is_torrent (Torrent v) = True"
| "is_torrent it = False"

text \<open>The end of the line.\<close>

datatype ending = NoDashes | Dashes | DashesTorrent ustr

fun render_ending :: "ending \<Rightarrow> ustr list" where
  "render_ending NoDashes = []"
| "render_ending Dashes = [dashes]"
| "render_ending (DashesTorrent v) = [dashes, v]"

fun ending_items :: "ending \<Rightarrow> item list" where
  "ending_items (DashesTorrent v) = [Torrent v]"
| "ending_items e = []"

text \<open>
  Where which ending may stand.  \<open>open_pos\<close>: no torrent has been given before these items.
\<close>

fun line_ok :: "(nat \<Rightarrow> uclass) \<Rightarrow> bool \<Rightarrow> item list \<Rightarrow> ending \<Rightarrow> bool" where
  "line_ok ucd open_pos [] e \<longleftrightarrow> (open_pos \<or> e = NoDashes)"
| "line_ok ucd open_pos (it # its) e \<longleftrightarrow> item_ok ucd it \<and>
     (if is_torrent it then open_pos \<and> (its = [] \<and> e = Dashes \<or> line_ok ucd False its e)
      else line_ok ucd open_pos its e)"

definition command_line :: "item list \<Rightarrow> ending \<Rightarrow> ustr list" where
  "command_line its e = concat (map render its) @ render_ending e"

subsection \<open>Reading what was written\<close>

lemma spellings_eval:
  "spellings Help = map ucs [''-h'', ''--h'', ''--he'', ''--hel'', ''--help'']"
  "spellings Output = map ucs [''-o'', ''--o'', ''--ou'', ''--out'', ''--outp'', ''--outpu'', ''--output'']"
  "spellings Peers = map ucs [''-p'', ''--p'', ''--pe'', ''--pee'', ''--peer'', ''--peers'']"
  "spellings MaxPieces = map ucs [''-m'', ''--m'', ''--ma'', ''--max'', ''--max-'', ''--max-p'', ''--max-pi'', ''--max-pie'',
     ''--max-piec'', ''--max-piece'', ''--max-pieces'']"
  by (simp_all add: spellings_def short_name_def long_name_def upt_rec)

lemma not_dashes [simp]: "dashes \<notin> set (spellings act)" "name @ 61 # v \<noteq> dashes"
  by (cases act; simp add: spellings_eval dashes_def) (auto simp: dashes_def append_eq_Cons_conv)

lemma spelled_words:
  assumes "act \<noteq> Help"
  shows "list_all (\<lambda>name. parse_optional ucd name = Known act (is_short name) Nothing) (spellings act)"
    "list_all (\<lambda>name. parse_optional ucd (name @ 61 # v) = Known act (is_short name) (Attached v)) (spellings act)"
  using assms by (cases act; simp add: spellings_eval word_eval)+

lemma spelled_word:
  assumes "act \<noteq> Help" "name \<in> set (spellings act)"
  shows "parse_optional ucd name = Known act (is_short name) Nothing"
    "parse_optional ucd (name @ 61 # v) = Known act (is_short name) (Attached v)"
  using spelled_words(1) [OF assms(1), of ucd] spelled_words(2) [OF assms(1), of ucd v] assms(2)
  by (auto simp: list_all_iff)

lemma joined_word:
  assumes "act \<noteq> Help" "v \<noteq> []" "hd v \<noteq> 61"
  shows "parse_optional ucd (short_name act @ v) = Known act True (Glued v)" "short_name act @ v \<noteq> dashes"
  using assms by (cases v; cases act; auto simp: short_name_def word_eval dashes_def)+

lemma item_words_not_dashes: "item_ok ucd it \<Longrightarrow> render it \<noteq> [] \<and> hd (render it) \<noteq> dashes"
  by (cases it) (auto simp: is_argument_def joined_word(2))

lemma line_words_not_dashes:
  assumes "line_ok ucd p its e" "its \<noteq> []"
  shows "command_line its e \<noteq> [] \<and> hd (command_line its e) \<noteq> dashes"
  using assms item_words_not_dashes [of ucd "hd its"] by (cases its) (auto simp: command_line_def)

text \<open>One item in front.\<close>

lemma parse_option_item:
  assumes "item_ok ucd it" "\<not> is_torrent it"
  shows "parse_words ucd open_pos extras ns (render it @ ws) =
    bindR (item_store ucd it ns) (\<lambda>ns. parse_words ucd open_pos extras ns ws)"
  using assms by (cases it) (auto simp: spelled_word joined_word is_argument_def)

lemma parse_line:
  assumes "line_ok ucd open_pos its e"
  shows "parse_words ucd open_pos False ns (command_line its e) = store_all ucd (its @ ending_items e) ns"
  using assms
proof (induction its arbitrary: open_pos ns)
  case Nil
  then show ?case by (cases e) (auto simp: command_line_def finish_def)
next
  case (Cons it its)
  show ?case
  proof (cases "is_torrent it")
    case False
    with Cons.prems have ok: "item_ok ucd it" "line_ok ucd open_pos its e" by simp_all
    have "command_line (it # its) e = render it @ command_line its e" by (simp add: command_line_def)
    with parse_option_item [OF ok(1) False] Cons.IH [OF ok(2)] show ?thesis by simp
  next
    case True
    then obtain v where it: "it = Torrent v" by (cases it) simp_all
    with Cons.prems have v: "v \<noteq> dashes" "parse_optional ucd v = Plain" "open_pos" by (simp_all add: is_argument_def)
    have c: "command_line (it # its) e = v # command_line its e" by (simp add: command_line_def it)
    show ?thesis
    proof (cases "its = [] \<and> e = Dashes")
      case True
      then show ?thesis unfolding c using v it by (simp add: command_line_def finish_def)
    next
      case False
      with Cons.prems it have ok: "line_ok ucd False its e" by auto
      have "\<not> (command_line its e \<noteq> [] \<and> hd (command_line its e) = dashes)"
        using line_words_not_dashes [OF ok] ok by (cases its) (auto simp: command_line_def)
      with Cons.IH [OF ok] show ?thesis unfolding c using v it by auto
    qed
  qed
qed

subsection \<open>Nothing else is accepted\<close>

lemma exact_name: "map_of option_strings w = Some act \<Longrightarrow> w \<in> set (spellings act)"
  by (cases act) (auto simp: option_strings_def spellings_eval split: if_splits)

lemma split_equals: "61 \<in> set w \<Longrightarrow> \<exists>v. w = before_equals w @ 61 # v \<and> after_equals w = Attached v"
  unfolding before_equals_def after_equals_def
  by (induction w) auto

lemma no_equals: "61 \<notin> set w \<Longrightarrow> before_equals w = w \<and> after_equals w = Nothing"
  unfolding before_equals_def after_equals_def by (auto simp: takeWhile_eq_all_conv)

text \<open>An abbreviation that only one option starts with is one of its spellings.\<close>

lemma cut_off_name:
  assumes "filter (\<lambda>(name, act). take (length b) name = b) option_strings = [(name, act)]" "2 \<le> length b" "b ! 1 = 45"
  shows "b \<in> set (spellings act)"
proof -
  have "(name, act) \<in> set (filter (\<lambda>(name, act). take (length b) name = b) option_strings)" using assms(1) by simp
  then have m: "(name, act) \<in> set option_strings" and t: "take (length b) name = b" by auto
  have "length b \<noteq> 2"
  proof
    assume "length b = 2"
    with t have "take 2 name = b" by simp
    with assms(1) \<open>length b = 2\<close> m assms(3) show False by (auto simp: option_strings_def split: if_splits)
  qed
  with assms(2) have l: "3 \<le> length b" by simp
  have "name ! 1 = 45" using t l assms(3) by (metis One_nat_def assms(2) less_le_trans nth_take one_less_numeral_iff semiring_norm(76))
  with m have "name = long_name act" by (auto simp: option_strings_def long_name_def)
  moreover have "length b \<le> length name" using t by (metis length_take min.cobounded1 min.commute)
  moreover have "length b = length name \<Longrightarrow> b = name" using t by simp
  ultimately show ?thesis using l t
    by (cases "length b = length name") (auto simp: spellings_def intro!: image_eqI [of _ _ "length b"])
qed

lemma short_option: "map_of option_strings w = Some act \<Longrightarrow> length w = 2 \<Longrightarrow> w = short_name act"
  by (auto simp: option_strings_def short_name_def split: if_splits)

lemma abbreviated_word:
  assumes "option_tuples w = [Known act short c]" "\<not> is_short w" "2 \<le> length w"
  shows "before_equals w \<in> set (spellings act) \<and> c = after_equals w"
proof -
  let ?f = "filter (\<lambda>(name, act). take (length (before_equals w)) name = before_equals w) option_strings"
  from assms(1,2) obtain name where f: "?f = [(name, act)]" and c: "c = after_equals w"
    by (auto simp: option_tuples_def map_eq_Cons_conv)
  obtain x y r where w: "w = x # y # r" using assms(3) by (cases w; cases "tl w") auto
  with assms(2) have y: "y = 45" by (simp add: is_short_def)
  show ?thesis
  proof (cases "x = 61")
    case True
    with f w show ?thesis by (simp add: before_equals_def option_strings_def)
  next
    case False
    with w y have "2 \<le> length (before_equals w)" "before_equals w ! 1 = 45" by (simp_all add: before_equals_def)
    from cut_off_name [OF f this] c show ?thesis by simp
  qed
qed

lemma known_word:
  assumes "parse_optional ucd w = Known act short c"
  shows "c = Nothing \<and> w \<in> set (spellings act) \<or>
    (\<exists>name v. c = Attached v \<and> name \<in> set (spellings act) \<and> w = name @ 61 # v) \<or>
    (\<exists>v. c = Glued v \<and> w = short_name act @ v \<and> v \<noteq> [] \<and> hd v \<noteq> 61)"
proof -
  have hd: "w \<noteq> []" "hd w = 45" using assms by (auto simp: parse_optional_def split: if_splits)
  show ?thesis
  proof (cases "map_of option_strings w")
    case (Some a)
    with hd assms have "a = act" "c = Nothing" by (simp_all add: parse_optional_def)
    with exact_name [OF Some] show ?thesis by simp
  next
    case none: None
    with hd assms have l: "2 \<le> length w" by (cases w; cases "tl w") (auto simp: parse_optional_def)
    show ?thesis
    proof (cases "if 61 \<in> set w then map_of option_strings (before_equals w) else None")
      case (Some a)
      with hd none l assms have "a = act" "c = after_equals w" by (auto simp: parse_optional_def split: if_splits)
      moreover from Some have "61 \<in> set w" "map_of option_strings (before_equals w) = Some a" by (simp_all split: if_splits)
      ultimately show ?thesis using exact_name [of "before_equals w"] split_equals [of w] by auto
    next
      case None
      with hd none l assms have t: "option_tuples w = [Known act short c]"
        by (auto simp: parse_optional_def split: list.splits if_splits)
      show ?thesis
      proof (cases "is_short w")
        case False
        from abbreviated_word [OF t False l] split_equals [of w] no_equals [of w] show ?thesis by (cases "61 \<in> set w") auto
      next
        case True
        with t have m: "map_of option_strings (take 2 w) = Some act" and c: "c = Glued (drop 2 w)"
          by (auto simp: option_tuples_def split: option.splits)
        have s: "take 2 w = short_name act" using short_option [OF m] l by simp
        have w: "w = short_name act @ drop 2 w" using s by (metis append_take_drop_id)
        have "drop 2 w \<noteq> []" using none m s w by auto
        moreover have "hd (drop 2 w) \<noteq> 61"
        proof
          assume "hd (drop 2 w) = 61"
          with \<open>drop 2 w \<noteq> []\<close> obtain r where "drop 2 w = 61 # r" by (cases "drop 2 w") auto
          with w have e: "w = short_name act @ 61 # r" by simp
          then have "before_equals w = short_name act" "61 \<in> set w"
            by (cases act; simp add: before_equals_def short_name_def)+
          with None m s show False by simp
        qed
        ultimately show ?thesis using w c by blast
      qed
    qed
  qed
qed

lemma extras_refused: "parse_words ucd p True ns ws \<noteq> Inr ns'"
  by (induction ucd p "True" ns ws rule: parse_words.induct)
    (auto simp: finish_def res_simps split: word_class.splits carried.splits)

lemma line_Cons:
  "item_ok ucd it \<Longrightarrow> \<not> is_torrent it \<Longrightarrow> line_ok ucd p its e \<Longrightarrow> ws = command_line its e \<Longrightarrow>
     \<exists>its e. line_ok ucd p its e \<and> render it @ ws = command_line its e"
  by (intro exI [of _ "it # its"] exI [of _ e]) (simp add: command_line_def)

lemma line_torrent:
  assumes "is_argument ucd w" "line_ok ucd False its e"
  shows "\<exists>its' e'. line_ok ucd True its' e' \<and> w # command_line its e = command_line its' e'"
  using assms by (intro exI [of _ "Torrent w # its"] exI [of _ e]) (simp add: command_line_def)

lemma dashes_line:
  "\<exists>its e. line_ok ucd True its e \<and> [dashes] = command_line its e"
  "\<exists>its e. line_ok ucd True its e \<and> [dashes, v] = command_line its e"
  "is_argument ucd w \<Longrightarrow> \<exists>its e. line_ok ucd True its e \<and> [w, dashes] = command_line its e"
proof -
  show "\<exists>its e. line_ok ucd True its e \<and> [dashes] = command_line its e"
    by (rule exI [of _ "[]"], rule exI [of _ Dashes]) (simp add: command_line_def)
  show "\<exists>its e. line_ok ucd True its e \<and> [dashes, v] = command_line its e"
    by (rule exI [of _ "[]"], rule exI [of _ "DashesTorrent v"]) (simp add: command_line_def)
  show "\<exists>its e. line_ok ucd True its e \<and> [w, dashes] = command_line its e" if "is_argument ucd w"
    by (rule exI [of _ "[Torrent w]"], rule exI [of _ Dashes]) (simp add: command_line_def that)
qed

text \<open>An option with its value, as the parser takes it from the front.\<close>

lemma known_item:
  assumes "parse_optional ucd w = Known act short c" "act \<noteq> Help"
  shows "c = Nothing \<Longrightarrow> is_argument ucd v \<Longrightarrow> item_ok ucd (Separate act w v)"
    "c \<noteq> Nothing \<Longrightarrow> \<exists>it. item_ok ucd it \<and> \<not> is_torrent it \<and> render it = [w]"
proof -
  show "item_ok ucd (Separate act w v)" if "c = Nothing" "is_argument ucd v"
    using known_word [OF assms(1)] that assms(2) by auto
  show "\<exists>it. item_ok ucd it \<and> \<not> is_torrent it \<and> render it = [w]" if "c \<noteq> Nothing"
    using known_word [OF assms(1)] that
  proof (elim disjE exE conjE)
    fix name v assume "name \<in> set (spellings act)" "w = name @ 61 # v"
    with assms(2) show ?thesis by (intro exI [of _ "Equals act name v"]) simp
  next
    fix v assume "w = short_name act @ v" "v \<noteq> []" "hd v \<noteq> 61"
    with assms(2) show ?thesis by (intro exI [of _ "Joined act v"]) simp
  qed simp
qed

lemma option_accepts:
  assumes "parse_optional ucd w = Known act short c" "w \<noteq> dashes" "parse_words ucd p extras ns (w # ws) = Inr ns'"
  obtains it rest ns1 where "item_ok ucd it" "\<not> is_torrent it" "w # ws = render it @ rest"
    "parse_words ucd p extras ns1 rest = Inr ns'"
proof -
  have h: "act \<noteq> Help" using assms by auto
  show thesis
  proof (cases c)
    case Nothing
    with assms h obtain ns1 where ws: "ws \<noteq> []" "is_argument ucd (hd ws)"
        and r: "parse_words ucd p extras ns1 (tl ws) = Inr ns'"
      by (auto simp: res_simps split: if_splits)
    from that [OF known_item(1) [OF assms(1) h Nothing ws(2)] _ _ r] ws(1) show thesis by simp
  next
    case (Attached v)
    with assms h obtain ns1 where "parse_words ucd p extras ns1 ws = Inr ns'" by (auto simp: res_simps)
    with known_item(2) [OF assms(1) h] Attached that show thesis by auto
  next
    case (Glued v)
    with assms h obtain ns1 where "parse_words ucd p extras ns1 ws = Inr ns'" by (auto simp: res_simps)
    with known_item(2) [OF assms(1) h] Glued that show thesis by auto
  qed
qed

lemma plain_accepts:
  assumes "is_argument ucd w" "parse_words ucd p extras ns (w # ws) = Inr ns'"
  obtains (last) "p" "\<not> extras" "ws = [dashes]"
    | (more) ns1 where "p" "parse_words ucd False extras ns1 ws = Inr ns'"
proof -
  have w: "w \<noteq> dashes" "parse_optional ucd w = Plain" using assms(1) by (simp_all add: is_argument_def)
  with assms(2) extras_refused have p: "p" by (auto split: if_splits)
  show thesis
  proof (cases "ws \<noteq> [] \<and> hd ws = dashes")
    case True
    with assms(2) w p have "\<not> extras" "ws = [dashes]" by (cases ws; auto simp: finish_def split: if_splits)+
    with p last show thesis by blast
  next
    case False
    with assms(2) w p more show thesis by auto
  qed
qed

lemma parse_words_accepts:
  "parse_words ucd p extras ns ws = Inr ns' \<Longrightarrow> \<not> extras \<and> (\<exists>its e. line_ok ucd p its e \<and> ws = command_line its e)"
proof (induction ws arbitrary: p extras ns rule: length_induct)
  case (1 ws)
  show ?case
  proof (cases ws)
    case Nil
    with "1.prems" have "\<not> extras \<and> line_ok ucd p [] NoDashes \<and> ws = command_line [] NoDashes"
      by (auto simp: finish_def command_line_def split: if_splits)
    then show ?thesis by blast
  next
    case (Cons w rest)
    note prem = "1.prems" [unfolded Cons]
    show ?thesis
    proof (cases "w = dashes")
      case True
      with prem have p: "p" "\<not> extras" "length rest \<le> 1" by (auto simp: finish_def split: if_splits)
      then consider "rest = []" | v where "rest = [v]" by (cases rest; cases "tl rest") auto
      then show ?thesis unfolding Cons using True p dashes_line(1,2) by cases simp_all
    next
      case False
      show ?thesis
      proof (cases "parse_optional ucd w")
        case Plain
        with False have w: "is_argument ucd w" by (simp add: is_argument_def)
        from w prem show ?thesis
        proof (cases rule: plain_accepts)
          case last
          with dashes_line(3) [OF w] Cons show ?thesis by simp
        next
          case (more ns1)
          have "length rest < length ws" using Cons by simp
          with "1.IH" more(2) have "\<not> extras \<and> (\<exists>its e. line_ok ucd False its e \<and> rest = command_line its e)" by blast
          with line_torrent [OF w] more(1) Cons show ?thesis by auto
        qed
      next
        case (Known act short c)
        from option_accepts [OF this False prem] obtain it tail ns1 where it: "item_ok ucd it" "\<not> is_torrent it"
          "w # rest = render it @ tail" and r: "parse_words ucd p extras ns1 tail = Inr ns'" .
        have "length tail < length ws" using it Cons by (cases it) auto
        with "1.IH" r obtain its e where "\<not> extras" "line_ok ucd p its e" "tail = command_line its e" by blast
        with line_Cons [OF it(1,2)] it(3) Cons show ?thesis by simp
      qed (use prem False extras_refused in simp_all)
    qed
  qed
qed

subsection \<open>The program\<close>

text \<open>
  \<open>main\<close>: SystemExit with its code, an exception nobody catches, the message after a
  KeyboardInterrupt, or the end of the download.  \<open>asyncio.run\<close> turns Ctrl-C into a cancellation of
  \<open>run_downloader\<close> and raises KeyboardInterrupt only if that is not swallowed: \<open>interrupted\<close> says that
  the user pressed Ctrl-C before \<open>run_downloader\<close> reached its wait.  Later the wait swallows it, and the
  run ends as if it were done.  \<open>files\<close> is what the torrent files hold.
\<close>

datatype main_end = SystemExit int | Uncaught exc | Message ustr | Returned client

definition interrupt_message :: ustr where
  "interrupt_message = [10, 10, 27] @ ucs ''[33mDownload interrupted by user.'' @ [27] @ ucs ''[0m''"

definition main ::
  "(nat \<Rightarrow> uclass) \<Rightarrow> (int set \<Rightarrow> int list) \<Rightarrow> (ustr \<Rightarrow> nat res) \<Rightarrow> ((nat \<times> int \<times> bytes) list \<Rightarrow> (nat \<times> int \<times> bytes) list) \<Rightarrow>
     (ustr \<Rightarrow> udp_world) \<Rightarrow> (ustr \<Rightarrow> http_reply) \<Rightarrow> bool \<Rightarrow> pool_op list \<Rightarrow> pool_op list \<Rightarrow>
     (ustr \<Rightarrow> bytes option) \<Rightarrow> ustr list \<Rightarrow> disk \<Rightarrow> bytes \<Rightarrow> main_end" where
  "main ucd itr os sched udp http interrupted ops ends files argv disk random =
     (case parse_args ucd argv of
        Inl code \<Rightarrow> SystemExit code
      | Inr args \<Rightarrow>
          if interrupted then Message interrupt_message
          else case run_downloader itr os sched udp http ops ends (files (ar_torrent args)) (ar_output args)
                      (ar_peers args) (ar_max_pieces args) disk random of
            Inl e \<Rightarrow> Uncaught e
          | Inr cl \<Rightarrow> Returned cl)"

lemma main_Returned:
  assumes "main ucd itr os sched udp http interrupted ops ends files argv disk random = Returned cl"
  obtains args where "parse_args ucd argv = Inr args"
    "run_downloader itr os sched udp http ops ends (files (ar_torrent args)) (ar_output args)
       (ar_peers args) (ar_max_pieces args) disk random = Inr cl"
  using assms by (auto simp: main_def split: sum.splits if_splits)

lemma main_codes:
  "main ucd itr os sched udp http interrupted ops ends files argv disk random = SystemExit code \<Longrightarrow>
     code = 0 \<or> code = usage_error"
  unfolding main_def parse_args_def by (auto split: sum.splits if_splits dest: parse_words_codes)

subsection \<open>The README\<close>

text \<open>
  The README's example with \<open>--max-peers\<close> is refused: the option is called \<open>--peers\<close>.  Its other
  two are accepted.
\<close>

lemma readme_max_peers:
  "parse_args ucd (map ucs [''sintel.torrent'', ''--max-peers'', ''50'']) = Inl usage_error"
  by (simp add: parse_args_def word_eval negative_number_def Let_def dashes_def finish_def is_decimal_def)

lemma readme_commands:
  "parse_args ucd (map ucs [''sintel.torrent'', ''-o'', ''./downloads'']) =
     Inr (default_arguments\<lparr>ar_torrent := ucs ''sintel.torrent''\<rparr>)"
  "parse_args ucd (map ucs [''sintel.torrent'', ''-m'', ''5'', ''-o'', ''./downloads'']) =
     Inr (default_arguments\<lparr>ar_torrent := ucs ''sintel.torrent'', ar_max_pieces := Some 5\<rparr>)"
  by (simp_all add: parse_args_def word_eval dashes_def finish_def is_argument_def store_def default_arguments_def
      int_of_text_def ascii_digits_def py_int_def Let_def is_space_def is_digit_def digits_value_def max_str_digits_def)

subsection \<open>Values that nothing checks\<close>

text \<open>
  A negative number of pieces is a limit: the dashboard is at 100% from the beginning, and the run is
  done with the first piece.
\<close>

lemma negative_limit:
  assumes "m < 0" "0 \<le> n"
  shows "target_pieces (Some m) n = m" "limit_reached (Some m) 1"
    "progress_fields 0 (target_pieces (Some m) n) pl speed = Inr (Fin 1, Fin 100, ucs ''00:00'')"
  using assms by (simp_all add: target_pieces_def limit_reached_def progress_fields_def int_div_def Let_def to_float_def)

text \<open>With no peers allowed, nothing is ever connected, and neither of the two events is set.\<close>

definition idle_pool :: "pool \<Rightarrow> bool" where
  "idle_pool po \<longleftrightarrow> po_max_peers po \<le> 0 \<and> po_running po = [] \<and> po_log po = [] \<and> \<not> po_done po"

interpretation idlec: operations "pool_exec itr" "\<lambda>op. True" idle_pool for itr
proof
  fix op po po'
  assume "pool_exec itr op po = Inr po'" "idle_pool po"
  then show "idle_pool po'"
    by (cases op) (auto simp: idle_pool_def check_peer_def finish_connect_def register_session_def record_task_def
        shutdown_cancel_def shutdown_clear_def num_connected_def Let_def split: if_splits sum.splits prod.splits option.splits)
qed

lemma idle_client:
  assumes "idle_pool (cl_pool cl)"
  shows "idle_pool (cl_pool (run_ops (client_exec itr os sched mp) ops cl)) \<and>
    cl_dl (run_ops (client_exec itr os sched mp) ops cl) = cl_dl cl"
  using assms
proof (induction ops arbitrary: cl)
  case (Cons op ops)
  let ?cl = "attempt (client_exec itr os sched mp) op cl"
  have "idle_pool (cl_pool ?cl) \<and> cl_dl ?cl = cl_dl cl"
  proof (cases "pool_exec itr op (cl_pool cl)")
    case (Inr po)
    from idlec.exec_inv [OF Inr _ Cons.prems] have "idle_pool po" by simp
    with Inr Cons.prems show ?thesis by (simp add: attempt_def client_exec_def idle_pool_def)
  qed (use Cons.prems in \<open>simp add: attempt_def client_exec_def\<close>)
  with Cons.IH [of ?cl] show ?case by (simp add: run_ops_def)
qed (simp add: run_ops_def)

lemma no_peers_no_pieces:
  assumes "run_downloader itr os sched udp http ops ends contents dir n mp disk random = Inr cl" "n \<le> 0"
  shows "po_log (cl_pool cl) = []" "\<not> po_done (cl_pool cl)" "\<not> dl_done (cl_dl cl)" "dl_completed (cl_dl cl) = 0"
proof -
  from run_downloader_Inr [OF assms(1)] obtain t cl0 ops' where
    c: "open_client os dir t disk random n = Inr cl0" and cl: "cl = close_files (run_ops (client_exec itr os sched mp) ops' cl0)"
    by metis
  have "idle_pool (cl_pool cl0)" "\<not> dl_done (cl_dl cl0)" "dl_completed (cl_dl cl0) = 0"
    using c assms(2) by (auto simp: open_client_def new_pool_def idle_pool_def res_simps)
  with idle_client [of cl0 itr os sched mp ops']
  show "po_log (cl_pool cl) = []" "\<not> po_done (cl_pool cl)" "\<not> dl_done (cl_dl cl)" "dl_completed (cl_dl cl) = 0"
    by (simp_all add: cl close_files_def idle_pool_def)
qed

text \<open>
  C36. What the command line accepts, and what it means: \<open>main\<close> gets its arguments exactly from the
  lines that consist of options with their values, under their short or long names or under a
  long name cut off anywhere, the value following, after an equals sign, or glued to the short
  name, and at most one torrent, with a \<open>--\<close> only at the end; every value counts in the order of
  the line, so that the last one of an option wins, and a number has to be one for \<open>int\<close>.
\<close>

theorem command_line_accepted:
  "parse_args ucd argv = Inr args \<longleftrightarrow>
     (\<exists>its e. line_ok ucd True its e \<and> argv = command_line its e \<and>
        store_all ucd (its @ ending_items e) default_arguments = Inr args)"
proof
  assume r: "parse_args ucd argv = Inr args"
  with parse_words_accepts obtain its e where l: "line_ok ucd True its e" "argv = command_line its e"
    unfolding parse_args_def by blast
  with r parse_line [OF l(1)] show "\<exists>its e. line_ok ucd True its e \<and> argv = command_line its e \<and>
        store_all ucd (its @ ending_items e) default_arguments = Inr args"
    by (auto simp: parse_args_def)
next
  assume "\<exists>its e. line_ok ucd True its e \<and> argv = command_line its e \<and>
        store_all ucd (its @ ending_items e) default_arguments = Inr args"
  with parse_line show "parse_args ucd argv = Inr args" unfolding parse_args_def by metis
qed

end
