(* ===== verification/Spec2Isabelle.thy ===== *)
theory Spec2Isabelle
  imports Bencode PeerWire PieceManager PieceProgress TorrentFile FileWriter FileStore Tracker TrackerQuery Reports
    PeerConn PeerPool PoolSafety PoolDemo PoolGuarantees SeedSession Downloader ClientRuns CommandLine LiveStats
begin

text \<open>
  FASTtorrent: a verification development of a BitTorrent client.

  The program (src/client) downloads the files of a torrent.  \<open>main.py\<close> parses the torrent file,
  opens the files, sets up the piece manager and the peer pool, announces to the trackers and
  gives the peers they return to the pool; the pool runs one asyncio task per peer, which asks the
  piece manager what to request, feeds it the blocks that come in, and hands every verified piece
  to a callback that writes it to the disk.

  The theories, bottom up; \<open>modules/\<close> is src/client/modules:

    \<^item> \<open>Prelude\<close>: bytes, exceptions as values of a sum type, Python's indexing, slices, find and
      dictionaries, and four locales: \<open>codec\<close> (self-delimiting encodings), \<open>operations\<close> and
      \<open>framed_operations\<close> (objects driven by calls that may raise, with an invariant and a part that
      never changes), \<open>ranked_steps\<close> (runs that end).
    \<^item> \<open>PyText\<close>, \<open>PyUnicode\<close>, \<open>PyStruct\<close>, \<open>PyValue\<close>, \<open>PyFloat\<close>, \<open>Sha1\<close>: what the source uses of
      Python: \<open>int(bytes)\<close> and \<open>str(int)\<close> with the 4300-digit limit, UTF-8 with replacement, \<open>struct\<close>,
      the values bencode produces with their truth value and \<open>repr\<close>, floats as IEEE doubles with
      rounding, overflow and their formats, and SHA-1.
    \<^item> \<open>Bencode\<close> (modules/bencode.py): the recursive decoder with its index, the encoder; an
      instance of \<open>codec\<close>.
    \<^item> \<open>PeerWire\<close> (modules/peerProtocol.py, messages and handshake): an instance of \<open>codec\<close> again.
    \<^item> \<open>PeerConn\<close> (modules/peerProtocol.py, \<open>PeerConnection\<close>): streams with buffers, arrivals and
      timers; \<open>connect\<close>, \<open>send_message\<close>, \<open>receive_message\<close>, \<open>close\<close>.
    \<^item> \<open>Pieces\<close>, \<open>PieceManager\<close>, \<open>PieceProgress\<close> (modules/pieceManager.py): \<open>Piece\<close>, \<open>PieceManager\<close>,
      their invariant as an instance of \<open>framed_operations\<close>, and what selection, requests, blocks
      and bitfields achieve.
    \<^item> \<open>TorrentFile\<close> (modules/torrentFileParser.py): from the bytes of a torrent file to a record.
    \<^item> \<open>FileWriter\<close>, \<open>FileStore\<close> (modules/fileWriter.py): pieces over several files; the locale
      \<open>byte_store\<close>, interpreted for one file and for the whole torrent; opening, and the complete
      download.
    \<^item> \<open>Tracker\<close> (modules/trackCommunication.py): UDP and HTTP announces, responses, failover.
    \<^item> \<open>TrackerQuery\<close>: what an HTTP tracker reads out of the query of an announce.
    \<^item> \<open>PeerPool\<close>, \<open>PoolSafety\<close>, \<open>PoolDemo\<close>, \<open>PoolGuarantees\<close> (modules/peerPool.py): the tasks as
      phases between awaits, the pool as an object driven by operations (an instance of
      \<open>framed_operations\<close>, so every theorem is about all interleavings), its invariant, a run
      evaluated step by step, and the theorems.
    \<^item> \<open>SeedSession\<close>: a session with a peer that has everything and answers its requests, as a step
      relation; an instance of the locale \<open>ranked_steps\<close>, so each run is short and ends with the
      download complete.
    \<^item> \<open>Display\<close> (main.py: sizes, times, progress bar, dashboard), \<open>Reports\<close> (\<open>get_progress\<close> and the
      \<open>__repr__\<close> methods), \<open>PrintedNumbers\<close> (every number a torrent or a tracker brings can be
      printed), \<open>LiveStats\<close> (live_stats.py).
    \<^item> \<open>Downloader\<close> (main.py, \<open>run_downloader\<close>): the set-up, the callback, the announcements, the
      client as a whole, and the run from the torrent file to the shutdown.
    \<^item> \<open>ClientRuns\<close>: what holds in every state of a client, how the run ends and what it leaves on the
      disk, and one run with all its values.
    \<^item> \<open>CommandLine\<close> (main.py, \<open>main\<close>): the declared arguments, what \<open>argparse\<close> makes of a command line
      with them, and how the program ends.  The theorem says which lines are accepted.
    \<^item> This theory: the properties of the whole client.

  Conventions.  A class is a record, a method a function of the record that returns it updated; a
  method that may raise returns \<open>exc + result\<close>, and one that changes its object before it raises
  returns both.  The exceptions the client declares carry the fixed part of their message only.
  Python integers are \<open>int\<close>; what comes off the wire is in range because it was read from bytes.
  Iteration over Python sets and the order in which threads run are parameters, constrained only
  to be an order (\<open>set_order\<close>, \<open>any_order\<close>), so the theorems hold for each.

  What the environment does is an argument: the path to file mapping of the operating system, what
  a connection attempt and a write to a socket end with, what arrives from a peer and which timer
  fires, DNS, the tracker's answers, random numbers.

  Loops.  All recursion is total, without fuel: the decoder by the index, the block grid by the
  offset, the pipeline loop by the number of blocks in flight, waiting for an unchoke by the
  source's own bound of 25 messages.  The \<open>while\<close> loops of the tasks, which may run as long as the
  peer keeps talking, are not recursions but sequences of steps, one for each stretch of code
  between two awaits.

  Abstractions.  Steps of tasks are split a little finer than the awaits (the head of the download
  loop and each request are steps of their own), which only adds interleavings.  The callback is
  run when the piece is handed out; writes of different pieces commute.  In the file system, an
  open file can always be read and written (a full disk is not modelled), and whether two paths
  are the same file is the operating system's say.

  The run.  \<open>run_downloader\<close> is set-up, first announce, the peers of the answer, a list of operations
  that stands for everything the tasks and the network do until the done event or an
  interruption, and \<open>shut_down\<close>.  Of what it prints only the summary is in it, because it is the
  only part that can raise (for 2^1024 bytes and more); the report, the dashboard and the numbers
  of the tracker's answer are definitions of their own, with lemmas that they do not raise for
  amounts below 2^1023.

  Not modelled.  The console mode of Windows (\<open>_enable_windows_vt\<close>), the wording of the help and of
  usage errors, and logging (its arguments are numbers that exist anyway; the one division in
  \<open>PieceManager.__init__\<close> overflows for 2^1034 bytes, after the summary has raised).  The Unicode
  database (decimal digits, blanks, printable characters) is an argument.  HTTP itself (aiohttp),
  sockets and threads are the environment.  \<open>asyncio\<close>'s scheduler is the list of operations.
\<close>

section \<open>The client\<close>



subsection \<open>The end of the download\<close>





text \<open>
  The counters are exact: \<open>completed_pieces_count\<close> and \<open>downloaded_bytes\<close> are the number and the
  total length of the handed-out pieces that the writer has taken.
\<close>

theorem counters_exact:
  assumes "set_up os dir contents disk random n = Inr cl0"
    and "distinct (map (\<lambda>f. os (path_join dir (fi_path f))) (t_files (cl_torrent cl0)))"
    and "\<forall>f \<in> set (t_files (cl_torrent cl0)). \<exists>h. os (path_join dir (fi_path f)) = Inr h"
    and "set_order itr" "any_order sched" "cl = run_ops (client_exec itr os sched mp) ops cl0"
  shows "dl_completed (cl_dl cl) = blen (filter (takes (cl_torrent cl0)) (po_log (cl_pool cl))) \<and>
    dl_downloaded (cl_dl cl) = sum_list (map (\<lambda>q. blen (snd q)) (filter (takes (cl_torrent cl0)) (po_log (cl_pool cl))))"
  using client_reached [OF assms] by (simp add: client_ok_def dl_ok_def)

lemma counters_exact_witness:
  "dl_completed (cl_dl demo_end) = 1 \<and> dl_downloaded (cl_dl demo_end) = 1"
  using counters_exact [OF demo_set_up demo_files order_sorted any_order_rev demo_end_def] demo_end_pool
  by (simp add: demo_client_def demo_torrent_def takes_def num_pieces_def piece_size_def piece_start_def total_length_def)

subsection \<open>The set-up\<close>

text \<open>
  A torrent that parses can be downloaded: if the system opens the files, and no two of them
  are the same file, the set-up succeeds, with a writer that is open on those files and a pool
  without sessions in which every piece is NEEDED.
\<close>

theorem set_up_succeeds:
  assumes "from_bytes raw = Inr t"
    and "distinct (map (\<lambda>f. os (path_join dir (fi_path f))) (t_files t))"
    and "\<forall>f \<in> set (t_files t). \<exists>h. os (path_join dir (fi_path f)) = Inr h"
  shows "\<exists>cl. set_up os dir (Some raw) disk random n = Inr cl \<and> cl_torrent cl = t \<and>
    ready (dl_writer (cl_dl cl)) (dl_disk (cl_dl cl)) \<and> num_connected (cl_pool cl) = 0 \<and>
    length (pm_pieces (po_pm (cl_pool cl))) = length (t_piece_hashes t) \<and>
    (\<forall>p \<in> set (pm_pieces (po_pm (cl_pool cl))). p_state p = NEEDED)"
  using open_client_succeeds [OF assms, of disk random n] assms(1) by (simp add: set_up_def from_path_def)

lemma set_up_succeeds_witness:
  "\<exists>cl. set_up demo_os [47] (Some demo_file) Map.empty [] 7 = Inr cl \<and> cl_torrent cl = demo_torrent"
  using set_up_succeeds [OF demo_parsed, of demo_os "[47]" Map.empty "[]" 7] demo_files
  by (auto simp: demo_client_def)







text \<open>
  The piece manager and the writer agree on the length of every piece, if the torrent lists as many
  hashes as its total length needs.  (The parser does not check that.)
\<close>

theorem manager_writer_agree:
  assumes "from_bytes raw = Inr t" "num_pieces t = (total_length t + t_piece_length t - 1) div t_piece_length t"
    and "make_manager (t_piece_hashes t) (t_piece_length t) (total_length t) = Inr pm" "j < length (t_piece_hashes t)"
  shows "p_length (pm_pieces pm ! j) = piece_size t (int j)"
  using assms by (rule lengths_agree)

lemma manager_writer_agree_witness: "p_length (pm_pieces demo_manager ! 0) = piece_size demo_torrent (int 0)"
proof (rule manager_writer_agree [OF demo_parsed])
  show "num_pieces demo_torrent = (total_length demo_torrent + t_piece_length demo_torrent - 1) div t_piece_length demo_torrent"
    by (simp add: demo_torrent_def num_pieces_def total_length_def)
  show "make_manager (t_piece_hashes demo_torrent) (t_piece_length demo_torrent) (total_length demo_torrent) = Inr demo_manager"
    using demo_manager by (simp add: demo_torrent_def total_length_def)
qed (simp add: demo_torrent_def)

text \<open>
  The announcements of the client always fit the packet: for a torrent that parsed and is
  shorter than 2^64 bytes, with any transaction number, key and connection id, and however much
  has been counted as downloaded, \<open>left\<close> is not negative and the packet of 98 bytes is built
  without struct.error.
\<close>

theorem announcements_fit:
  assumes "from_bytes raw = Inr t" "total_length t < 2 ^ 64" "length random = 12"
    and "0 \<le> dl_downloaded dl" "dl_downloaded dl < 2 ^ 64"
    and "0 \<le> cid" "cid < 2 ^ 64" "0 \<le> tx" "tx < 2 ^ 31" "0 \<le> key" "key < 2 ^ 31"
  shows "(\<exists>p. announce_packet cid tx key (first_announce t (client_peer_id random)) = Inr p \<and> length p = 98) \<and>
    (\<exists>p. announce_packet cid tx key (reannounce_request t (client_peer_id random) dl) = Inr p \<and> length p = 98) \<and>
    0 \<le> rq_left (reannounce_request t (client_peer_id random) dl)"
proof -
  from from_bytes_ok [OF assms(1)] have t: "length (t_info_hash t) = 20" "0 < total_length t"
    by (simp_all add: torrent_ok_def)
  have "announce_fits cid tx key (first_announce t (client_peer_id random))"
    "announce_fits cid tx key (reannounce_request t (client_peer_id random) dl)"
    using assms(2-) t by (simp_all add: announce_fits_def first_announce_def reannounce_request_def client_peer_id_def)
  from this [THEN announce_packet_eq] show ?thesis
    using assms(3) t by (simp add: first_announce_def reannounce_request_def client_peer_id_def)
qed

lemma announcements_fit_witness:
  "(\<exists>p. announce_packet 7 8 9 (first_announce demo_torrent (client_peer_id (replicate 12 5))) = Inr p \<and> length p = 98)"
  using announcements_fit [OF demo_parsed, of "replicate 12 5" demo_dl 7 8 9]
  by (simp add: demo_torrent_def total_length_def demo_dl_def)

subsection \<open>A download from a seed\<close>

text \<open>
  C1. A download from a seed ends with the content on the disk: from the moment a peer that has every
  piece has unchoked us, and as long as it answers one of the requests in flight whenever we
  wait, each run takes at most five steps per block and two more, never stops before it is over,
  and when it is over, the pool is done and each piece reads back from the disk as exactly the
  content.
\<close>

theorem seed_download_on_disk:
  assumes "set_up os dir contents disk random m = Inr cl0"
    and "distinct (map (\<lambda>f. os (path_join dir (fi_path f))) (t_files (cl_torrent cl0)))"
    and "\<forall>f \<in> set (t_files (cl_torrent cl0)). \<exists>h. os (path_join dir (fi_path f)) = Inr h"
    and "set_order itr" "any_order sched" "cl = run_ops (client_exec itr os sched mp) ops cl0"
    and "num_pieces (cl_torrent cl0) = (total_length (cl_torrent cl0) + t_piece_length (cl_torrent cl0) - 1) div t_piece_length (cl_torrent cl0)"
    and "addressable (po_pm (cl_pool cl0))" "content_fits cs (t_piece_hashes (cl_torrent cl0)) (po_pm (cl_pool cl0))"
    and "bitfield_pieces (num_pieces (cl_torrent cl0)) bf = int ` {..< length cs}"
    and "po_pm (cl_pool cl) = on_peer_bitfield peer bf (po_pm (cl_pool cl0))" "po_log (cl_pool cl) = []"
    and "dict_get (po_running (cl_pool cl)) n = Some \<lparr>tk_key = key, tk_session = new_session c, tk_phase = Looping\<rparr>"
    and "seed_connection peer c" "(seed_client itr os sched mp cs n ^^ k) cl cl'"
  shows "int k \<le> 5 * sum_list (map num_blocks (pm_pieces (po_pm (cl_pool cl0)))) + 2 \<and>
    ((\<exists>cl''. seed_client itr os sched mp cs n cl' cl'') \<or>
     po_done (cl_pool cl') \<and> (\<forall>j < length cs. read_piece os (int j) None (dl_writer (cl_dl cl'), dl_disk (cl_dl cl')) =
        Inr (cs ! j, dl_writer (cl_dl cl'), dl_disk (cl_dl cl'))))"
proof -
  let ?t = "cl_torrent cl0" and ?pm = "po_pm (cl_pool cl0)"
  from set_up_manager [OF assms(1)] obtain raw where
    m: "make_manager (t_piece_hashes ?t) (t_piece_length ?t) (total_length ?t) = Inr ?pm" and raw: "from_bytes raw = Inr ?t" by blast
  have len: "length cs = length (t_piece_hashes ?t)" using assms(9) by (simp add: content_fits_def)
  have bf: "bitfield_pieces (blen (t_piece_hashes ?t)) bf = int ` {..< length (t_piece_hashes ?t)}"
    using assms(10) len by (simp add: num_pieces_def)
  from seed_pool_start [OF m assms(8,9) bf assms(11-14)] assms(4)
  have inv: "set_order itr \<and> seed_pool cs peer n (cl_pool cl)"
    and rank: "int (pool_rank n (cl_pool cl)) = 5 * sum_list (map num_blocks (pm_pieces ?pm)) + 2" by simp_all
  from seed_client_run [OF assms(15)] obtain ops' where run: "(seed_step itr cs n ^^ k) (cl_pool cl) (cl_pool cl')"
    and "cl' = run_ops (client_exec itr os sched mp) ops' cl" by blast
  then have "cl' = run_ops (client_exec itr os sched mp) (ops @ ops') cl0" by (simp add: assms(6) run_ops_def)
  from client_reached [OF assms(1-5) this] have ok: "client_ok os cl'" and t: "cl_torrent cl' = ?t" by simp_all
  have inv': "seed_pool cs peer n (cl_pool cl')" using seedc.run_inv [OF run inv] by simp
  have "read_piece os (int j) None (dl_writer (cl_dl cl'), dl_disk (cl_dl cl')) = Inr (cs ! j, dl_writer (cl_dl cl'), dl_disk (cl_dl cl'))"
    if over: "session_over n (cl_pool cl')" and j: "j < length cs" for j
  proof -
    have l: "(int j, cs ! j) \<in> set (po_log (cl_pool cl'))" using seed_pool_over [OF inv' over j] by simp
    have "blen (cs ! j) = piece_size (cl_torrent cl') (int j)"
      using lengths_agree [OF raw assms(7) m, of j] assms(9) j len by (simp add: content_fits_def t)
    from client_disk [OF ok l this] obtain r where "(int j, r) \<in> set (po_log (cl_pool cl'))"
      "read_piece os (int j) None (dl_writer (cl_dl cl'), dl_disk (cl_dl cl')) = Inr (r, dl_writer (cl_dl cl'), dl_disk (cl_dl cl'))"
      by blast
    moreover from this(1) inv' have "r = cs ! j" by (auto simp: seed_pool_def)
    ultimately show ?thesis by simp
  qed
  moreover have "po_done (cl_pool cl')" if "session_over n (cl_pool cl')"
    using inv' that by (auto simp: seed_pool_def session_over_def)
  moreover have "session_over n (cl_pool cl')" if "\<not> (\<exists>cl''. seed_client itr os sched mp cs n cl' cl'')"
    using seedc.run_ends [OF run inv] seed_client_progress that by blast
  moreover have "int k \<le> 5 * sum_list (map num_blocks (pm_pieces ?pm)) + 2"
    using seedc.run_rank [OF run inv] unfolding rank [symmetric] by simp
  ultimately show ?thesis by blast
qed

lemma seed_download_on_disk_witness:
  "\<exists>cl'. (seed_client sorted_list_of_set demo_os rev None [[7]] 0 ^^ 6)
     (run_ops (client_exec sorted_list_of_set demo_os rev None) (take 6 (demo_ops (sha1 demo_info))) demo_client) cl' \<and>
     po_done (cl_pool cl') \<and> read_piece demo_os (int 0) None (dl_writer (cl_dl cl'), dl_disk (cl_dl cl')) =
        Inr ([7], dl_writer (cl_dl cl'), dl_disk (cl_dl cl'))"
proof -
  let ?ih = "sha1 demo_info" and ?pid = "client_peer_id (replicate 12 5)"
  define cl where "cl = run_ops (client_exec sorted_list_of_set demo_os rev None) (take 6 (demo_ops ?ih)) demo_client"
  have "length ?pid = 20" by (simp add: client_peer_id_def)
  from demo_run_unchoked [OF length_sha1 this, of sorted_list_of_set] have
    po: "cl_pool cl = demo_state ?ih ?pid demo_m1 (demo_session (demo_c2 ?ih ?pid) [] []) Looping [] False"
    by (simp add: cl_def client_pool demo_client_def)
  from seed_client_lift [of 6 sorted_list_of_set "[[7]]" 0 cl _ demo_os rev None] demo_seed_run [of ?ih ?pid]
  obtain cl' where run: "(seed_client sorted_list_of_set demo_os rev None [[7]] 0 ^^ 6) cl cl'"
    and po': "cl_pool cl' = demo_state ?ih ?pid demo_m3 (demo_session (demo_c3 ?ih ?pid) [] []) Leaving [(0, [7])] True"
    unfolding po by blast
  have "\<not> seed_client sorted_list_of_set demo_os rev None [[7]] 0 cl' cl''" for cl''
  proof
    assume "seed_client sorted_list_of_set demo_os rev None [[7]] 0 cl' cl''"
    then have "seed_step sorted_list_of_set [[7]] 0 (cl_pool cl') (cl_pool cl'')" by (simp add: seed_client_def)
    then show False unfolding po' by cases (auto simp: demo_state_def)
  qed
  moreover have "bitfield_pieces (num_pieces (cl_torrent demo_client)) [128] = int ` {..< length [[7 :: byte]]}"
    by (auto simp: mem_bitfield_pieces bit_numeral_rec demo_client_def demo_torrent_def num_pieces_def)
  moreover have "content_fits [[7]] (t_piece_hashes (cl_torrent demo_client)) (po_pm (cl_pool demo_client))"
    "addressable (po_pm (cl_pool demo_client))"
    "num_pieces (cl_torrent demo_client) = (total_length (cl_torrent demo_client) + t_piece_length (cl_torrent demo_client) - 1) div t_piece_length (cl_torrent demo_client)"
    by (simp_all add: content_fits_def addressable_def demo_client_def demo_torrent_def demo_pool_def new_pool_def demo_manager_def
        num_pieces_def total_length_def)
  moreover have "seed_connection (replicate 20 3) (demo_c2 ?ih ?pid)"
    by (simp add: seed_connection_def live_def buffered_def is_connected_def demo_c2_def demo_c1_def demo_connection_def)
  moreover have "po_pm (cl_pool cl) = on_peer_bitfield (replicate 20 3) [128] (po_pm (cl_pool demo_client))"
    "po_log (cl_pool cl) = []" "dict_get (po_running (cl_pool cl)) 0 =
      Some \<lparr>tk_key = [49, 58, 56, 48], tk_session = new_session (demo_c2 ?ih ?pid), tk_phase = Looping\<rparr>"
    by (simp_all add: po demo_state_def demo_m1_def demo_client_def demo_pool_def new_pool_def new_session_def)
  ultimately show ?thesis
    using seed_download_on_disk [OF demo_set_up demo_files order_sorted any_order_rev cl_def, of "[[7]]" "[128]" "replicate 20 3" 0
        "[49, 58, 56, 48]" "demo_c2 ?ih ?pid" 6 cl'] run unfolding cl_def [symmetric] by fastforce
qed

end
